(* ===== verification/Prelude.thy ===== *)
theory Prelude
  imports Main "HOL-Library.Word"
begin

text \<open>
  Shared vocabulary of the development: the machine integer types, the ways a C++ operation
  can fail or fail to return, the two sequencing combinators, and the list lemmas the
  components share.

  \<^item> \<open>fault\<close> names what the source leaves undefined or ends the process with: an index outside
    a \<open>std::vector\<close>, a float that does not fit the integer it is cast to, a failed \<open>ASSERT\<close>
    (which calls \<open>exit\<close>), \<open>std::get\<close> on the wrong alternative of a \<open>std::variant\<close> inside
    a \<open>noexcept\<close> function (which calls \<open>std::terminate\<close>).
  \<^item> \<open>'a result\<close> is the outcome of code that always returns or faults, and
    \<open>'a outcome\<close> the outcome of code with a loop that may spin for ever: \<open>None\<close> is
    not returning.
  \<^item> \<open>size_t\<close> values are \<open>nat\<close> where no operation of the source can leave their range;
    the conversions between \<open>size_t\<close>, \<open>int\<close> and \<open>uint32_t\<close> that do change values are written
    out below.
\<close>

type_synonym u8 = "8 word"
type_synonym u32 = "32 word"
type_synonym u64 = "64 word"

datatype fault = OutOfBounds | BadCast | AssertFailed | BadVariant | NullPointer | DanglingReference

type_synonym 'a result = "fault + 'a"
type_synonym 'a outcome = "'a result option"

named_theorems bind_simps \<open>evaluation of the sequencing combinators\<close>
named_theorems frame_simps \<open>parts of a state an operation leaves alone\<close>

definition bindR :: "'a result \<Rightarrow> ('a \<Rightarrow> 'b result) \<Rightarrow> 'b result" where
  "bindR m f = (case m of Inl e \<Rightarrow> Inl e | Inr x \<Rightarrow> f x)"

definition bindO :: "'a outcome \<Rightarrow> ('a \<Rightarrow> 'b outcome) \<Rightarrow> 'b outcome" where
  "bindO m f = Option.bind m (\<lambda>r. case r of Inl e \<Rightarrow> Some (Inl e) | Inr x \<Rightarrow> f x)"

lemma bindR_simps [simp, bind_simps]:
  "bindR (Inl e) f = Inl e"
  "bindR (Inr x) f = f x"
  by (simp_all add: bindR_def)

lemma bindO_simps [simp, bind_simps]:
  "bindO None g = None"
  "bindO (Some (Inl e)) g = Some (Inl e)"
  "bindO (Some (Inr x)) g = g x"
  by (simp_all add: bindO_def)

lemma bindR_eq_Inr: "bindR m f = Inr y \<longleftrightarrow> (\<exists>x. m = Inr x \<and> f x = Inr y)"
  by (cases m) auto

lemma bindO_eq_Some_Inr: "bindO m f = Some (Inr y) \<longleftrightarrow> (\<exists>x. m = Some (Inr x) \<and> f x = Some (Inr y))"
  by (cases m rule: option.exhaust) (auto simp: bindO_def split: sum.splits)

lemma bindO_mono [partial_function_mono]:
  assumes "mono_option B" and "\<And>y. mono_option (\<lambda>f. C y f)"
  shows "mono_option (\<lambda>f. bindO (B f) (\<lambda>y. C y f))"
proof -
  have "mono_option (\<lambda>f. case r of Inl e \<Rightarrow> Some (Inl e) | Inr x \<Rightarrow> C x f)" for r
    using assms(2) by (cases r) (auto simp: monotone_def option.leq_refl)
  then show ?thesis
    unfolding bindO_def by (rule bind_mono [OF assms(1)])
qed

subsection \<open>Conversions between the integer types of the source\<close>

text \<open>\<open>size_t(-1)\<close>, the value the source stores in a lookup table entry that is not in use.\<close>

definition NPOS :: nat where
  "NPOS = 2 ^ 64 - 1"

text \<open>\<open>(int) x\<close> for a \<open>size_t\<close> or a \<open>uint32_t\<close>: the low 32 bits, read as two's complement.\<close>

definition int_of_size :: "nat \<Rightarrow> int" where
  "int_of_size n = (let k = n mod 2 ^ 32 in if k < 2 ^ 31 then int k else int k - 2 ^ 32)"

text \<open>An \<open>int\<close> used as the index of a \<open>std::vector\<close> is converted to \<open>size_t\<close>.\<close>

definition size_of_int :: "int \<Rightarrow> nat" where
  "size_of_int i = nat (i mod 2 ^ 64)"

lemma int_of_size_small [simp]: "n < 2 ^ 31 \<Longrightarrow> int_of_size n = int n"
  by (simp add: int_of_size_def)

lemma size_of_int_nat [simp]: "n < 2 ^ 64 \<Longrightarrow> size_of_int (int n) = n"
  by (simp add: size_of_int_def)

lemma int_of_size_NPOS [simp]: "int_of_size NPOS = -1"
  by (simp add: int_of_size_def NPOS_def)

lemma size_of_int_minus_one [simp]: "size_of_int (-1) = NPOS"
  by (simp add: size_of_int_def NPOS_def)

subsection \<open>Lists\<close>

lemma filter_split_at:
  assumes "c < length xs" and "P (xs ! c)"
  shows "filter P xs = filter P (take c xs) @ xs ! c # filter P (drop (Suc c) xs)"
proof -
  have "filter P xs = filter P (take c xs @ xs ! c # drop (Suc c) xs)"
    using id_take_nth_drop [OF assms(1)] by simp
  then show ?thesis using assms(2) by simp
qed

lemma in_take_drop_nth:
  assumes "x \<in> set (take c xs) \<union> set (drop (Suc c) xs)"
  obtains d where "d < length xs" and "d \<noteq> c" and "x = xs ! d"
  using assms
proof
  assume "x \<in> set (take c xs)"
  then obtain d where "d < length xs" "d < c" "x = xs ! d"
    by (auto simp: in_set_conv_nth)
  then show thesis using that [of d] by simp
next
  assume "x \<in> set (drop (Suc c) xs)"
  then obtain d where "d < length xs - Suc c" "drop (Suc c) xs ! d = x"
    by (auto simp only: in_set_conv_nth length_drop)
  then have "Suc c + d < length xs" "x = xs ! (Suc c + d)" by auto
  then show thesis using that [of "Suc c + d"] by simp
qed

lemma map_length_nth:
  "map length xs = map length ys \<Longrightarrow> p < length ys \<Longrightarrow> length (xs ! p) = length (ys ! p)"
  by (metis length_map nth_map)

text \<open>A number that fits a word is kept by the conversion to it.\<close>

lemma unat_word_of_nat32: "n < 2 ^ 32 \<Longrightarrow> unat (word_of_nat n :: u32) = n"
  by (simp add: unat_of_nat take_bit_nat_eq_self)

lemma unat_word_of_nat64: "n < 2 ^ 64 \<Longrightarrow> unat (word_of_nat n :: u64) = n"
  by (simp add: unat_of_nat take_bit_nat_eq_self)

end
