(* ===== verification/LFQueue.thy ===== *)
theory LFQueue
  imports Prelude "HOL-Library.Sublist"
begin

text \<open>
  \<open>header/lock_free_queue.h\<close>: the single-producer single-consumer ring buffer that connects
  the threads.  First the class, method by method; then the FIFO list it stands for and the
  interface its clients rely on (locale \<open>bounded_fifo\<close>); then one end of a queue as a
  producer sees it while the consumer runs in its own thread (\<open>port\<close>); last the two threads
  on one queue, as a step relation with every interleaving of their atomic actions.

  The two indices are \<open>std::atomic<size_t>\<close>; every method loads the index of the other side
  once, so one method call is one atomic action.  \<open>(index + 1) % size\<close> stays below the size
  of a vector and never wraps, so indices are \<open>nat\<close>.  A pointer to a slot is the slot's index.
  Field names lose their trailing underscore, which is not part of an Isabelle name.
\<close>

record 'a LFQueue =
  store :: "'a list"
  next_write_index :: nat
  next_read_index :: nat

definition LFQueue_new :: "nat \<Rightarrow> 'a \<Rightarrow> 'a LFQueue" where
  "LFQueue_new num_elems d =
     \<lparr>store = replicate num_elems d, next_write_index = 0, next_read_index = 0\<rparr>"

definition getNextToWriteTo :: "'a LFQueue \<Rightarrow> nat option" where
  "getNextToWriteTo q =
     (if (next_write_index q + 1) mod length (store q) = next_read_index q then None
      else Some (next_write_index q))"

definition updateWriteIndex :: "'a LFQueue \<Rightarrow> 'a LFQueue result" where
  "updateWriteIndex q =
     (if (next_write_index q + 1) mod length (store q) \<noteq> next_read_index q
      then Inr (q\<lparr>next_write_index := (next_write_index q + 1) mod length (store q)\<rparr>)
      else Inl AssertFailed)"

definition getNextToRead :: "'a LFQueue \<Rightarrow> nat option" where
  "getNextToRead q =
     (if next_read_index q = next_write_index q then None else Some (next_read_index q))"

definition updateReadIndex :: "'a LFQueue \<Rightarrow> 'a LFQueue result" where
  "updateReadIndex q =
     (if next_read_index q \<noteq> next_write_index q
      then Inr (q\<lparr>next_read_index := (next_read_index q + 1) mod length (store q)\<rparr>)
      else Inl AssertFailed)"

definition lfq_size :: "'a LFQueue \<Rightarrow> nat" where
  "lfq_size q =
     (let w = next_write_index q; r = next_read_index q
      in if r \<le> w then w - r else length (store q) - r + w)"

text \<open>Access through the pointer that \<open>getNextToWriteTo\<close> or \<open>getNextToRead\<close> returned.\<close>

definition write_slot :: "nat \<Rightarrow> 'a \<Rightarrow> 'a LFQueue \<Rightarrow> 'a LFQueue" where
  "write_slot i x q = q\<lparr>store := (store q)[i := x]\<rparr>"

definition read_slot :: "nat \<Rightarrow> 'a LFQueue \<Rightarrow> 'a" where
  "read_slot i q = store q ! i"

subsection \<open>The queue as a list\<close>

definition lfq_inv :: "'a LFQueue \<Rightarrow> bool" where
  "lfq_inv q \<longleftrightarrow> next_write_index q < length (store q) \<and> next_read_index q < length (store q)"

definition contents :: "'a LFQueue \<Rightarrow> 'a list" where
  "contents q =
     map (\<lambda>k. store q ! ((next_read_index q + k) mod length (store q))) [0..<lfq_size q]"

lemma length_contents [simp]: "length (contents q) = lfq_size q"
  by (simp add: contents_def)

lemma ring_mod:
  assumes "a < n" and "k \<le> (n::nat)"
  shows "(a + k) mod n = (if a + k < n then a + k else a + k - n)"
  using assms by (auto simp: mod_if)

lemma lfq_size_less: "lfq_inv q \<Longrightarrow> lfq_size q < length (store q)"
  by (auto simp: lfq_inv_def lfq_size_def Let_def)

lemma ring_Suc_size:
  assumes "r < n" and "w < (n::nat)"
  shows "(w + 1) mod n = r \<longleftrightarrow> (if r \<le> w then w - r else n - r + w) + 1 = n"
  using assms by (auto simp: mod_if)

lemma full_iff_size:
  "lfq_inv q \<Longrightarrow> getNextToWriteTo q = None \<longleftrightarrow> lfq_size q + 1 = length (store q)"
  using ring_Suc_size [of "next_read_index q" "length (store q)" "next_write_index q"]
  by (simp add: lfq_inv_def getNextToWriteTo_def lfq_size_def Let_def)

lemma empty_iff_contents:
  "lfq_inv q \<Longrightarrow> getNextToRead q = None \<longleftrightarrow> contents q = []"
  by (auto simp: lfq_inv_def getNextToRead_def lfq_size_def Let_def simp flip: length_0_conv)

lemma LFQueue_new_inv: "0 < n \<Longrightarrow> lfq_inv (LFQueue_new n d)"
  by (simp add: lfq_inv_def LFQueue_new_def)

lemma LFQueue_new_contents: "contents (LFQueue_new n d) = []"
  by (simp add: contents_def LFQueue_new_def lfq_size_def)

text \<open>The assertion in \<open>updateWriteIndex\<close> tests what \<open>getNextToWriteTo\<close> tested.\<close>

lemma updateWriteIndex_after_get:
  assumes "getNextToWriteTo q = Some i"
  shows "i = next_write_index q"
    and "updateWriteIndex (write_slot i x q) =
      Inr (write_slot i x q\<lparr>next_write_index := (next_write_index q + 1) mod length (store q)\<rparr>)"
  using assms by (auto simp: getNextToWriteTo_def updateWriteIndex_def write_slot_def split: if_splits)

lemma updateReadIndex_after_get:
  assumes "getNextToRead q = Some i"
  shows "i = next_read_index q"
    and "updateReadIndex q = Inr (q\<lparr>next_read_index := (next_read_index q + 1) mod length (store q)\<rparr>)"
  using assms by (auto simp: getNextToRead_def updateReadIndex_def split: if_splits)

lemma ring_step:
  assumes "a < n" and "k < (n::nat)" and "a + k \<noteq> n + b" and "b < n" and "a + k \<noteq> b"
  shows "(a + k) mod n \<noteq> b"
  using assms by (auto simp: mod_if)

lemma publish_contents:
  assumes inv: "lfq_inv q" and room: "getNextToWriteTo q = Some i"
    and up: "updateWriteIndex (write_slot i x q) = Inr q'"
  shows "lfq_inv q'" and "contents q' = contents q @ [x]" and "length (store q') = length (store q)"
proof -
  let ?n = "length (store q)" and ?w = "next_write_index q" and ?r = "next_read_index q"
  have q': "q' = write_slot ?w x q\<lparr>next_write_index := (?w + 1) mod ?n\<rparr>"
    using updateWriteIndex_after_get(1) [OF room] updateWriteIndex_after_get(2) [OF room, of x] up by simp
  have w: "?w < ?n" and r: "?r < ?n" using inv by (auto simp: lfq_inv_def)
  have m: "k mod ?n < ?n" for k using w by (intro mod_less_divisor) linarith
  have ne: "(?w + 1) mod ?n \<noteq> ?r" using room by (auto simp: getNextToWriteTo_def split: if_splits)
  have size: "lfq_size q' = Suc (lfq_size q)"
    using w r ne by (auto simp: q' write_slot_def lfq_size_def Let_def mod_if split: if_splits)
  have at_w: "(?r + lfq_size q) mod ?n = ?w"
    using w r by (auto simp: lfq_size_def Let_def mod_if)
  have "(?r + k) mod ?n \<noteq> ?w" if "k < lfq_size q" for k
    using that w r by (intro ring_step) (auto simp: lfq_size_def Let_def split: if_splits)
  then have other: "(store q)[?w := x] ! ((?r + k) mod ?n) = store q ! ((?r + k) mod ?n)"
    if "k < lfq_size q" for k
    using that by (metis nth_list_update_neq)
  show "lfq_inv q'" using w r m by (simp add: q' lfq_inv_def write_slot_def)
  show "length (store q') = ?n" by (simp add: q' write_slot_def)
  show "contents q' = contents q @ [x]"
    using other at_w w unfolding contents_def size by (simp add: q' write_slot_def)
qed

lemma release_contents:
  assumes inv: "lfq_inv q" and some: "getNextToRead q = Some i" and up: "updateReadIndex q = Inr q'"
  shows "lfq_inv q'" and "contents q = read_slot i q # contents q'" and "store q' = store q"
    and "next_write_index q' = next_write_index q"
proof -
  let ?n = "length (store q)" and ?w = "next_write_index q" and ?r = "next_read_index q"
  have q': "q' = q\<lparr>next_read_index := (?r + 1) mod ?n\<rparr>" and i: "i = ?r"
    using updateReadIndex_after_get [OF some] up by simp_all
  have w: "?w < ?n" and r: "?r < ?n" using inv by (auto simp: lfq_inv_def)
  have m: "k mod ?n < ?n" for k using w by (intro mod_less_divisor) linarith
  have ne: "?r \<noteq> ?w" using some by (auto simp: getNextToRead_def split: if_splits)
  have size: "lfq_size q = Suc (lfq_size q')"
    using w r ne by (auto simp: q' lfq_size_def Let_def mod_if)
  have shift: "(?r + Suc k) mod ?n = ((?r + 1) mod ?n + k) mod ?n" for k
    by (simp add: mod_add_left_eq)
  show "lfq_inv q'" using w r m by (simp add: q' lfq_inv_def)
  show "store q' = store q" "next_write_index q' = ?w" by (simp_all add: q')
  show "contents q = read_slot i q # contents q'"
    unfolding contents_def size map_upt_Suc using r shift by (simp add: q' i read_slot_def)
qed

text \<open>The consumer may write into the slot it holds before it releases it.\<close>

lemma consume_contents:
  assumes inv: "lfq_inv q" and some: "getNextToRead q = Some i"
  obtains q' where "updateReadIndex (write_slot i y q) = Inr q'" and "lfq_inv q'"
    and "contents q = read_slot i q # contents q'" and "length (store q') = length (store q)"
proof -
  let ?q = "write_slot i y q" and ?n = "length (store q)" and ?r = "next_read_index q"
  have i: "i = ?r" using updateReadIndex_after_get(1) [OF some] .
  have w: "next_write_index q < ?n" and r: "?r < ?n" using inv by (auto simp: lfq_inv_def)
  have some': "getNextToRead ?q = Some i" and inv': "lfq_inv ?q"
    using some inv by (simp_all add: getNextToRead_def write_slot_def lfq_inv_def split: if_splits)
  obtain q' where up: "updateReadIndex ?q = Inr q'"
    using updateReadIndex_after_get(2) [OF some'] by blast
  note R = release_contents [OF inv' some' up]
  obtain q'' where up'': "updateReadIndex q = Inr q''"
    using updateReadIndex_after_get(2) [OF some] by blast
  note S = release_contents [OF inv some up'']
  have size: "lfq_size ?q = lfq_size q" by (simp add: write_slot_def lfq_size_def Let_def)
  have nth: "contents ?q ! Suc k = contents q ! Suc k" if k: "Suc k < lfq_size q" for k
  proof -
    have "(?r + Suc k) mod ?n \<noteq> ?r"
      using k r lfq_size_less [OF inv] by (intro ring_step) auto
    then have "(store q)[?r := y] ! ((?r + Suc k) mod ?n) = store q ! ((?r + Suc k) mod ?n)"
      by (metis nth_list_update_neq)
    then show ?thesis using k unfolding contents_def size by (simp add: i write_slot_def)
  qed
  have len: "length (contents q') = length (contents q'')"
    using arg_cong [OF R(2), of length] arg_cong [OF S(2), of length] size by simp
  have "contents q' = contents q''"
  proof (rule nth_equalityI [OF len])
    fix k assume "k < length (contents q')"
    then have "Suc k < lfq_size q" using len arg_cong [OF S(2), of length] by simp
    from nth [OF this] show "contents q' ! k = contents q'' ! k"
      unfolding R(2) S(2) by simp
  qed
  with S(2) have "contents q = read_slot i q # contents q'" by simp
  moreover have "length (store q') = ?n" using R(3) by (simp add: write_slot_def)
  ultimately show thesis using that up R(1) by blast
qed

subsection \<open>The interface a client of a queue relies on\<close>

text \<open>
  \<open>offer\<close> is the producer's pattern of the source (get a slot, fill it, move the write
  index), \<open>poll\<close> the consumer's (get a slot, read it, move the read index); \<open>polls\<close> repeats a
  consumer's read.  The failing branch of the assertion in \<open>offer\<close> and \<open>poll\<close> is never taken
  (\<open>updateWriteIndex_after_get\<close>, \<open>updateReadIndex_after_get\<close>).
\<close>

definition offer :: "'a \<Rightarrow> 'a LFQueue \<Rightarrow> 'a LFQueue option" where
  "offer x q =
     (case getNextToWriteTo q of
        None \<Rightarrow> None
      | Some i \<Rightarrow>
          (case updateWriteIndex (write_slot i x q) of Inl _ \<Rightarrow> None | Inr q' \<Rightarrow> Some q'))"

definition poll :: "'a LFQueue \<Rightarrow> ('a \<times> 'a LFQueue) option" where
  "poll q =
     (case getNextToRead q of
        None \<Rightarrow> None
      | Some i \<Rightarrow> (case updateReadIndex q of Inl _ \<Rightarrow> None | Inr q' \<Rightarrow> Some (read_slot i q, q')))"

fun polls :: "('q \<Rightarrow> ('a \<times> 'q) option) \<Rightarrow> nat \<Rightarrow> 'q \<Rightarrow> 'a list \<times> 'q" where
  "polls get 0 q = ([], q)"
| "polls get (Suc k) q =
     (case get q of
        None \<Rightarrow> ([], q)
      | Some (x, q') \<Rightarrow> (let (ys, q'') = polls get k q' in (x # ys, q'')))"

locale bounded_fifo =
  fixes ok :: "'q \<Rightarrow> bool"
    and elems :: "'q \<Rightarrow> 'a list"
    and cap :: "'q \<Rightarrow> nat"
    and put :: "'a \<Rightarrow> 'q \<Rightarrow> 'q option"
    and get :: "'q \<Rightarrow> ('a \<times> 'q) option"
  assumes bounded: "ok q \<Longrightarrow> length (elems q) \<le> cap q"
    and put_None: "ok q \<Longrightarrow> put x q = None \<longleftrightarrow> length (elems q) = cap q"
    and put_Some: "ok q \<Longrightarrow> put x q = Some q' \<Longrightarrow> ok q' \<and> elems q' = elems q @ [x] \<and> cap q' = cap q"
    and get_None: "ok q \<Longrightarrow> get q = None \<longleftrightarrow> elems q = []"
    and get_Some: "ok q \<Longrightarrow> get q = Some (y, q') \<Longrightarrow> ok q' \<and> elems q = y # elems q' \<and> cap q' = cap q"
begin

lemma polls_prefix:
  assumes "ok q" and "polls get k q = (ys, q')"
  shows "ok q' \<and> elems q = ys @ elems q' \<and> cap q' = cap q \<and> length ys = min k (length (elems q))"
  using assms
proof (induction k arbitrary: q ys)
  case 0
  then show ?case by simp
next
  case (Suc k)
  show ?case
  proof (cases "get q")
    case None
    with Suc.prems show ?thesis by (simp add: get_None)
  next
    case (Some r)
    obtain y q1 where r: "r = (y, q1)" by (cases r)
    from get_Some [OF Suc.prems(1) Some [unfolded r]]
    have g: "ok q1" "elems q = y # elems q1" "cap q1 = cap q" by auto
    from Suc.prems(2) Some r obtain zs where zs: "polls get k q1 = (zs, q')" and ys: "ys = y # zs"
      by (auto split: prod.splits)
    from Suc.IH [OF g(1) zs]
    have "ok q'" "elems q1 = zs @ elems q'" "cap q' = cap q1" "length zs = min k (length (elems q1))"
      by blast+
    then show ?thesis
      unfolding ys g(2,3) [symmetric] using g(2,3) by (intro conjI) simp_all
  qed
qed

text \<open>What was sent is what was delivered followed by what is waiting, in order.\<close>

lemma history_put:
  assumes "ok q" and "polls get k q = (ys, q1)" and "put x q1 = Some q2" and "sent = got @ elems q"
  shows "ok q2 \<and> sent @ [x] = (got @ ys) @ elems q2 \<and> cap q2 = cap q"
  using polls_prefix [OF assms(1,2)] put_Some [OF _ assms(3)] assms(4) by auto

lemma history_full:
  assumes "ok q" and "polls get k q = (ys, q1)" and "put x q1 = None" and "sent = got @ elems q"
  shows "ok q1 \<and> sent = (got @ ys) @ elems q1 \<and> length (elems q1) = cap q1 \<and> cap q1 = cap q"
  using polls_prefix [OF assms(1,2)] put_None assms(3,4) by auto

lemma room_after_read:
  assumes "ok q" and "polls get k q = (ys, q1)" and "0 < k" and "0 < cap q"
  shows "put x q1 \<noteq> None"
proof
  assume "put x q1 = None"
  moreover note P = polls_prefix [OF assms(1,2)]
  ultimately have "length (elems q1) = cap q" using put_None by simp
  moreover from P have "length (elems q) = min k (length (elems q)) + length (elems q1)"
    by (metis length_append)
  ultimately show False
    using assms(3,4) bounded [OF assms(1)] by linarith
qed

end

lemma offer_simps:
  "getNextToWriteTo q = None \<Longrightarrow> offer x q = None"
  "getNextToWriteTo q = Some i \<Longrightarrow> offer x q =
    Some (write_slot i x q\<lparr>next_write_index := (next_write_index q + 1) mod length (store q)\<rparr>)"
  by (simp_all add: offer_def updateWriteIndex_after_get)

lemma offer_None_iff: "offer x q = None \<longleftrightarrow> getNextToWriteTo q = None"
  by (cases "getNextToWriteTo q") (simp_all add: offer_simps)

lemma offer_contents:
  assumes "lfq_inv q" and "offer x q = Some q'"
  shows "lfq_inv q' \<and> contents q' = contents q @ [x] \<and> length (store q') = length (store q)"
  using assms publish_contents [OF assms(1), of _ x q']
  by (auto simp: offer_def split: option.splits sum.splits)

lemma poll_None_iff: "poll q = None \<longleftrightarrow> getNextToRead q = None"
  by (cases "getNextToRead q") (simp_all add: poll_def updateReadIndex_after_get)

lemma poll_contents:
  assumes "lfq_inv q" and "poll q = Some (y, q')"
  shows "lfq_inv q' \<and> contents q = y # contents q' \<and> length (store q') = length (store q)"
  using assms release_contents [OF assms(1), of _ q']
  by (auto simp: poll_def split: option.splits sum.splits)

interpretation lfq: bounded_fifo lfq_inv contents "\<lambda>q. length (store q) - 1" offer poll
proof
  fix q q' :: "'a LFQueue" and x y :: 'a
  assume inv: "lfq_inv q"
  show "length (contents q) \<le> length (store q) - 1"
    using lfq_size_less [OF inv] by simp
  show "offer x q = None \<longleftrightarrow> length (contents q) = length (store q) - 1"
    using full_iff_size [OF inv] lfq_size_less [OF inv] by (auto simp: offer_None_iff)
  show "poll q = None \<longleftrightarrow> contents q = []"
    using empty_iff_contents [OF inv] by (simp add: poll_None_iff)
  show "lfq_inv q' \<and> contents q' = contents q @ [x] \<and> length (store q') - 1 = length (store q) - 1"
    if "offer x q = Some q'"
    using offer_contents [OF inv that] by simp
  show "lfq_inv q' \<and> contents q = y # contents q' \<and> length (store q') - 1 = length (store q) - 1"
    if "poll q = Some (y, q')"
    using poll_contents [OF inv that] by simp
qed

subsection \<open>The producer's end while the consumer runs\<close>

text \<open>
  A \<open>port\<close> is an outgoing queue together with two histories: what the producer published
  and what the consumer's thread has taken so far.  In \<open>publish k x\<close> the consumer first takes
  up to \<open>k\<close> elements (it runs in its own thread; \<open>k\<close> is the environment's choice), then the
  producer makes one attempt to publish \<open>x\<close>; the flag says whether it got a slot.
\<close>

record 'a port =
  chan :: "'a LFQueue"
  delivered :: "'a list"
  published :: "'a list"

definition port_new :: "nat \<Rightarrow> 'a \<Rightarrow> 'a port" where
  "port_new n d = \<lparr>chan = LFQueue_new n d, delivered = [], published = []\<rparr>"

definition publish :: "nat \<Rightarrow> 'a \<Rightarrow> 'a port \<Rightarrow> bool \<times> 'a port" where
  "publish k x p =
     (let (ys, q) = polls poll k (chan p); p' = p\<lparr>chan := q, delivered := delivered p @ ys\<rparr>
      in case offer x q of
           None \<Rightarrow> (False, p')
         | Some q' \<Rightarrow> (True, p'\<lparr>chan := q', published := published p @ [x]\<rparr>))"

definition port_cap :: "'a port \<Rightarrow> nat" where
  "port_cap p = length (store (chan p)) - 1"

definition port_inv :: "'a port \<Rightarrow> bool" where
  "port_inv p \<longleftrightarrow> lfq_inv (chan p) \<and> published p = delivered p @ contents (chan p)"

lemma port_new_inv: "0 < n \<Longrightarrow> port_inv (port_new n d)"
  by (simp add: port_inv_def port_new_def LFQueue_new_inv LFQueue_new_contents)

lemma publish_inv:
  assumes "port_inv p" and "publish k x p = (b, p')"
  shows "port_inv p'"
    and "published p' = published p @ (if b then [x] else [])"
    and "port_cap p' = port_cap p"
    and "\<not> b \<Longrightarrow> lfq_size (chan p') = port_cap p"
proof -
  obtain ys q where q: "polls poll k (chan p) = (ys, q)" by fastforce
  from assms(1) have inv: "lfq_inv (chan p)" and hist: "published p = delivered p @ contents (chan p)"
    by (auto simp: port_inv_def)
  have "port_inv p' \<and> published p' = published p @ (if b then [x] else []) \<and> port_cap p' = port_cap p
      \<and> (\<not> b \<longrightarrow> lfq_size (chan p') = port_cap p)"
  proof (cases "offer x q")
    case None
    with assms(2) q have p': "\<not> b" "p' = p\<lparr>chan := q, delivered := delivered p @ ys\<rparr>"
      by (auto simp: publish_def)
    show ?thesis
      using p' lfq.history_full [OF inv q None hist] by (simp add: port_inv_def port_cap_def)
  next
    case (Some q')
    with assms(2) q
    have p': "b" "p' = p\<lparr>chan := q', delivered := delivered p @ ys, published := published p @ [x]\<rparr>"
      by (auto simp: publish_def)
    show ?thesis
      using p' lfq.history_put [OF inv q Some hist] by (simp add: port_inv_def port_cap_def)
  qed
  then show "port_inv p'" and "published p' = published p @ (if b then [x] else [])"
    and "port_cap p' = port_cap p" and "\<not> b \<Longrightarrow> lfq_size (chan p') = port_cap p"
    by auto
qed

text \<open>With the consumer standing still the new element just joins the others.\<close>

lemma publish_alone:
  assumes "port_inv p" and "publish 0 x p = (b, p')" and "b"
  shows "contents (chan p') = contents (chan p) @ [x]"
proof -
  have inv: "lfq_inv (chan p)" using assms(1) by (simp add: port_inv_def)
  obtain q where q: "offer x (chan p) = Some q" "p' = p\<lparr>chan := q, published := published p @ [x]\<rparr>"
    using assms(2,3) by (auto simp: publish_def split: option.splits)
  show ?thesis using offer_contents [OF inv q(1)] q(2) by simp
qed

lemma publish_0_delivered: "delivered (snd (publish 0 x p)) = delivered p"
  by (simp add: publish_def split: option.splits)

text \<open>An attempt after the consumer took something succeeds.\<close>

lemma publish_after_read:
  assumes "port_inv p" and "0 < k" and "0 < port_cap p"
  shows "fst (publish k x p)"
proof -
  obtain ys q where q: "polls poll k (chan p) = (ys, q)" by fastforce
  with assms lfq.room_after_read [OF _ q assms(2), of x] show ?thesis
    by (auto simp: publish_def port_inv_def port_cap_def Let_def)
qed

text \<open>As long as fewer elements than the capacity were ever published, there is room.\<close>

lemma publish_room:
  assumes "port_inv p" and "length (published p) < port_cap p"
  shows "fst (publish k x p)"
proof (rule ccontr)
  assume "\<not> fst (publish k x p)"
  then obtain p' where p': "publish k x p = (False, p')" by (cases "publish k x p") auto
  note P = publish_inv [OF assms(1) p']
  then have "lfq_size (chan p') \<le> length (published p')"
    by (simp add: port_inv_def)
  with P assms(2) show False by simp
qed

subsection \<open>What a run of attempts leaves behind\<close>

text \<open>
  \<open>sends p p' xs\<close>: between \<open>p\<close> and \<open>p'\<close> the producer tried to publish \<open>xs\<close>, once each and in
  this order.  What was published is a subsequence of \<open>xs\<close>, and all of \<open>xs\<close> when the queue could
  hold everything ever published.
\<close>

definition sends :: "'a port \<Rightarrow> 'a port \<Rightarrow> 'a list \<Rightarrow> bool" where
  "sends p p' xs \<longleftrightarrow>
     (port_inv p \<longrightarrow> port_inv p' \<and> port_cap p' = port_cap p \<and>
        (\<exists>ys. published p' = published p @ ys \<and> subseq ys xs \<and>
           (length (published p) + length xs \<le> port_cap p \<longrightarrow> ys = xs)))"

lemma subseq_set: "subseq xs ys \<Longrightarrow> set xs \<subseteq> set ys"
  by (induction rule: list_emb.induct) auto

lemma sends_refl [simp]: "sends p p []"
  by (simp add: sends_def)

lemma sendsD:
  assumes "sends p p' xs" and "port_inv p"
  obtains ys where "port_inv p'" and "port_cap p' = port_cap p" and "published p' = published p @ ys"
    and "subseq ys xs" and "length (published p) + length xs \<le> port_cap p \<Longrightarrow> ys = xs"
  using assms unfolding sends_def by blast

lemma sends_append:
  assumes "sends p p' xs" and "sends p' p'' ys"
  shows "sends p p'' (xs @ ys)"
  unfolding sends_def
proof
  assume "port_inv p"
  then obtain us where u: "port_inv p'" "port_cap p' = port_cap p" "published p' = published p @ us"
    "subseq us xs" "length (published p) + length xs \<le> port_cap p \<Longrightarrow> us = xs"
    using sendsD [OF assms(1)] by metis
  then obtain vs where v: "port_inv p''" "port_cap p'' = port_cap p'" "published p'' = published p' @ vs"
    "subseq vs ys" "length (published p') + length ys \<le> port_cap p' \<Longrightarrow> vs = ys"
    using sendsD [OF assms(2)] by metis
  have "us @ vs = xs @ ys" if "length (published p) + length (xs @ ys) \<le> port_cap p"
  proof -
    from that have "us = xs" by (intro u(5)) simp
    moreover from this that u have "vs = ys" by (intro v(5)) simp
    ultimately show ?thesis by simp
  qed
  moreover have "subseq (us @ vs) (xs @ ys)" using u(4) v(4) by (rule list_emb_append_mono)
  ultimately show "port_inv p'' \<and> port_cap p'' = port_cap p \<and>
      (\<exists>zs. published p'' = published p @ zs \<and> subseq zs (xs @ ys) \<and>
         (length (published p) + length (xs @ ys) \<le> port_cap p \<longrightarrow> zs = xs @ ys))"
    using u v by (intro conjI exI [of _ "us @ vs"]) simp_all
qed

lemma publish_sends: "sends p (snd (publish k x p)) [x]"
  unfolding sends_def
proof
  assume inv: "port_inv p"
  obtain b p' where p': "publish k x p = (b, p')" by fastforce
  note P = publish_inv [OF inv p']
  have "b" if "length (published p) + 1 \<le> port_cap p"
    using publish_room [OF inv, of k x] that p' by simp
  with P show "port_inv (snd (publish k x p)) \<and> port_cap (snd (publish k x p)) = port_cap p \<and>
      (\<exists>ys. published (snd (publish k x p)) = published p @ ys \<and> subseq ys [x] \<and>
        (length (published p) + length [x] \<le> port_cap p \<longrightarrow> ys = [x]))"
    by (auto simp: p')
qed

text \<open>
  \<open>adds C p p'\<close>: whatever was published between \<open>p\<close> and \<open>p'\<close> meets the condition \<open>C\<close>.
\<close>

definition adds :: "('a \<Rightarrow> bool) \<Rightarrow> 'a port \<Rightarrow> 'a port \<Rightarrow> bool" where
  "adds C p p' \<longleftrightarrow>
     (port_inv p \<longrightarrow> port_inv p' \<and> port_cap p' = port_cap p \<and>
        (\<exists>ys. published p' = published p @ ys \<and> (\<forall>y \<in> set ys. C y)))"

lemma addsD:
  assumes "adds C p p'" and "port_inv p"
  obtains ys where "port_inv p'" and "port_cap p' = port_cap p" and "published p' = published p @ ys"
    and "\<forall>y \<in> set ys. C y"
  using assms unfolding adds_def by blast

lemma adds_refl [simp]: "adds C p p"
  by (simp add: adds_def)

lemma adds_trans: "adds C p p' \<Longrightarrow> adds C p' p'' \<Longrightarrow> adds C p p''"
  by (fastforce simp: adds_def)

lemma adds_mono: "adds C p p' \<Longrightarrow> (\<And>x. C x \<Longrightarrow> D x) \<Longrightarrow> adds D p p'"
  unfolding adds_def by blast

lemma sends_adds:
  assumes "sends p p' xs" and "\<And>x. x \<in> set xs \<Longrightarrow> C x"
  shows "adds C p p'"
  unfolding adds_def
proof
  assume "port_inv p"
  then obtain ys where ys: "port_inv p'" "port_cap p' = port_cap p" "published p' = published p @ ys" "subseq ys xs"
    by (rule sendsD [OF assms(1)])
  have "\<forall>y \<in> set ys. C y" using subseq_set [OF ys(4)] assms(2) by blast
  with ys show "port_inv p' \<and> port_cap p' = port_cap p \<and> (\<exists>ys. published p' = published p @ ys \<and> (\<forall>y \<in> set ys. C y))"
    by blast
qed

end
