(* ===== verification/Spsc.thy ===== *)
theory Spsc
  imports LFQueue
begin

text \<open>
  One \<open>LFQueue\<close> shared by its producer thread and its consumer thread.  A step is one atomic
  action of one of them, in any order: the producer gets a slot, writes into it (as often as it
  likes), publishes it; the consumer gets a slot, reads it (as often as it likes), releases it.
  The state records the slot each side holds and two histories, \<open>sent\<close> and \<open>got\<close>.
\<close>

record 'a spsc =
  ring :: "'a LFQueue"
  wslot :: "nat option"
  staged :: "'a option"
  rslot :: "nat option"
  seen :: "'a option"
  sent :: "'a list"
  got :: "'a list"

definition spsc_init :: "nat \<Rightarrow> 'a \<Rightarrow> 'a spsc" where
  "spsc_init n d = \<lparr>ring = LFQueue_new n d, wslot = None, staged = None, rslot = None, seen = None,
     sent = [], got = []\<rparr>"

inductive spsc_step :: "'a spsc \<Rightarrow> 'a spsc \<Rightarrow> bool" where
  p_get: "wslot s = None \<Longrightarrow> getNextToWriteTo (ring s) = Some i \<Longrightarrow>
    spsc_step s (s\<lparr>wslot := Some i, staged := None\<rparr>)"
| p_write: "wslot s = Some i \<Longrightarrow>
    spsc_step s (s\<lparr>ring := write_slot i x (ring s), staged := Some x\<rparr>)"
| p_publish: "wslot s = Some i \<Longrightarrow> staged s = Some x \<Longrightarrow> updateWriteIndex (ring s) = Inr q \<Longrightarrow>
    spsc_step s (s\<lparr>ring := q, wslot := None, staged := None, sent := sent s @ [x]\<rparr>)"
| c_get: "rslot s = None \<Longrightarrow> getNextToRead (ring s) = Some j \<Longrightarrow>
    spsc_step s (s\<lparr>rslot := Some j, seen := None\<rparr>)"
| c_read: "rslot s = Some j \<Longrightarrow> spsc_step s (s\<lparr>seen := Some (read_slot j (ring s))\<rparr>)"
| c_release: "rslot s = Some j \<Longrightarrow> seen s = Some x \<Longrightarrow> updateReadIndex (ring s) = Inr q \<Longrightarrow>
    spsc_step s (s\<lparr>ring := q, rslot := None, seen := None, got := got s @ [x]\<rparr>)"

inductive_cases spsc_stepE: "spsc_step s t"

inductive spsc_reachable :: "nat \<Rightarrow> 'a \<Rightarrow> 'a spsc \<Rightarrow> bool" for n d where
  start: "spsc_reachable n d (spsc_init n d)"
| step: "spsc_reachable n d s \<Longrightarrow> spsc_step s t \<Longrightarrow> spsc_reachable n d t"

text \<open>
  The invariant ties each side's slot to the indices: the producer holds the slot at the write
  index and the queue is not full; the consumer holds the slot at the read index and the queue
  is not empty; what either staged or saw is what its slot holds.
\<close>

definition spsc_inv :: "nat \<Rightarrow> 'a spsc \<Rightarrow> bool" where
  "spsc_inv n s \<longleftrightarrow>
     lfq_inv (ring s) \<and> length (store (ring s)) = n \<and> sent s = got s @ contents (ring s) \<and>
     (\<forall>i. wslot s = Some i \<longrightarrow> getNextToWriteTo (ring s) = Some i) \<and>
     (\<forall>j. rslot s = Some j \<longrightarrow> getNextToRead (ring s) = Some j) \<and>
     (\<forall>x i. wslot s = Some i \<longrightarrow> staged s = Some x \<longrightarrow> read_slot i (ring s) = x) \<and>
     (\<forall>x j. rslot s = Some j \<longrightarrow> seen s = Some x \<longrightarrow> read_slot j (ring s) = x)"

lemma slots_differ:
  assumes "lfq_inv q" and "getNextToWriteTo q = Some i" and "getNextToRead q = Some j"
  shows "i \<noteq> j" and "i < length (store q)"
  using assms by (auto simp: lfq_inv_def getNextToWriteTo_def getNextToRead_def split: if_splits)

lemma write_slot_get [simp]:
  "getNextToWriteTo (write_slot i x q) = getNextToWriteTo q"
  "getNextToRead (write_slot i x q) = getNextToRead q"
  "lfq_inv (write_slot i x q) = lfq_inv q"
  "length (store (write_slot i x q)) = length (store q)"
  by (simp_all add: write_slot_def getNextToWriteTo_def getNextToRead_def lfq_inv_def)

text \<open>Writing the producer's slot changes no element of the queue.\<close>

lemma write_slot_contents:
  assumes inv: "lfq_inv q" and room: "getNextToWriteTo q = Some i"
  shows "contents (write_slot i x q) = contents q"
proof -
  obtain q' where up: "updateWriteIndex (write_slot i x q) = Inr q'"
    using updateWriteIndex_after_get(2) [OF room] by blast
  have "write_slot i x (write_slot i x q) = write_slot i x q" by (simp add: write_slot_def)
  with up have "updateWriteIndex (write_slot i x (write_slot i x q)) = Inr q'" by simp
  then have "contents q' = contents (write_slot i x q) @ [x]"
    by (rule publish_contents(2) [rotated 2]) (use inv room in simp_all)
  moreover have "contents q' = contents q @ [x]"
    using inv room up by (rule publish_contents(2))
  ultimately show ?thesis by simp
qed

text \<open>What one side does leaves the slot of the other side valid.\<close>

lemma read_after_publish:
  assumes "getNextToRead q = Some j" and "updateWriteIndex q = Inr q'"
  shows "getNextToRead q' = Some j" and "read_slot j q' = read_slot j q"
  using assms by (auto simp: getNextToRead_def updateWriteIndex_def read_slot_def split: if_splits)

lemma ring_Suc_neq:
  assumes "w < n" and "r < n" and "w \<noteq> (r::nat)"
  shows "(w + 1) mod n \<noteq> (r + 1) mod n"
  using assms ring_mod [of w n 1] ring_mod [of r n 1] by (simp split: if_splits)

lemma write_after_release:
  assumes "lfq_inv q" and "getNextToWriteTo q = Some i" and "updateReadIndex q = Inr q'"
  shows "getNextToWriteTo q' = Some i" and "read_slot i q' = read_slot i q"
proof -
  have r: "next_read_index q \<noteq> next_write_index q"
    and q': "q' = q\<lparr>next_read_index := (next_read_index q + 1) mod length (store q)\<rparr>"
    using assms(3) by (auto simp: updateReadIndex_def split: if_splits)
  have "(next_write_index q + 1) mod length (store q) \<noteq> (next_read_index q + 1) mod length (store q)"
    by (rule ring_Suc_neq) (use assms(1) r in \<open>auto simp: lfq_inv_def\<close>)
  with assms(2) q' show "getNextToWriteTo q' = Some i"
    by (simp add: getNextToWriteTo_def split: if_splits)
  show "read_slot i q' = read_slot i q" by (simp add: q' read_slot_def)
qed

lemma publish_staged:
  assumes "lfq_inv q" and "getNextToWriteTo q = Some i" and "read_slot i q = x"
    and "updateWriteIndex q = Inr q'"
  shows "lfq_inv q' \<and> contents q' = contents q @ [x] \<and> length (store q') = length (store q)"
proof -
  have "write_slot i x q = q"
    using assms(3) by (auto simp: write_slot_def read_slot_def)
  with assms publish_contents [OF assms(1,2), of x q'] show ?thesis by simp
qed

lemma read_slot_write_slot:
  assumes "lfq_inv q" and "getNextToWriteTo q = Some i"
  shows "read_slot i (write_slot i x q) = x"
    and "getNextToRead q = Some j \<Longrightarrow> read_slot j (write_slot i x q) = read_slot j q"
  using slots_differ [OF assms, of j] assms
  by (auto simp: read_slot_def write_slot_def lfq_inv_def getNextToWriteTo_def split: if_splits)

lemma spsc_init_inv: "0 < n \<Longrightarrow> spsc_inv n (spsc_init n d)"
  by (simp add: spsc_inv_def spsc_init_def LFQueue_new_inv LFQueue_new_contents)
    (simp add: LFQueue_new_def)

lemma spsc_step_inv:
  assumes "spsc_step s t" and "spsc_inv n s"
  shows "spsc_inv n t"
  using assms
proof (cases rule: spsc_step.cases)
  case (p_write i x)
  note I = assms(2) [unfolded spsc_inv_def]
  from I p_write have inv: "lfq_inv (ring s)" and w: "getNextToWriteTo (ring s) = Some i" by auto
  show ?thesis
    using I p_write write_slot_contents [OF inv w] read_slot_write_slot [OF inv w]
    by (auto simp: spsc_inv_def)
next
  case (p_publish i x q)
  note I = assms(2) [unfolded spsc_inv_def]
  from I p_publish have inv: "lfq_inv (ring s)" and w: "getNextToWriteTo (ring s) = Some i"
    and x: "read_slot i (ring s) = x" by auto
  show ?thesis
    using I p_publish publish_staged [OF inv w x] read_after_publish by (auto simp: spsc_inv_def)
next
  case (c_release j x q)
  note I = assms(2) [unfolded spsc_inv_def]
  from I c_release have inv: "lfq_inv (ring s)" and r: "getNextToRead (ring s) = Some j"
    and x: "read_slot j (ring s) = x" and up: "updateReadIndex (ring s) = Inr q" by auto
  show ?thesis
    using I c_release release_contents [OF inv r up] write_after_release [OF inv _ up] x
    by (auto simp: spsc_inv_def)
qed (auto simp: spsc_inv_def)

lemma spsc_reachable_inv:
  assumes "spsc_reachable n d s" and "0 < n"
  shows "spsc_inv n s"
  using assms by (induction rule: spsc_reachable.induct) (auto intro: spsc_init_inv spsc_step_inv)

lemma get_then_update:
  "getNextToWriteTo q = Some i \<Longrightarrow> \<exists>q'. updateWriteIndex q = Inr q'"
  "getNextToRead q = Some j \<Longrightarrow> \<exists>q'. updateReadIndex q = Inr q'"
  by (simp_all add: getNextToWriteTo_def updateWriteIndex_def getNextToRead_def updateReadIndex_def
      split: if_splits)

text \<open>
  C22. In every interleaving the consumer receives exactly what the producer published, in
  order, nothing lost and nothing twice; what was published and not yet received is waiting in
  the queue, which never holds more than \<open>n - 1\<close> elements.
\<close>

theorem spsc_fifo:
  assumes "spsc_reachable n d s" and "0 < n"
  shows "sent s = got s @ contents (ring s) \<and> length (contents (ring s)) < n"
  using spsc_reachable_inv [OF assms] lfq_size_less [of "ring s"] by (auto simp: spsc_inv_def)

text \<open>
  C23. The slot the producer writes is never the slot the consumer reads, so the two threads
  have no data race on an element; and no assertion of the queue can fail: whoever holds a
  slot can move its index, whatever the other side did in between.
\<close>

theorem spsc_no_race:
  assumes "spsc_reachable n d s" and "0 < n"
  shows "(\<forall>i j. wslot s = Some i \<longrightarrow> rslot s = Some j \<longrightarrow> i \<noteq> j) \<and>
    (wslot s \<noteq> None \<longrightarrow> (\<exists>q. updateWriteIndex (ring s) = Inr q)) \<and>
    (rslot s \<noteq> None \<longrightarrow> (\<exists>q. updateReadIndex (ring s) = Inr q))"
proof -
  have I: "spsc_inv n s" using assms by (rule spsc_reachable_inv)
  have a: "\<forall>i j. wslot s = Some i \<longrightarrow> rslot s = Some j \<longrightarrow> i \<noteq> j"
  proof (intro allI impI)
    fix i j assume "wslot s = Some i" and "rslot s = Some j"
    with I show "i \<noteq> j"
      by (intro slots_differ(1) [of "ring s"]) (simp_all add: spsc_inv_def)
  qed
  have b: "\<exists>q. updateWriteIndex (ring s) = Inr q" if "wslot s = Some i" for i
    by (rule get_then_update(1) [of _ i]) (use I that in \<open>simp add: spsc_inv_def\<close>)
  have c: "\<exists>q. updateReadIndex (ring s) = Inr q" if "rslot s = Some j" for j
    by (rule get_then_update(2) [of _ j]) (use I that in \<open>simp add: spsc_inv_def\<close>)
  show ?thesis
  proof (intro conjI impI)
    show "\<forall>i j. wslot s = Some i \<longrightarrow> rslot s = Some j \<longrightarrow> i \<noteq> j" by (fact a)
    show "\<exists>q. updateWriteIndex (ring s) = Inr q" if "wslot s \<noteq> None"
      using b [of "the (wslot s)"] that by simp
    show "\<exists>q. updateReadIndex (ring s) = Inr q" if "rslot s \<noteq> None"
      using c [of "the (rslot s)"] that by simp
  qed
qed

text \<open>A run of one element through a ring of two slots, each step of which is one rule.\<close>

definition spsc_demo :: "nat spsc" where
  "spsc_demo = \<lparr>ring = \<lparr>store = [7, 0], next_write_index = 1, next_read_index = 0\<rparr>, wslot = None,
     staged = None, rslot = Some 0, seen = None, sent = [7], got = []\<rparr>"

lemma spsc_demo_reachable: "spsc_reachable 2 0 spsc_demo"
proof -
  note eval = spsc_init_def LFQueue_new_def write_slot_def getNextToWriteTo_def getNextToRead_def
    updateWriteIndex_def numeral_2_eq_2
  let ?s0 = "spsc_init 2 0 :: nat spsc"
  let ?s1 = "?s0\<lparr>wslot := Some 0, staged := None\<rparr>"
  let ?s2 = "?s1\<lparr>ring := write_slot 0 7 (ring ?s1), staged := Some 7\<rparr>"
  let ?q = "(ring ?s2)\<lparr>next_write_index := 1\<rparr>"
  let ?s3 = "?s2\<lparr>ring := ?q, wslot := None, staged := None, sent := sent ?s2 @ [7]\<rparr>"
  let ?s4 = "?s3\<lparr>rslot := Some 0, seen := None\<rparr>"
  have 1: "spsc_step ?s0 ?s1" by (rule p_get) (simp_all add: eval)
  have 2: "spsc_step ?s1 ?s2" by (rule p_write) simp
  have 3: "spsc_step ?s2 ?s3" by (rule p_publish [of _ 0]) (simp_all add: eval)
  have 4: "spsc_step ?s3 ?s4" by (rule c_get) (simp_all add: eval)
  have "spsc_reachable 2 0 ?s4"
    using spsc_reachable.step [OF spsc_reachable.step [OF spsc_reachable.step [OF
        spsc_reachable.step [OF spsc_reachable.start 1] 2] 3] 4] .
  moreover have "?s4 = spsc_demo" by (simp add: eval spsc_demo_def)
  ultimately show ?thesis by simp
qed

theorem spsc_fifo_witness:
  "spsc_reachable 2 0 spsc_demo \<and> sent spsc_demo = got spsc_demo @ contents (ring spsc_demo)"
  using spsc_fifo [OF spsc_demo_reachable] spsc_demo_reachable by simp

theorem spsc_no_race_witness:
  "rslot spsc_demo \<noteq> None \<and> (\<exists>q. updateReadIndex (ring spsc_demo) = Inr q)"
  using spsc_no_race [OF spsc_demo_reachable] by (simp add: spsc_demo_def)

end
