(* ===== verification/Float32.thy ===== *)
theory Float32
  imports Prelude "HOL-Library.Log_Nat"
begin

text \<open>
  C++ \<open>float\<close> as IEEE-754 binary32, bit by bit and executable.  Prices of the engine are
  \<open>float\<close>; what the engine computes with them is \<open>static_cast<size_t>(order.price * 10)\<close>
  (the index of a price level), the comparison of two prices, and the conversion of a level
  index back to \<open>float\<close> in an acknowledgement.

  A float is its 32-bit storage word; \<open>f32_decode\<close> reads it, \<open>f32_round\<close> is the rounding
  (to nearest, ties to even) of an exact value \<open>m * 2 ^ e\<close>, and every operation is the exact
  operation on the decoded values followed by that rounding.  \<open>round_bits\<close> has the precision
  and the least exponent as parameters.  The lemmas show that rounding respects the order of
  the exact values and leaves representable values alone, so that the level index of a price
  is monotone in the price.
\<close>

type_synonym f32 = "32 word"

datatype fval = FNaN | FInf bool | FFin bool nat int

definition f32_decode :: "f32 \<Rightarrow> fval" where
  "f32_decode w =
     (let n = unat w; s = (n div 2 ^ 31 = 1); ex = n div 2 ^ 23 mod 256; fr = n mod 2 ^ 23
      in if ex = 255 then (if fr = 0 then FInf s else FNaN)
         else if ex = 0 then FFin s fr (- 149)
         else FFin s (2 ^ 23 + fr) (int ex - 150))"

definition rne_shift :: "nat \<Rightarrow> nat \<Rightarrow> nat" where
  "rne_shift m k =
     (let d = m div 2 ^ k; r = m mod 2 ^ k
      in if 2 ^ k < 2 * r \<or> (2 * r = 2 ^ k \<and> odd d) then Suc d else d)"

definition round_exp :: "nat \<Rightarrow> int \<Rightarrow> nat \<Rightarrow> int \<Rightarrow> int" where
  "round_exp p emin m e = max (e + int (floorlog 2 m) - int p) emin"

definition round_mant :: "nat \<Rightarrow> int \<Rightarrow> int \<Rightarrow> nat" where
  "round_mant m e q = (if q \<le> e then m * 2 ^ nat (e - q) else rne_shift m (nat (q - e)))"

definition round_bits :: "nat \<Rightarrow> int \<Rightarrow> nat \<Rightarrow> int \<Rightarrow> nat" where
  "round_bits p emin m e =
     (if m = 0 then 0
      else let q = round_exp p emin m e
           in nat (q - emin) * 2 ^ (p - 1) + round_mant m e q)"

definition f32_inf_bits :: nat where
  "f32_inf_bits = 255 * 2 ^ 23"

definition f32_round :: "bool \<Rightarrow> nat \<Rightarrow> int \<Rightarrow> f32" where
  "f32_round s m e =
     word_of_nat ((if s then 2 ^ 31 else 0) + min (round_bits 24 (- 149) m e) f32_inf_bits)"

definition f32_nan :: f32 where
  "f32_nan = 0x7FC00000"

definition f32_mul :: "f32 \<Rightarrow> f32 \<Rightarrow> f32" where
  "f32_mul a b =
     (case (f32_decode a, f32_decode b) of
        (FNaN, _) \<Rightarrow> f32_nan
      | (_, FNaN) \<Rightarrow> f32_nan
      | (FInf s, FInf t) \<Rightarrow> word_of_nat ((if s \<noteq> t then 2 ^ 31 else 0) + f32_inf_bits)
      | (FInf s, FFin t m e) \<Rightarrow>
          if m = 0 then f32_nan else word_of_nat ((if s \<noteq> t then 2 ^ 31 else 0) + f32_inf_bits)
      | (FFin t m e, FInf s) \<Rightarrow>
          if m = 0 then f32_nan else word_of_nat ((if s \<noteq> t then 2 ^ 31 else 0) + f32_inf_bits)
      | (FFin s m e, FFin t m' e') \<Rightarrow> f32_round (s \<noteq> t) (m * m') (e + e'))"

text \<open>Conversion of an unsigned integer to \<open>float\<close>.\<close>

definition f32_of_nat :: "nat \<Rightarrow> f32" where
  "f32_of_nat n = f32_round False n 0"

text \<open>
  \<open>static_cast<size_t>\<close> of a \<open>float\<close>: the value truncated towards zero; undefined (a fault
  here) when that is not a \<open>size_t\<close>.
\<close>

definition trunc_val :: "nat \<Rightarrow> int \<Rightarrow> nat" where
  "trunc_val m e = (if 0 \<le> e then m * 2 ^ nat e else m div 2 ^ nat (- e))"

definition f32_to_size :: "f32 \<Rightarrow> nat result" where
  "f32_to_size x =
     (case f32_decode x of
        FNaN \<Rightarrow> Inl BadCast
      | FInf _ \<Rightarrow> Inl BadCast
      | FFin s m e \<Rightarrow>
          let t = trunc_val m e
          in if t < 2 ^ 64 \<and> (\<not> s \<or> t = 0) then Inr t else Inl BadCast)"

text \<open>The comparison \<open>==\<close> of two floats: a NaN equals nothing, the two zeros are equal.\<close>

definition f32_eq :: "f32 \<Rightarrow> f32 \<Rightarrow> bool" where
  "f32_eq a b =
     (case (f32_decode a, f32_decode b) of
        (FNaN, _) \<Rightarrow> False
      | (_, FNaN) \<Rightarrow> False
      | (FFin _ 0 _, FFin _ 0 _) \<Rightarrow> True
      | _ \<Rightarrow> a = b)"

text \<open>\<open>static_cast<size_t>(price * 10)\<close>: the level of a price.\<close>

definition price_index :: "f32 \<Rightarrow> nat result" where
  "price_index p = f32_to_size (f32_mul p (f32_of_nat 10))"

subsection \<open>Rounding an integer shift\<close>

lemma rne_shift_ge: "m div 2 ^ k \<le> rne_shift m k"
  by (simp add: rne_shift_def Let_def)

lemma rne_shift_le: "rne_shift m k \<le> Suc (m div 2 ^ k)"
  by (simp add: rne_shift_def Let_def)

lemma rne_shift_exact: "2 ^ k dvd m \<Longrightarrow> rne_shift m k = m div 2 ^ k"
  by (simp add: rne_shift_def Let_def)

lemma rne_shift_mono:
  assumes "m \<le> n"
  shows "rne_shift m k \<le> rne_shift n k"
proof (cases "m div 2 ^ k = n div 2 ^ k")
  case True
  with assms have "m mod 2 ^ k \<le> n mod 2 ^ k"
    by (metis add_le_cancel_left mult_div_mod_eq)
  with True show ?thesis
    by (auto simp: rne_shift_def Let_def)
next
  case False
  with div_le_mono [OF assms, of "2 ^ k"] have "Suc (m div 2 ^ k) \<le> n div 2 ^ k" by simp
  with rne_shift_le [of m k] rne_shift_ge [of n k] show ?thesis by linarith
qed

lemma rne_shift_upper:
  assumes "m < 2 ^ (p + k)"
  shows "rne_shift m k \<le> 2 ^ p"
proof -
  have "m div 2 ^ k < 2 ^ p"
    using assms by (simp add: less_mult_imp_div_less power_add)
  with rne_shift_le [of m k] show ?thesis by linarith
qed

lemma rne_shift_lower:
  assumes "2 ^ (p + k) \<le> m"
  shows "2 ^ p \<le> rne_shift m k"
proof -
  have "2 ^ p \<le> m div 2 ^ k"
    using div_le_mono [OF assms, of "2 ^ k"] by (simp add: power_add)
  with rne_shift_ge [of m k] show ?thesis by linarith
qed

lemma rne_shift_scale: "rne_shift (m * 2 ^ j) (k + j) = rne_shift m k"
proof -
  have d: "m * 2 ^ j div 2 ^ (k + j) = m div 2 ^ k"
    by (simp add: power_add)
  have r: "m * 2 ^ j mod 2 ^ (k + j) = (m mod 2 ^ k) * 2 ^ j"
    by (simp add: power_add mult_mod_left)
  have e: "(2::nat) ^ (k + j) < 2 * ((m mod 2 ^ k) * 2 ^ j) \<longleftrightarrow> 2 ^ k < 2 * (m mod 2 ^ k)"
    "2 * ((m mod 2 ^ k) * 2 ^ j) = (2::nat) ^ (k + j) \<longleftrightarrow> 2 * (m mod 2 ^ k) = 2 ^ k"
    by (simp_all add: power_add flip: mult.assoc)
  show ?thesis
    unfolding rne_shift_def Let_def d r e ..
qed

subsection \<open>Rounding respects the order and representable values\<close>

lemma floorlog_bounds2:
  assumes "0 < m"
  shows "0 < floorlog 2 m" and "2 ^ (floorlog 2 m - 1) \<le> m" and "m < 2 ^ floorlog 2 m"
  using assms floorlog_bounds [of m 2] floorlog_eq_zero_iff [of 2 m] by auto

lemma round_exp_ge: "e + int (floorlog 2 m) - int p \<le> round_exp p emin m e"
  by (simp add: round_exp_def)

lemma round_mant_upper:
  assumes "0 < m"
  shows "round_mant m e (round_exp p emin m e) \<le> 2 ^ p"
proof (cases "round_exp p emin m e \<le> e")
  case True
  let ?j = "nat (e - round_exp p emin m e)"
  have "floorlog 2 m + ?j \<le> p"
    using True round_exp_ge [of e m p emin] by linarith
  then have "(2::nat) ^ (floorlog 2 m + ?j) \<le> 2 ^ p" by (rule power_increasing) simp
  moreover have "m * 2 ^ ?j \<le> 2 ^ (floorlog 2 m + ?j)"
    using floorlog_bounds2(3) [OF assms] by (simp add: power_add)
  ultimately have "m * 2 ^ ?j \<le> 2 ^ p" by (rule order_trans [rotated])
  then show ?thesis using True by (simp add: round_mant_def)
next
  case False
  let ?k = "nat (round_exp p emin m e - e)"
  have "floorlog 2 m \<le> p + ?k"
    by (simp add: round_exp_def)
  then have "(2::nat) ^ floorlog 2 m \<le> 2 ^ (p + ?k)" by (rule power_increasing) simp
  with floorlog_bounds2(3) [OF assms] have "m < 2 ^ (p + ?k)" by linarith
  then show ?thesis
    using False by (simp add: round_mant_def rne_shift_upper)
qed

lemma round_mant_lower:
  assumes "0 < m" and "emin < round_exp p emin m e" and "0 < p"
  shows "2 ^ (p - 1) \<le> round_mant m e (round_exp p emin m e)"
proof -
  have q: "round_exp p emin m e = e + int (floorlog 2 m) - int p"
    using assms(2) by (simp add: round_exp_def)
  note L = floorlog_bounds2 [OF assms(1)]
  show ?thesis
  proof (cases "round_exp p emin m e \<le> e")
    case True
    let ?j = "nat (e - round_exp p emin m e)"
    have "p - 1 = floorlog 2 m - 1 + ?j"
      using True q L(1) assms(3) by simp
    then have "(2::nat) ^ (p - 1) = 2 ^ (floorlog 2 m - 1) * 2 ^ ?j"
      by (simp add: power_add)
    also have "\<dots> \<le> m * 2 ^ ?j" using L(2) by simp
    finally show ?thesis using True by (simp add: round_mant_def)
  next
    case False
    let ?k = "nat (round_exp p emin m e - e)"
    have "floorlog 2 m - 1 = p - 1 + ?k"
      using False q L(1) assms(3) by simp
    with L(2) have "2 ^ (p - 1 + ?k) \<le> m" by simp
    then show ?thesis
      using False by (simp add: round_mant_def rne_shift_lower)
  qed
qed

lemma round_mant_mono:
  assumes "m \<le> n"
  shows "round_mant m e q \<le> round_mant n e q"
  using assms by (simp add: round_mant_def rne_shift_mono)

lemma round_exp_mono:
  assumes "m \<le> n"
  shows "round_exp p emin m e \<le> round_exp p emin n e"
  using floorlog_mono [OF assms, of 2] by (simp add: round_exp_def)

lemma round_bits_mono_same:
  assumes "m \<le> n" and "0 < p"
  shows "round_bits p emin m e \<le> round_bits p emin n e"
proof (cases "m = 0")
  case True
  then show ?thesis by (simp add: round_bits_def)
next
  case False
  let ?q = "round_exp p emin m e" and ?q' = "round_exp p emin n e"
  from False assms(1) have pos: "0 < m" "0 < n" by auto
  have le: "?q \<le> ?q'" using assms(1) by (rule round_exp_mono)
  show ?thesis
  proof (cases "?q = ?q'")
    case True
    then show ?thesis
      using pos round_mant_mono [OF assms(1), of e ?q'] by (simp add: round_bits_def Let_def)
  next
    case False
    with le have lt: "?q < ?q'" by simp
    have ge: "emin \<le> ?q" by (simp add: round_exp_def)
    have two: "(2::nat) ^ p = 2 * 2 ^ (p - 1)"
      using assms(2) by (simp flip: power_Suc)
    have "nat (?q - emin) * 2 ^ (p - 1) + round_mant m e ?q \<le> (nat (?q - emin) + 2) * 2 ^ (p - 1)"
      using round_mant_upper [OF pos(1), of e p emin] two by (simp add: algebra_simps)
    also have "\<dots> \<le> (nat (?q' - emin) + 1) * 2 ^ (p - 1)"
      using lt ge by (intro mult_right_mono) auto
    also have "\<dots> \<le> nat (?q' - emin) * 2 ^ (p - 1) + round_mant n e ?q'"
      using round_mant_lower [OF pos(2) _ assms(2), of emin e] lt ge by (simp add: algebra_simps)
    finally show ?thesis
      using pos by (simp add: round_bits_def Let_def)
  qed
qed

lemma round_exp_scale: "m \<noteq> 0 \<Longrightarrow> round_exp p emin (m * 2 ^ j) (e - int j) = round_exp p emin m e"
  by (simp add: round_exp_def)

lemma round_mant_scale: "round_mant (m * 2 ^ j) (e - int j) q = round_mant m e q"
proof -
  consider "q \<le> e - int j" | "e - int j < q" "q \<le> e" | "e < q" by linarith
  then show ?thesis
  proof cases
    case 1
    then have "nat (e - q) = j + nat (e - int j - q)" by simp
    with 1 show ?thesis by (simp add: round_mant_def power_add)
  next
    case 2
    then have j: "j = nat (e - q) + nat (q - (e - int j))" by simp
    have s: "m * 2 ^ j = m * 2 ^ nat (e - q) * 2 ^ nat (q - (e - int j))"
      by (subst j) (simp add: power_add)
    have "rne_shift (m * 2 ^ j) (nat (q - (e - int j))) = m * 2 ^ nat (e - q)"
      unfolding s by (subst rne_shift_exact) simp_all
    with 2 show ?thesis by (simp add: round_mant_def)
  next
    case 3
    then have "nat (q - (e - int j)) = nat (q - e) + j" by simp
    with 3 show ?thesis by (simp add: round_mant_def rne_shift_scale)
  qed
qed

lemma round_bits_scale: "round_bits p emin (m * 2 ^ j) (e - int j) = round_bits p emin m e"
  by (simp add: round_bits_def round_exp_scale round_mant_scale)

lemma f32_round_scale: "f32_round s (m * 2 ^ j) (e - int j) = f32_round s m e"
  by (simp add: f32_round_def round_bits_scale)

text \<open>
  Two exact values \<open>m * 2 ^ e\<close> are compared at any exponent \<open>c\<close> below both of theirs.
\<close>

definition scaled :: "int \<Rightarrow> nat \<Rightarrow> int \<Rightarrow> nat" where
  "scaled c m e = m * 2 ^ nat (e - c)"

lemma round_bits_mono:
  assumes "c \<le> e1" and "c \<le> e2" and "scaled c m1 e1 \<le> scaled c m2 e2" and "0 < p"
  shows "round_bits p emin m1 e1 \<le> round_bits p emin m2 e2"
proof -
  have eq: "round_bits p emin m e = round_bits p emin (scaled c m e) c" if "c \<le> e" for m e
    using round_bits_scale [of p emin m "nat (e - c)" e] that by (simp add: scaled_def)
  show ?thesis
    unfolding eq [OF assms(1)] eq [OF assms(2)]
    by (rule round_bits_mono_same) (fact assms(3), fact assms(4))
qed

subsection \<open>Decoding what was encoded\<close>

lemma f32_decode_of_nat:
  assumes "b < f32_inf_bits"
  shows "f32_decode (word_of_nat b) =
    (if b div 2 ^ 23 = 0 then FFin False b (- 149)
     else FFin False (2 ^ 23 + b mod 2 ^ 23) (int (b div 2 ^ 23) - 150))"
proof -
  have lt: "b < 255 * 2 ^ 23" using assms by (simp add: f32_inf_bits_def)
  then have u: "unat (word_of_nat b :: f32) = b" and d: "b div 2 ^ 23 < 255"
    by (auto simp: unat_of_nat take_bit_nat_eq_self)
  have s: "b div 2 ^ 31 = 0" using lt by simp
  show ?thesis
    using d s unfolding f32_decode_def u Let_def by simp
qed

lemma f32_decode_FFin:
  assumes "f32_decode x = FFin s m e"
  shows "- 149 \<le> e" and "e \<le> 104" and "m < 2 ^ 24" and "- 149 < e \<Longrightarrow> 2 ^ 23 \<le> m"
    and "unat x = (if s then 2 ^ 31 else 0) + nat (e + 149) * 2 ^ 23 + m"
proof -
  let ?n = "unat x" and ?ex = "unat x div 2 ^ 23 mod 256" and ?fr = "unat x mod 2 ^ 23"
  have n: "?n < 2 ^ 32" using unsigned_less [of x] by simp
  have fr: "?fr < 2 ^ 23" by simp
  have ex: "?ex < 256" by simp
  have split: "?n = (?n div 2 ^ 31) * 2 ^ 31 + ?ex * 2 ^ 23 + ?fr"
  proof -
    have "?n div 2 ^ 23 div 256 = ?n div 2 ^ 31" by (simp add: div_mult2_eq [symmetric])
    then have "?n div 2 ^ 23 = ?n div 2 ^ 31 * 256 + ?ex"
      using div_mult_mod_eq [of "?n div 2 ^ 23" 256] by linarith
    then have "?n = (?n div 2 ^ 31 * 256 + ?ex) * 2 ^ 23 + ?fr"
      using div_mult_mod_eq [of ?n "2 ^ 23"] by presburger
    also have "\<dots> = (?n div 2 ^ 31) * 2 ^ 31 + ?ex * 2 ^ 23 + ?fr"
      by (simp add: add_mult_distrib mult.assoc)
    finally show ?thesis .
  qed
  have top: "?n div 2 ^ 31 = (if ?n div 2 ^ 31 = 1 then 1 else 0)"
    using less_mult_imp_div_less [of ?n 2 "2 ^ 31"] n by (cases "?n div 2 ^ 31 = 1") simp_all
  from assms have s: "s = (?n div 2 ^ 31 = 1)" and ne: "?ex \<noteq> 255"
    and me: "(m = ?fr \<and> e = - 149 \<and> ?ex = 0) \<or> (m = 2 ^ 23 + ?fr \<and> e = int ?ex - 150 \<and> ?ex \<noteq> 0)"
    by (auto simp: f32_decode_def Let_def split: if_splits)
  from me ne ex fr show "- 149 \<le> e" "e \<le> 104" "m < 2 ^ 24" "- 149 < e \<Longrightarrow> 2 ^ 23 \<le> m"
    by auto
  from me have "nat (e + 149) * 2 ^ 23 + m = ?ex * 2 ^ 23 + ?fr"
  proof (elim disjE conjE)
    assume m: "m = 2 ^ 23 + ?fr" and e: "e = int ?ex - 150" and "?ex \<noteq> 0"
    then obtain k where k: "?ex = Suc k" using not0_implies_Suc by blast
    have "nat (e + 149) = k" unfolding e k by simp
    then show ?thesis unfolding m k by simp
  qed simp
  with split top s show "unat x = (if s then 2 ^ 31 else 0) + nat (e + 149) * 2 ^ 23 + m"
    by (auto split: if_splits)
qed

lemma round_bits_exact:
  assumes "0 < m" and "round_exp p emin m e \<le> e"
  shows "round_bits p emin m e =
    nat (round_exp p emin m e - emin) * 2 ^ (p - 1) + m * 2 ^ nat (e - round_exp p emin m e)"
  using assms by (simp add: round_bits_def round_mant_def Let_def)

text \<open>A value that a float already has is not changed by rounding.\<close>

lemma round_bits_representable:
  assumes "f32_decode x = FFin s m e"
  shows "round_bits 24 (- 149) m e = nat (e + 149) * 2 ^ 23 + m"
proof (cases "m = 0")
  case True
  with f32_decode_FFin (1,4) [OF assms] have "e = - 149"
    by (cases "- 149 < e") auto
  with True show ?thesis by (simp add: round_bits_def)
next
  case False
  have up: "floorlog 2 m \<le> 24"
    using f32_decode_FFin (3) [OF assms] by (simp add: floorlog_leI)
  have lo: "24 \<le> floorlog 2 m" if "- 149 < e"
    using f32_decode_FFin (4) [OF assms that] by (intro floorlog_geI) simp_all
  have q: "round_exp 24 (- 149) m e = e"
    using up lo f32_decode_FFin (1) [OF assms] by (cases "- 149 < e") (auto simp: round_exp_def)
  show ?thesis
    using False q by (simp add: round_bits_exact)
qed

lemma f32_round_decode:
  assumes "f32_decode x = FFin s m e"
  shows "f32_round s m e = x"
proof -
  note D = f32_decode_FFin [OF assms]
  have "nat (e + 149) * 2 ^ 23 + m \<le> 253 * 2 ^ 23 + m"
    using D(2) by (intro add_mono mult_right_mono) auto
  then have "round_bits 24 (- 149) m e \<le> f32_inf_bits"
    using D(3) unfolding round_bits_representable [OF assms] by (simp add: f32_inf_bits_def)
  then have "min (round_bits 24 (- 149) m e) f32_inf_bits = nat (e + 149) * 2 ^ 23 + m"
    using round_bits_representable [OF assms] by simp
  then have "f32_round s m e = word_of_nat (unat x)"
    unfolding f32_round_def D(5) by (simp add: add.assoc)
  then show ?thesis by simp
qed

subsection \<open>The order of prices\<close>

text \<open>
  A finite float that is not negative is a natural number of units of \<open>2 ^ (- 149)\<close>, the
  least positive float.
\<close>

definition f32_nonneg :: "f32 \<Rightarrow> bool" where
  "f32_nonneg x = (case f32_decode x of FFin s _ _ \<Rightarrow> \<not> s | _ \<Rightarrow> False)"

definition f32_units :: "f32 \<Rightarrow> nat" where
  "f32_units x = (case f32_decode x of FFin _ m e \<Rightarrow> scaled (- 149) m e | _ \<Rightarrow> 0)"

lemma f32_nonnegE:
  assumes "f32_nonneg x"
  obtains m e where "f32_decode x = FFin False m e"
  using assms by (auto simp: f32_nonneg_def split: fval.splits)

text \<open>The storage words of such floats are in the order of their values.\<close>

lemma f32_units_mono_bits:
  assumes "f32_nonneg x" and "f32_nonneg y" and "unat x \<le> unat y"
  shows "f32_units x \<le> f32_units y"
proof (rule ccontr)
  obtain m e m' e' where x: "f32_decode x = FFin False m e" and y: "f32_decode y = FFin False m' e'"
    using assms(1,2) by (elim f32_nonnegE)
  assume "\<not> f32_units x \<le> f32_units y"
  then have less: "scaled (- 149) m' e' < scaled (- 149) m e"
    using x y by (simp add: f32_units_def)
  have "round_bits 24 (- 149) m' e' \<le> round_bits 24 (- 149) m e"
    by (rule round_bits_mono [OF f32_decode_FFin(1) [OF y] f32_decode_FFin(1) [OF x]])
      (use less in simp_all)
  then have "unat y \<le> unat x"
    unfolding round_bits_representable [OF x] round_bits_representable [OF y]
      f32_decode_FFin(5) [OF x] f32_decode_FFin(5) [OF y] by simp
  with assms(3) have "x = y" by (simp add: word_unat_eq_iff)
  with x y less show False by simp
qed

lemma trunc_val_units:
  assumes "- 149 \<le> e"
  shows "trunc_val m e = scaled (- 149) m e div 2 ^ 149"
proof (cases "0 \<le> e")
  case True
  then have "nat (e + 149) = nat e + 149" by simp
  with True show ?thesis by (simp add: trunc_val_def scaled_def power_add)
next
  case False
  with assms have split: "(149::nat) = nat (- e) + nat (e + 149)" by simp
  have "m * 2 ^ nat (e + 149) div 2 ^ 149 = m * 2 ^ nat (e + 149) div (2 ^ nat (- e) * 2 ^ nat (e + 149))"
    by (subst split) (simp only: power_add)
  also have "\<dots> = m div 2 ^ nat (- e)" by (rule div_mult_mult2) simp
  finally show ?thesis using False by (simp add: trunc_val_def scaled_def)
qed

lemma f32_to_size_nonneg:
  assumes "f32_nonneg x"
  shows "f32_to_size x =
    (if f32_units x div 2 ^ 149 < 2 ^ 64 then Inr (f32_units x div 2 ^ 149) else Inl BadCast)"
proof -
  obtain m e where x: "f32_decode x = FFin False m e" using assms by (rule f32_nonnegE)
  then have "trunc_val m e = f32_units x div 2 ^ 149"
    by (simp only: trunc_val_units [OF f32_decode_FFin(1) [OF x]] f32_units_def fval.case)
  with x show ?thesis by (simp add: f32_to_size_def)
qed

lemma f32_round_cases:
  fixes m :: nat and e :: int
  defines "b \<equiv> round_bits 24 (- 149) m e"
  shows "b < f32_inf_bits \<Longrightarrow> f32_nonneg (f32_round False m e) \<and> unat (f32_round False m e) = b"
    and "f32_inf_bits \<le> b \<Longrightarrow> f32_decode (f32_round False m e) = FInf False"
proof -
  assume b: "b < f32_inf_bits"
  then have "f32_round False m e = word_of_nat b"
    by (simp add: f32_round_def b_def min_absorb1)
  moreover from b have "unat (word_of_nat b :: f32) = b"
    by (auto simp: f32_inf_bits_def unat_of_nat take_bit_nat_eq_self)
  ultimately show "f32_nonneg (f32_round False m e) \<and> unat (f32_round False m e) = b"
    using f32_decode_of_nat [OF b] by (simp add: f32_nonneg_def)
next
  assume "f32_inf_bits \<le> b"
  then have "f32_round False m e = word_of_nat f32_inf_bits"
    by (simp add: f32_round_def b_def min_absorb2)
  then show "f32_decode (f32_round False m e) = FInf False"
    by (simp add: f32_decode_def f32_inf_bits_def Let_def)
qed

text \<open>
  Evaluation at closed arguments.  A decoding is computed first (\<open>f32_decode_def\<close>, \<open>Let_def\<close>),
  then the rounding of the decoded values with these equations.
\<close>

lemmas f32_eval = f32_of_nat_def f32_round_def round_bits_def round_exp_def round_mant_def
  rne_shift_def f32_inf_bits_def Let_def compute_floorlog [of 2]

lemma f32_of_nat_10: "f32_decode (f32_of_nat 10) = FFin False (10 * 2 ^ 20) (- 20)"
  by (simp add: f32_eval f32_decode_def)

lemma price_index_round:
  assumes "f32_decode p = FFin s m e"
  shows "price_index p = f32_to_size (f32_round s (m * (10 * 2 ^ 20)) (e - 20))"
  using assms by (simp add: price_index_def f32_mul_def f32_of_nat_10)

text \<open>A higher price never has a lower level.\<close>

lemma price_index_mono:
  assumes "f32_nonneg p" and "f32_nonneg p'" and "f32_units p \<le> f32_units p'"
    and "price_index p' = Inr j"
  obtains i where "price_index p = Inr i" and "i \<le> j"
proof -
  obtain m e m' e' where p: "f32_decode p = FFin False m e" and p': "f32_decode p' = FFin False m' e'"
    using assms(1,2) by (elim f32_nonnegE)
  let ?r = "f32_round False (m * (10 * 2 ^ 20)) (e - 20)"
  let ?r' = "f32_round False (m' * (10 * 2 ^ 20)) (e' - 20)"
  let ?b = "round_bits 24 (- 149) (m * (10 * 2 ^ 20)) (e - 20)"
  let ?b' = "round_bits 24 (- 149) (m' * (10 * 2 ^ 20)) (e' - 20)"
  have ee: "- 169 \<le> e - 20" "- 169 \<le> e' - 20"
    using f32_decode_FFin(1) [OF p] f32_decode_FFin(1) [OF p'] by auto
  have "scaled (- 169) (n * (10 * 2 ^ 20)) (k - 20) = scaled (- 149) n k * (10 * 2 ^ 20)" for n k
    by (simp add: scaled_def add.commute)
  moreover have "scaled (- 149) m e \<le> scaled (- 149) m' e'"
    using assms(3) p p' by (simp add: f32_units_def)
  ultimately have "scaled (- 169) (m * (10 * 2 ^ 20)) (e - 20)
      \<le> scaled (- 169) (m' * (10 * 2 ^ 20)) (e' - 20)"
    by (simp only:) (rule mult_right_mono, simp_all)
  then have le: "?b \<le> ?b'"
    by (rule round_bits_mono [OF ee]) simp
  have r': "f32_to_size ?r' = Inr j" using assms(4) price_index_round [OF p'] by simp
  have "\<not> f32_inf_bits \<le> ?b'"
  proof
    assume "f32_inf_bits \<le> ?b'"
    then have "f32_decode ?r' = FInf False" by (rule f32_round_cases(2))
    with r' show False by (simp add: f32_to_size_def)
  qed
  with le have lt: "?b < f32_inf_bits" "?b' < f32_inf_bits" by auto
  note R = f32_round_cases(1) [OF lt(1)] and R' = f32_round_cases(1) [OF lt(2)]
  have "f32_units ?r \<le> f32_units ?r'"
    by (rule f32_units_mono_bits) (use R R' le in auto)
  then have "f32_units ?r div 2 ^ 149 \<le> f32_units ?r' div 2 ^ 149" by (rule div_le_mono)
  moreover from r' R' have "f32_units ?r' div 2 ^ 149 = j" "j < 2 ^ 64"
    by (auto simp: f32_to_size_nonneg split: if_splits)
  ultimately have "f32_to_size ?r = Inr (f32_units ?r div 2 ^ 149)" "f32_units ?r div 2 ^ 149 \<le> j"
    using R by (auto simp: f32_to_size_nonneg)
  then show thesis using that price_index_round [OF p] by simp
qed

text \<open>An integer of at most 24 bits survives the conversion to \<open>float\<close> and back.\<close>

lemma f32_of_nat_exact:
  assumes "n < 2 ^ 24"
  shows "f32_nonneg (f32_of_nat n)" and "f32_units (f32_of_nat n) = n * 2 ^ 149"
proof -
  have "f32_nonneg (f32_of_nat n) \<and> f32_units (f32_of_nat n) = n * 2 ^ 149"
  proof (cases "n = 0")
    case True
    then have "f32_of_nat n = 0" by (simp add: f32_eval)
    with True show ?thesis by (simp add: f32_nonneg_def f32_units_def f32_decode_def scaled_def)
  next
    case False
    let ?L = "floorlog 2 n"
    have L: "0 < ?L" "?L \<le> 24" "2 ^ (?L - 1) \<le> n" "n < 2 ^ ?L"
      using floorlog_bounds2 [of n] False floorlog_leI [of n 2 24] assms by auto
    have q: "round_exp 24 (- 149) n 0 = int ?L - 24" using L by (simp add: round_exp_def)
    let ?M = "n * 2 ^ (24 - ?L)"
    have M: "2 ^ 23 \<le> ?M" "?M < 2 ^ 24"
    proof -
      have "(2::nat) ^ 23 = 2 ^ (?L - 1) * 2 ^ (24 - ?L)" using L(1,2) by (simp flip: power_add)
      also have "\<dots> \<le> ?M" using L(3) by (rule mult_right_mono) simp
      finally show "2 ^ 23 \<le> ?M" .
      have "(2::nat) ^ 24 = 2 ^ ?L * 2 ^ (24 - ?L)" using L(2) by (simp flip: power_add)
      with L(4) show "?M < 2 ^ 24" by (simp only:) (rule mult_strict_right_mono, simp_all)
    qed
    have nat_eq: "nat (24 - int ?L) = 24 - ?L" "nat (int ?L + 125) = ?L + 125"
      "nat (125 + int ?L) = ?L + 125" using L by auto
    have bits: "round_bits 24 (- 149) n 0 = (?L + 125) * 2 ^ 23 + ?M"
      using False L q by (simp add: round_bits_exact nat_eq)
    let ?b = "(?L + 125) * 2 ^ 23 + ?M"
    have lt: "?b < f32_inf_bits" using M(2) L(2) by (simp add: f32_inf_bits_def)
    have w: "f32_of_nat n = word_of_nat ?b"
      using lt unfolding f32_of_nat_def f32_round_def bits by (simp add: min_absorb1)
    have "?b = (?L + 126) * 2 ^ 23 + (?M - 2 ^ 23)" using M(1) by simp
    moreover have "?M - 2 ^ 23 < 2 ^ 23" using M(2) by simp
    ultimately have dm: "?b div 2 ^ 23 = ?L + 126" "?b mod 2 ^ 23 = ?M - 2 ^ 23"
      by (simp_all del: power_numeral)
    have dec: "f32_decode (f32_of_nat n) = FFin False ?M (int ?L - 24)"
      unfolding w f32_decode_of_nat [OF lt] dm using M(1) by simp
    have "?M * 2 ^ (?L + 125) = n * 2 ^ 149"
      using L(2) by (simp add: mult.assoc flip: power_add)
    then show ?thesis
      using dec nat_eq by (simp add: f32_nonneg_def f32_units_def scaled_def)
  qed
  then show "f32_nonneg (f32_of_nat n)" and "f32_units (f32_of_nat n) = n * 2 ^ 149" by auto
qed

lemma f32_to_size_of_nat:
  assumes "n < 2 ^ 24"
  shows "f32_to_size (f32_of_nat n) = Inr n"
  using f32_of_nat_exact [OF assms] assms by (simp add: f32_to_size_nonneg)

text \<open>Prices that compare equal are at the same level, the two zeros included.\<close>

lemma price_index_zero:
  assumes "f32_decode a = FFin s 0 e"
  shows "price_index a = Inr 0"
  unfolding price_index_round [OF assms]
  by (cases s) (simp_all add: f32_round_def round_bits_def f32_inf_bits_def f32_to_size_def f32_decode_def
      trunc_val_def Let_def)

lemma f32_eq_price_index:
  assumes "f32_eq a b"
  shows "price_index a = price_index b"
proof (cases "a = b")
  case False
  with assms obtain s t e f where "f32_decode a = FFin s 0 e" "f32_decode b = FFin t 0 f"
    by (auto simp: f32_eq_def split: fval.splits nat.splits)
  then show ?thesis by (simp add: price_index_zero)
qed simp

end
