(* ===== verification/Messages.thy ===== *)
theory Messages
  imports Float32
begin

text \<open>
  The structs of \<open>header/order_gateway_struct.h\<close> and the log element of \<open>header/logger.h\<close>.
  Field names are the source's; structs that share field names get a prefix (\<open>la_\<close>
  \<open>LOBAck\<close>, \<open>uo_\<close> \<open>UserOrder\<close>, \<open>ua_\<close> \<open>UserAck\<close>, \<open>bc_\<close> \<open>BroadCast\<close>).  The padding byte
  \<open>UserAck::pad\<close>, which no code reads or writes, is left out.  The \<open>*_init\<close> values are the
  value-initialised structs (\<open>T()\<close>) that a queue is filled with when it is built.
\<close>

record LOBOrder =
  arrival_cycle_count :: u64
  system_id :: u32
  price :: f32
  quantity :: u32
  trade_id :: u8
  order_type :: char
  req_type :: char
  out_cycle_count :: u64

record LOBAck =
  la_system_id :: u32
  la_price :: f32
  la_quantity :: u32
  la_side :: char
  la_status :: char

record UserOrder =
  uo_arrived_cycle_count :: u64
  uo_order_id :: u64
  uo_trader_id :: u8
  uo_order_type :: char
  uo_req_type :: char
  uo_price :: f32
  uo_quantity :: u64
  uo_out_cycle_count :: u64

record UserAck =
  ua_order_id :: u32
  ua_price :: f32
  ua_quantity :: u32
  ua_side :: char
  ua_status :: char

record BroadCast =
  bc_system_id :: u32
  bc_price :: f32
  bc_quantity :: u32
  bc_side :: char
  bc_type :: char

text \<open>The \<open>std::variant\<close> of a log element, with its alternatives in the source's order.\<close>

datatype log_variant =
    VLOBOrder LOBOrder
  | VUserOrder UserOrder
  | VUserAck UserAck
  | VLOBAck LOBAck

record LogElement =
  log_id :: u64
  timestamp :: u64
  log_data :: log_variant

definition GATEWAY_RECEIVE_USER_ORDER :: u64 where "GATEWAY_RECEIVE_USER_ORDER = 1"
definition GATEWAY_SEND_TO_ME :: u64 where "GATEWAY_SEND_TO_ME = 2"
definition ME_RECEIVE_ORDER :: u64 where "ME_RECEIVE_ORDER = 3"
definition ME_AGGRESSIVE_MATCH :: u64 where "ME_AGGRESSIVE_MATCH = 4"
definition LOB_CREATE_ORDER :: u64 where "LOB_CREATE_ORDER = 5"
definition LOB_DELETE_ORDER :: u64 where "LOB_DELETE_ORDER = 6"
definition LOB_UPDATE_QUANTITY :: u64 where "LOB_UPDATE_QUANTITY = 7"
definition ME_SEND_ACK :: u64 where "ME_SEND_ACK = 8"
definition GATEWAY_RECEIVE_ME_ACK :: u64 where "GATEWAY_RECEIVE_ME_ACK = 9"
definition GATEWAY_SEND_USER_ACK :: u64 where "GATEWAY_SEND_USER_ACK = 10"

lemmas log_id_defs = GATEWAY_RECEIVE_USER_ORDER_def GATEWAY_SEND_TO_ME_def ME_RECEIVE_ORDER_def
  ME_AGGRESSIVE_MATCH_def LOB_CREATE_ORDER_def LOB_DELETE_ORDER_def LOB_UPDATE_QUANTITY_def
  ME_SEND_ACK_def GATEWAY_RECEIVE_ME_ACK_def GATEWAY_SEND_USER_ACK_def

definition LOBOrder_init :: LOBOrder where
  "LOBOrder_init = \<lparr>arrival_cycle_count = 0, system_id = 0, price = 0, quantity = 0, trade_id = 0,
     order_type = CHR 0x00, req_type = CHR 0x00, out_cycle_count = 0\<rparr>"

definition LOBAck_init :: LOBAck where
  "LOBAck_init = \<lparr>la_system_id = 0, la_price = 0, la_quantity = 0, la_side = CHR 0x00,
     la_status = CHR 0x00\<rparr>"

definition BroadCast_init :: BroadCast where
  "BroadCast_init = \<lparr>bc_system_id = 0, bc_price = 0, bc_quantity = 0, bc_side = CHR 0x00,
     bc_type = CHR 0x00\<rparr>"

definition LogElement_init :: LogElement where
  "LogElement_init = \<lparr>log_id = 0, timestamp = 0, log_data = VLOBOrder LOBOrder_init\<rparr>"

text \<open>A log element whose payload is the alternative its id stands for.\<close>

definition log_typed :: "LogElement \<Rightarrow> bool" where
  "log_typed e =
     (case log_data e of
        VUserOrder _ \<Rightarrow> log_id e = GATEWAY_RECEIVE_USER_ORDER
      | VLOBOrder _ \<Rightarrow> log_id e \<in> {GATEWAY_SEND_TO_ME, ME_RECEIVE_ORDER, ME_AGGRESSIVE_MATCH,
          LOB_CREATE_ORDER, LOB_DELETE_ORDER, LOB_UPDATE_QUANTITY}
      | VLOBAck _ \<Rightarrow> log_id e \<in> {ME_SEND_ACK, GATEWAY_RECEIVE_ME_ACK}
      | VUserAck _ \<Rightarrow> log_id e = GATEWAY_SEND_USER_ACK)"

definition price_in :: "log_variant \<Rightarrow> f32" where
  "price_in v = (case v of VLOBOrder x \<Rightarrow> price x | VUserOrder x \<Rightarrow> uo_price x | VUserAck x \<Rightarrow> ua_price x
     | VLOBAck x \<Rightarrow> la_price x)"

end
