(* ===== verification/LimitBook.thy ===== *)
theory LimitBook
  imports Messages
begin

text \<open>
  \<open>header/lob_struct.h\<close>: one side of the limit order book, \<open>limitedOrderBook<isBuy>\<close>.  The
  template parameter is the field \<open>isBuy\<close>.  A level is a vector that only grows: an order that
  is filled or deleted stays in it with quantity 0.  \<open>LUT\<close> maps a system id to the level and
  column of its order and holds \<open>(-1, -1)\<close> (here \<open>NPOS\<close>) for an id with no order; it has
  \<open>LUT_SIZE\<close> entries and an index outside is a fault.  \<open>active_counts\<close> counts the live orders of
  each level and \<open>best_price\<close> is the index of the best level in use.  A pointer to an order
  is its level and column.

  The source never checks a level index, a system id passed to \<open>createOrder\<close> or an entry of
  the table read by \<open>deleteOrder\<close>; these accesses are the faults of the model.
\<close>

record LOB =
  isBuy :: bool
  best_price :: nat
  book :: "LOBOrder list list"
  LUT :: "nat \<Rightarrow> nat \<times> nat"
  active_counts :: "int list"
  max_price_possible :: nat

definition LUT_SIZE :: nat where
  "LUT_SIZE = 10000000"

definition LOB_new :: "bool \<Rightarrow> nat \<Rightarrow> LOB" where
  "LOB_new buy max_price =
     \<lparr>isBuy = buy, best_price = (if buy then 0 else max_price), book = replicate max_price [],
      LUT = (\<lambda>_. (NPOS, NPOS)), active_counts = replicate max_price 0,
      max_price_possible = max_price\<rparr>"

fun glide_down :: "int list \<Rightarrow> nat \<Rightarrow> nat result" where
  "glide_down ac 0 = Inr 0"
| "glide_down ac (Suc b) =
     (if length ac \<le> Suc b then Inl OutOfBounds
      else if ac ! Suc b = 0 then glide_down ac b else Inr (Suc b))"

function glide_up :: "int list \<Rightarrow> nat \<Rightarrow> nat \<Rightarrow> nat result" where
  "glide_up ac mx b =
     (if b < mx
      then (if length ac \<le> b then Inl OutOfBounds
            else if ac ! b = 0 then glide_up ac mx (Suc b) else Inr b)
      else Inr b)"
  by pat_completeness auto
termination
  by (relation "measure (\<lambda>(ac, mx, b). mx - b)") auto

declare glide_up.simps [simp del]

definition glide_best_prize :: "LOB \<Rightarrow> LOB result" where
  "glide_best_prize b =
     bindR (if isBuy b then glide_down (active_counts b) (best_price b)
            else glide_up (active_counts b) (max_price_possible b) (best_price b))
       (\<lambda>p. Inr (b\<lparr>best_price := p\<rparr>))"

definition peekOrder :: "LOB \<Rightarrow> u32 \<Rightarrow> (nat \<times> nat) option result" where
  "peekOrder b systemid =
     (if LUT_SIZE \<le> unat systemid then Inr None
      else let (p, c) = LUT b (unat systemid)
           in if p = NPOS \<or> c = NPOS then Inr None
              else if p < length (book b) \<and> c < length (book b ! p) then Inr (Some (p, c))
              else Inl OutOfBounds)"

definition get_order_at_prize :: "LOB \<Rightarrow> nat \<Rightarrow> nat option" where
  "get_order_at_prize b best_ask_price =
     (if max_price_possible b \<le> best_ask_price then None else Some best_ask_price)"

definition createOrder :: "LOB \<Rightarrow> LOBOrder \<Rightarrow> LOB result" where
  "createOrder b ord =
     bindR (price_index (price ord)) (\<lambda>p.
       let sid = unat (system_id ord);
           best = (if isBuy b then (if best_price b < p then p else best_price b)
                   else (if p < best_price b then p else best_price b))
       in if length (book b) \<le> p \<or> LUT_SIZE \<le> sid \<or> length (active_counts b) \<le> p
          then Inl OutOfBounds
          else Inr (b\<lparr>best_price := best,
                      book := (book b)[p := book b ! p @ [ord]],
                      LUT := (LUT b)(sid := (p, length (book b ! p))),
                      active_counts := (active_counts b)[p := active_counts b ! p + 1]\<rparr>))"

text \<open>The assignment \<open>book[p][c].quantity = n\<close> through a reference into the book.\<close>

definition set_quantity :: "LOB \<Rightarrow> nat \<Rightarrow> nat \<Rightarrow> u32 \<Rightarrow> LOB" where
  "set_quantity b p c n =
     b\<lparr>book := (book b)[p := (book b ! p)[c := (book b ! p ! c)\<lparr>quantity := n\<rparr>]]\<rparr>"

definition UpdateOrderQuantity :: "LOB \<Rightarrow> LOBOrder \<Rightarrow> LOB result" where
  "UpdateOrderQuantity b ord =
     (let sid = unat (system_id ord)
      in if LUT_SIZE \<le> sid then Inr b
         else let (p, c) = LUT b sid
              in if p \<noteq> NPOS \<and> c \<noteq> NPOS
                 then (if length (book b) \<le> p \<or> length (book b ! p) \<le> c then Inl OutOfBounds
                       else let newQuantity = quantity ord; oldQuantity = quantity (book b ! p ! c)
                            in if newQuantity = oldQuantity then Inr b
                               else if newQuantity < oldQuantity then Inr (set_quantity b p c newQuantity)
                               else let b' = set_quantity b p c 0;
                                        b'' = b'\<lparr>book := (book b')[p := book b' ! p @ [ord]]\<rparr>
                                    in Inr (b''\<lparr>LUT := (LUT b'')(sid := (p, length (book b'' ! p) - 1))\<rparr>))
                 else Inr b)"

definition deleteOrder :: "LOB \<Rightarrow> int \<Rightarrow> LOB result" where
  "deleteOrder b sysid =
     (if int LUT_SIZE < sysid then Inr b
      else let sid = size_of_int sysid
           in if LUT_SIZE \<le> sid then Inl OutOfBounds
              else let price_ix = int_of_size (fst (LUT b sid));
                       col_no = int_of_size (snd (LUT b sid));
                       p = size_of_int price_ix; c = size_of_int col_no
                   in if length (book b) \<le> p \<or> length (book b ! p) \<le> c \<or> length (active_counts b) \<le> p
                      then Inl OutOfBounds
                      else let b' = (set_quantity b p c 0)\<lparr>LUT := (LUT b)(sid := (NPOS, NPOS)),
                                      active_counts := (active_counts b)[p := active_counts b ! p - 1]\<rparr>
                           in if active_counts b' ! p = 0 \<and> price_ix = int_of_size (best_price b')
                              then glide_best_prize b' else Inr b')"

definition get_optimal_price :: "LOB \<Rightarrow> nat" where
  "get_optimal_price b = best_price b"

subsection \<open>The live orders of a book and the invariant\<close>

text \<open>
  \<open>levels b p\<close> is the queue of live orders at level \<open>p\<close>, oldest first: what the book means.
\<close>

definition live :: "LOBOrder \<Rightarrow> bool" where
  "live ord \<longleftrightarrow> quantity ord \<noteq> 0"

definition levels :: "LOB \<Rightarrow> nat \<Rightarrow> LOBOrder list" where
  "levels b p = (if p < length (book b) then filter live (book b ! p) else [])"

definition resting :: "LOB \<Rightarrow> nat \<Rightarrow> nat \<Rightarrow> bool" where
  "resting b p c \<longleftrightarrow> p < length (book b) \<and> c < length (book b ! p) \<and> live (book b ! p ! c)"

definition sid_at :: "LOB \<Rightarrow> nat \<Rightarrow> nat \<Rightarrow> nat" where
  "sid_at b p c = unat (system_id (book b ! p ! c))"

definition better :: "LOB \<Rightarrow> nat \<Rightarrow> nat \<Rightarrow> bool" where
  "better b p q = (if isBuy b then q < p else p < q)"

definition shape_ok :: "nat \<Rightarrow> LOB \<Rightarrow> bool" where
  "shape_ok n b \<longleftrightarrow>
     length (book b) = max_price_possible b \<and> length (active_counts b) = max_price_possible b \<and>
     0 < max_price_possible b \<and> max_price_possible b < 2 ^ 31 \<and> n < 2 ^ 31 \<and>
     (\<forall>p < length (book b). length (book b ! p) \<le> n)"

definition lut_ok :: "LOB \<Rightarrow> bool" where
  "lut_ok b \<longleftrightarrow>
     (\<forall>i < LUT_SIZE. LUT b i = (NPOS, NPOS) \<or>
        (\<exists>p c. LUT b i = (p, c) \<and> resting b p c \<and> sid_at b p c = i))"

definition orders_ok :: "LOB \<Rightarrow> bool" where
  "orders_ok b \<longleftrightarrow>
     (\<forall>p c. resting b p c \<longrightarrow> sid_at b p c < LUT_SIZE \<and> LUT b (sid_at b p c) = (p, c) \<and>
        price_index (price (book b ! p ! c)) = Inr p)"

definition counts_ok :: "LOB \<Rightarrow> bool" where
  "counts_ok b \<longleftrightarrow> (\<forall>p < length (book b). active_counts b ! p = int (length (levels b p)))"

definition best_ok :: "LOB \<Rightarrow> bool" where
  "best_ok b \<longleftrightarrow>
     (if isBuy b then best_price b < max_price_possible b else best_price b \<le> max_price_possible b) \<and>
     (\<forall>p. levels b p \<noteq> [] \<longrightarrow> \<not> better b p (best_price b)) \<and>
     (levels b (best_price b) = [] \<longrightarrow> best_price b = (if isBuy b then 0 else max_price_possible b))"

text \<open>
  \<open>core_inv\<close> is the invariant without the best price, which \<open>deleteOrder\<close> repairs last.
\<close>

definition core_inv :: "nat \<Rightarrow> LOB \<Rightarrow> bool" where
  "core_inv n b \<longleftrightarrow> shape_ok n b \<and> lut_ok b \<and> orders_ok b \<and> counts_ok b"

definition lob_inv :: "nat \<Rightarrow> LOB \<Rightarrow> bool" where
  "lob_inv n b \<longleftrightarrow> core_inv n b \<and> best_ok b"

lemmas lob_inv_defs = lob_inv_def core_inv_def shape_ok_def lut_ok_def orders_ok_def counts_ok_def best_ok_def

end
