(* ===== verification/BookInvariant.thy ===== *)
theory BookInvariant
  imports LimitBook
begin

text \<open>
  The operations of \<open>limitedOrderBook\<close> keep the book's invariant \<open>lob_inv\<close> and act on its
  meaning, the queues of live orders \<open>levels\<close>, as the operations of an order book should:
  \<open>createOrder\<close> appends to a level, \<open>deleteOrder\<close> removes the order with the id,
  \<open>UpdateOrderQuantity\<close> changes a quantity in place or moves the order to the end of its level.
\<close>

definition remove_id :: "nat \<Rightarrow> LOBOrder list \<Rightarrow> LOBOrder list" where
  "remove_id i os = filter (\<lambda>ord. unat (system_id ord) \<noteq> i) os"

subsection \<open>Reading the invariant\<close>

lemma NPOS_big: "2 ^ 31 < NPOS"
  by (simp add: NPOS_def)

lemma level_elemE:
  assumes "ord \<in> set (levels b p)"
  obtains c where "resting b p c" and "ord = book b ! p ! c"
proof -
  from assms have p: "p < length (book b)" and o: "ord \<in> set (book b ! p)" "live ord"
    by (auto simp: levels_def split: if_splits)
  from o(1) obtain c where "c < length (book b ! p)" "ord = book b ! p ! c"
    by (auto simp: in_set_conv_nth)
  with p o(2) show thesis using that by (auto simp: resting_def)
qed

lemma core_resting:
  assumes "core_inv n b" and "resting b p c"
  shows "sid_at b p c < LUT_SIZE" and "LUT b (sid_at b p c) = (p, c)"
    and "price_index (price (book b ! p ! c)) = Inr p"
    and "p < 2 ^ 31" and "c < 2 ^ 31" and "p < max_price_possible b"
proof -
  from assms show "sid_at b p c < LUT_SIZE" "LUT b (sid_at b p c) = (p, c)"
    "price_index (price (book b ! p ! c)) = Inr p"
    by (auto simp: core_inv_def orders_ok_def)
  from assms have sh: "shape_ok n b" and r: "p < length (book b)" "c < length (book b ! p)"
    by (auto simp: core_inv_def resting_def)
  then have "c < n" by (fastforce simp: shape_ok_def)
  with sh r show "p < 2 ^ 31" "c < 2 ^ 31" "p < max_price_possible b" by (auto simp: shape_ok_def)
qed

lemma core_lut:
  assumes "core_inv n b" and "i < LUT_SIZE" and "LUT b i \<noteq> (NPOS, NPOS)"
  obtains p c where "LUT b i = (p, c)" and "resting b p c" and "sid_at b p c = i"
proof -
  from assms(1) have "lut_ok b" by (simp add: core_inv_def)
  with assms(2,3) have "\<exists>p c. LUT b i = (p, c) \<and> resting b p c \<and> sid_at b p c = i"
    unfolding lut_ok_def by blast
  with that show thesis by blast
qed

lemma resting_unique:
  assumes "core_inv n b" and "resting b p c" and "resting b q d" and "sid_at b p c = sid_at b q d"
  shows "p = q \<and> c = d"
  using core_resting(2) [OF assms(1,2)] core_resting(2) [OF assms(1,3)] assms(4)
  by (metis prod.inject)

lemma lob_invD:
  assumes "lob_inv n b"
  shows "core_inv n b" and "best_ok b" and "shape_ok n b"
  using assms by (simp_all add: lob_inv_def core_inv_def)

subsection \<open>A new book, and gliding\<close>

lemma LOB_new_inv:
  assumes "0 < mx" and "mx < 2 ^ 31" and "n < 2 ^ 31"
  shows "lob_inv n (LOB_new buy mx)" and "levels (LOB_new buy mx) p = []"
proof -
  let ?b = "LOB_new buy mx"
  have r: "\<not> resting (LOB_new y mx) q c" for y q c by (auto simp: resting_def LOB_new_def)
  have l: "levels ?b q = []" for q by (auto simp: levels_def LOB_new_def)
  have f: "isBuy ?b = buy" "max_price_possible ?b = mx" "book ?b = replicate mx []"
    "active_counts ?b = replicate mx 0" "LUT ?b i = (NPOS, NPOS)"
    "best_price ?b = (if buy then 0 else mx)" for i
    by (simp_all add: LOB_new_def)
  show "lob_inv n ?b" unfolding lob_inv_defs l f using assms r by simp
  show "levels ?b p = []" by (rule l)
qed

lemma glide_down_result:
  assumes "b < length ac"
  shows "\<exists>p \<le> b. glide_down ac b = Inr p \<and> (\<forall>q. p < q \<longrightarrow> q \<le> b \<longrightarrow> ac ! q = 0) \<and> (p = 0 \<or> ac ! p \<noteq> 0)"
  using assms
proof (induction ac b rule: glide_down.induct)
  case (2 ac b)
  show ?case
  proof (cases "ac ! Suc b = 0")
    case True
    with 2 obtain p where "p \<le> b" "glide_down ac b = Inr p"
      "\<forall>q. p < q \<longrightarrow> q \<le> b \<longrightarrow> ac ! q = 0" "p = 0 \<or> ac ! p \<noteq> 0" by auto
    with True "2.prems" show ?thesis
      by (intro exI [of _ p]) (auto simp: le_Suc_eq)
  qed (use "2.prems" in auto)
qed simp

lemma glide_up_result:
  assumes "b \<le> mx" and "length ac = mx"
  shows "\<exists>p. b \<le> p \<and> p \<le> mx \<and> glide_up ac mx b = Inr p \<and>
    (\<forall>q. b \<le> q \<longrightarrow> q < p \<longrightarrow> ac ! q = 0) \<and> (p = mx \<or> ac ! p \<noteq> 0)"
  using assms
proof (induction ac mx b rule: glide_up.induct)
  case (1 ac mx b)
  show ?case
  proof (cases "b < mx \<and> ac ! b = 0")
    case True
    with 1 obtain p where p: "Suc b \<le> p" "p \<le> mx" "glide_up ac mx (Suc b) = Inr p"
      "\<forall>q. Suc b \<le> q \<longrightarrow> q < p \<longrightarrow> ac ! q = 0" "p = mx \<or> ac ! p \<noteq> 0" by auto
    have "\<forall>q. b \<le> q \<longrightarrow> q < p \<longrightarrow> ac ! q = 0"
      using p(4) True by (metis le_antisym not_less_eq_eq)
    with True p "1.prems" show ?thesis
      by (intro exI [of _ p]) (auto simp: glide_up.simps [of ac mx b])
  next
    case False
    with "1.prems" show ?thesis by (intro exI [of _ b]) (auto simp: glide_up.simps [of ac mx b])
  qed
qed

text \<open>
  \<open>glide_best_prize\<close> restores \<open>best_ok\<close> when no level better than \<open>best_price\<close> is in use.
\<close>

lemma glide_best:
  assumes sh: "shape_ok n b" and cnt: "counts_ok b"
    and range: "if isBuy b then best_price b < max_price_possible b else best_price b \<le> max_price_possible b"
    and bound: "\<forall>p. levels b p \<noteq> [] \<longrightarrow> \<not> better b p (best_price b)"
  obtains x where "glide_best_prize b = Inr (b\<lparr>best_price := x\<rparr>)" and "best_ok (b\<lparr>best_price := x\<rparr>)"
proof -
  let ?ac = "active_counts b" and ?mx = "max_price_possible b"
  have len: "length ?ac = ?mx" "length (book b) = ?mx" using sh by (auto simp: shape_ok_def)
  have zero: "?ac ! p = 0 \<longleftrightarrow> levels b p = []" if "p < ?mx" for p
    using cnt that len by (simp add: counts_ok_def)
  have outside: "levels b p = []" if "\<not> p < ?mx" for p
    using that len by (simp add: levels_def)
  have lev: "levels (b\<lparr>best_price := x\<rparr>) p = levels b p" "better (b\<lparr>best_price := x\<rparr>) p q = better b p q" for x p q
    by (simp_all add: levels_def better_def)
  show thesis
  proof (cases "isBuy b")
    case True
    with range len obtain x where x: "x \<le> best_price b" "glide_down ?ac (best_price b) = Inr x"
      "\<forall>q. x < q \<longrightarrow> q \<le> best_price b \<longrightarrow> ?ac ! q = 0" "x = 0 \<or> ?ac ! x \<noteq> 0"
      using glide_down_result [of "best_price b" ?ac] by auto
    have "levels b p = []" if "x < p" for p
      using that x(3) zero outside bound range True
      by (cases "p \<le> best_price b") (auto simp: better_def)
    then have "best_ok (b\<lparr>best_price := x\<rparr>)"
      using x(1,4) range True zero by (auto simp: best_ok_def lev better_def)
    moreover have "glide_best_prize b = Inr (b\<lparr>best_price := x\<rparr>)"
      using True x(2) by (simp add: glide_best_prize_def)
    ultimately show thesis using that by blast
  next
    case False
    with range len obtain x where x: "best_price b \<le> x" "x \<le> ?mx" "glide_up ?ac ?mx (best_price b) = Inr x"
      "\<forall>q. best_price b \<le> q \<longrightarrow> q < x \<longrightarrow> ?ac ! q = 0" "x = ?mx \<or> ?ac ! x \<noteq> 0"
      using glide_up_result [of "best_price b" ?mx ?ac] by auto
    have "levels b p = []" if "p < x" for p
      using that x(2,4) zero outside bound False
      by (cases "best_price b \<le> p") (auto simp: better_def)
    then have "best_ok (b\<lparr>best_price := x\<rparr>)"
      using x(2,5) False zero [of x] by (cases "x = ?mx") (auto simp: best_ok_def lev better_def)
    moreover have "glide_best_prize b = Inr (b\<lparr>best_price := x\<rparr>)"
      using False x(3) by (simp add: glide_best_prize_def)
    ultimately show thesis using that by blast
  qed
qed

subsection \<open>Changing a quantity in place\<close>

lemma set_quantity_fields [simp]:
  "isBuy (set_quantity b p c k) = isBuy b"
  "best_price (set_quantity b p c k) = best_price b"
  "LUT (set_quantity b p c k) = LUT b"
  "active_counts (set_quantity b p c k) = active_counts b"
  "max_price_possible (set_quantity b p c k) = max_price_possible b"
  "length (book (set_quantity b p c k)) = length (book b)"
  by (simp_all add: set_quantity_def)

lemma set_quantity_book:
  assumes in_book: "p < length (book b)" "c < length (book b ! p)"
  shows "book (set_quantity b p c k) ! q =
    (if q = p then (book b ! p)[c := (book b ! p ! c)\<lparr>quantity := k\<rparr>] else book b ! q)"
  using in_book by (simp add: set_quantity_def)

lemma set_quantity_at:
  assumes in_book: "p < length (book b)" "c < length (book b ! p)"
  shows "book (set_quantity b p c k) ! q ! d =
    (if q = p \<and> d = c then (book b ! p ! c)\<lparr>quantity := k\<rparr> else book b ! q ! d)"
  by (simp add: set_quantity_book [OF in_book] in_book)

lemma set_quantity_resting:
  assumes in_book: "p < length (book b)" "c < length (book b ! p)"
  shows "resting (set_quantity b p c k) q d \<longleftrightarrow> (if q = p \<and> d = c then k \<noteq> 0 else resting b q d)"
  using in_book by (auto simp: resting_def set_quantity_book [OF in_book] live_def)

lemma set_quantity_sid:
  assumes in_book: "p < length (book b)" "c < length (book b ! p)"
  shows "sid_at (set_quantity b p c k) q d = sid_at b q d"
  by (simp add: sid_at_def set_quantity_at [OF in_book])

lemma set_quantity_levels:
  assumes in_book: "p < length (book b)" "c < length (book b ! p)"
  shows "levels (set_quantity b p c k) =
    (levels b)(p := filter live (take c (book b ! p)) @
       (if k \<noteq> 0 then [(book b ! p ! c)\<lparr>quantity := k\<rparr>] else []) @ filter live (drop (Suc c) (book b ! p)))"
  using in_book
  by (intro ext)
    (auto simp: levels_def set_quantity_book [OF in_book] live_def
      upd_conv_take_nth_drop)

lemma levels_split:
  assumes in_book: "p < length (book b)" "c < length (book b ! p)"
    and "live (book b ! p ! c)"
  shows "levels b p =
    filter live (take c (book b ! p)) @ book b ! p ! c # filter live (drop (Suc c) (book b ! p))"
  using assms by (simp add: levels_def filter_split_at)

text \<open>
  In a book that keeps its invariant an id occurs once, so removing one order is removing its
  id from every level.
\<close>

lemma remove_id_others:
  assumes inv: "core_inv n b" and rest: "resting b p c" and
    sub: "\<And>ord. ord \<in> set os \<Longrightarrow> \<exists>d. resting b q d \<and> ord = book b ! q ! d \<and> (q, d) \<noteq> (p, c)"
  shows "remove_id (sid_at b p c) os = os"
  unfolding remove_id_def
proof (intro filter_True ballI notI)
  fix ord assume "ord \<in> set os" and same: "unat (system_id ord) = sid_at b p c"
  with sub obtain d where d: "resting b q d" "ord = book b ! q ! d" "(q, d) \<noteq> (p, c)" by blast
  with same have "sid_at b q d = sid_at b p c" by (simp add: sid_at_def)
  with resting_unique [OF inv d(1) rest] d(3) show False by simp
qed

lemma remove_id_parts:
  assumes inv: "core_inv n b" and rest: "resting b p c"
  shows "remove_id (sid_at b p c) (filter live (take c (book b ! p))) = filter live (take c (book b ! p))"
    and "remove_id (sid_at b p c) (filter live (drop (Suc c) (book b ! p))) =
      filter live (drop (Suc c) (book b ! p))"
proof -
  have elem: "\<exists>d. resting b p d \<and> ord = book b ! p ! d \<and> (p, d) \<noteq> (p, c)"
    if "ord \<in> set (filter live (take c (book b ! p))) \<union> set (filter live (drop (Suc c) (book b ! p)))" for ord
  proof -
    from that have "ord \<in> set (take c (book b ! p)) \<union> set (drop (Suc c) (book b ! p))" "live ord"
      by auto
    then obtain d where "d < length (book b ! p)" "d \<noteq> c" "ord = book b ! p ! d" "live ord"
      by (elim in_take_drop_nth)
    with rest show ?thesis by (auto simp: resting_def)
  qed
  show "remove_id (sid_at b p c) (filter live (take c (book b ! p))) = filter live (take c (book b ! p))"
    by (rule remove_id_others [OF inv rest]) (use elem in blast)
  show "remove_id (sid_at b p c) (filter live (drop (Suc c) (book b ! p))) =
      filter live (drop (Suc c) (book b ! p))"
    by (rule remove_id_others [OF inv rest]) (use elem in blast)
qed

lemma remove_id_levels:
  assumes inv: "core_inv n b" and rest: "resting b p c"
  shows "remove_id (sid_at b p c) (levels b q) = levels (set_quantity b p c 0) q"
proof -
  from rest have in_book: "p < length (book b)" "c < length (book b ! p)" and lv: "live (book b ! p ! c)"
    by (auto simp: resting_def)
  show ?thesis
  proof (cases "q = p")
    case True
    have "remove_id i (xs @ y # ys) = remove_id i xs @ (if unat (system_id y) = i then [] else [y]) @ remove_id i ys"
      for i xs y ys by (simp add: remove_id_def)
    with True remove_id_parts [OF inv rest] show ?thesis
      by (simp add: set_quantity_levels [OF in_book] levels_split [OF in_book lv] sid_at_def)
  next
    case False
    have "remove_id (sid_at b p c) (levels b q) = levels b q"
      by (rule remove_id_others [OF inv rest]) (use False in \<open>auto elim!: level_elemE\<close>)
    with False show ?thesis by (simp add: set_quantity_levels [OF in_book])
  qed
qed

subsection \<open>Reducing a quantity keeps the invariant\<close>

lemma restingD:
  assumes "resting b p c"
  shows "p < length (book b)" and "c < length (book b ! p)" and "live (book b ! p ! c)"
  using assms by (simp_all add: resting_def)

lemma reduce_inv:
  assumes inv: "lob_inv n b" and rest: "resting b p c" and k: "k \<noteq> 0"
  shows "lob_inv n (set_quantity b p c k)"
proof -
  let ?b = "set_quantity b p c k"
  note R = restingD [OF rest] and in_book = restingD(1,2) [OF rest]
  note S = set_quantity_resting [OF in_book] set_quantity_sid [OF in_book] set_quantity_at [OF in_book]
  have same: "resting ?b q d = resting b q d" for q d
    using rest k by (simp add: S)
  have sid: "sid_at ?b q d = sid_at b q d" and pr: "price (book ?b ! q ! d) = price (book b ! q ! d)" for q d
    by (simp_all add: S)
  have len: "length (levels ?b q) = length (levels b q)" for q
    using k by (simp add: set_quantity_levels [OF in_book] levels_split [OF R])
  have nil: "levels ?b q = [] \<longleftrightarrow> levels b q = []" for q
    using len [of q] by (metis length_0_conv)
  have "shape_ok n ?b"
    using inv in_book by (auto simp: lob_inv_def core_inv_def shape_ok_def set_quantity_book [OF in_book])
  moreover have "lut_ok ?b" using inv by (simp add: lob_inv_def core_inv_def lut_ok_def same sid)
  moreover have "orders_ok ?b" using inv by (simp add: lob_inv_def core_inv_def orders_ok_def same sid pr)
  moreover have "counts_ok ?b" using inv by (simp add: lob_inv_def core_inv_def counts_ok_def len)
  moreover have "best_ok ?b"
    using inv by (cases "isBuy b") (simp_all add: lob_inv_def best_ok_def nil better_def)
  ultimately show ?thesis by (simp add: lob_inv_def core_inv_def)
qed

subsection \<open>Deleting an order\<close>

text \<open>The book in \<open>deleteOrder\<close> before the best price is adjusted.\<close>

definition dropped :: "LOB \<Rightarrow> nat \<Rightarrow> nat \<Rightarrow> nat \<Rightarrow> LOB" where
  "dropped b p c i =
     (set_quantity b p c 0)\<lparr>LUT := (LUT b)(i := (NPOS, NPOS)),
        active_counts := (active_counts b)[p := active_counts b ! p - 1]\<rparr>"

lemma levels_cong: "book b = book b' \<Longrightarrow> levels b = levels b'"
  by (simp add: levels_def fun_eq_iff)

lemma levels_fields [simp]:
  "levels (b\<lparr>best_price := x\<rparr>) = levels b"
  "levels (b\<lparr>LUT := l\<rparr>) = levels b"
  "levels (b\<lparr>active_counts := ac\<rparr>) = levels b"
  by (simp_all add: levels_def fun_eq_iff)

lemma dropped_parts:
  assumes inv: "core_inv n b" and rest: "resting b p c" and i: "i = sid_at b p c"
  shows "core_inv n (dropped b p c i)"
    and "levels (dropped b p c i) = (\<lambda>q. remove_id i (levels b q))"
proof -
  let ?d = "dropped b p c i"
  note R = restingD [OF rest] and in_book = restingD(1,2) [OF rest]
  have res: "resting ?d q e \<longleftrightarrow> resting b q e \<and> (q, e) \<noteq> (p, c)" for q e
    using set_quantity_resting [OF in_book, of 0 q e] by (simp add: dropped_def resting_def)
  have sid: "sid_at ?d q e = sid_at b q e" for q e
    using set_quantity_sid [OF in_book, of 0 q e] by (simp add: dropped_def sid_at_def)
  have pr: "price (book ?d ! q ! e) = price (book b ! q ! e)" for q e
    using set_quantity_at [OF in_book, of 0 q e] by (simp add: dropped_def)
  have lut: "LUT ?d = (LUT b)(i := (NPOS, NPOS))" by (simp add: dropped_def)
  show lev: "levels ?d = (\<lambda>q. remove_id i (levels b q))"
    by (simp add: i dropped_def remove_id_levels [OF inv rest, symmetric] fun_eq_iff)
  have "shape_ok n ?d"
    using inv in_book
    by (auto simp: core_inv_def shape_ok_def dropped_def set_quantity_book [OF in_book])
  moreover have "lut_ok ?d"
  proof -
    have "\<exists>q e. LUT b j = (q, e) \<and> resting ?d q e \<and> sid_at ?d q e = j"
      if "j < LUT_SIZE" "j \<noteq> i" "LUT b j \<noteq> (NPOS, NPOS)" for j
      using core_lut [OF inv that(1,3)] that(2) i by (metis res sid prod.inject)
    then show ?thesis by (auto simp: lut_ok_def lut)
  qed
  moreover have "orders_ok ?d"
    unfolding orders_ok_def
  proof (intro allI impI)
    fix q e assume "resting ?d q e"
    then have r: "resting b q e" "(q, e) \<noteq> (p, c)" by (auto simp: res)
    with resting_unique [OF inv r(1) rest] have "sid_at b q e \<noteq> i" by (auto simp: i)
    with core_resting [OF inv r(1)]
    show "sid_at ?d q e < LUT_SIZE \<and> LUT ?d (sid_at ?d q e) = (q, e) \<and>
        price_index (price (book ?d ! q ! e)) = Inr q"
      by (simp add: sid pr lut)
  qed
  moreover have "counts_ok ?d"
  proof -
    have len: "length (levels ?d q) = length (levels b q) - (if q = p then 1 else 0)" for q
      by (simp add: dropped_def set_quantity_levels [OF in_book] levels_split [OF R])
    have "0 < length (levels b p)" by (simp add: levels_split [OF R])
    then have "int (length (levels b p) - Suc 0) = int (length (levels b p)) - 1" by linarith
    with inv in_book(1) show ?thesis
      unfolding counts_ok_def len
      by (auto simp: core_inv_def counts_ok_def shape_ok_def dropped_def nth_list_update)
  qed
  ultimately show "core_inv n ?d" by (simp add: core_inv_def)
qed

lemma dropped_fields [simp]:
  "isBuy (dropped b p c i) = isBuy b"
  "best_price (dropped b p c i) = best_price b"
  "max_price_possible (dropped b p c i) = max_price_possible b"
  "book (dropped b p c i) = book (set_quantity b p c 0)"
  "LUT (dropped b p c i) = (LUT b)(i := (NPOS, NPOS))"
  by (simp_all add: dropped_def)

lemma deleteOrder_eq:
  assumes "i < LUT_SIZE" and "LUT b i = (p, c)" and "p < 2 ^ 31" and "c < 2 ^ 31"
    and "p < length (book b)" and "c < length (book b ! p)" and "p < length (active_counts b)"
    and "best_price b < 2 ^ 31"
  shows "deleteOrder b (int i) =
    (if active_counts (dropped b p c i) ! p = 0 \<and> p = best_price b
     then glide_best_prize (dropped b p c i) else Inr (dropped b p c i))"
proof -
  have "i < 2 ^ 64" using assms(1) by (simp add: LUT_SIZE_def)
  with assms show ?thesis
    by (auto simp: deleteOrder_def Let_def dropped_def)
qed

lemma deleteOrder_set_quantity:
  assumes "i < LUT_SIZE" and "LUT b i = (p, c)" and "p < 2 ^ 31" and "c < 2 ^ 31"
    and "p < length (book b)" and "c < length (book b ! p)" and "p < length (active_counts b)"
    and "best_price b < 2 ^ 31"
  shows "deleteOrder (set_quantity b p c k) (int i) = deleteOrder b (int i)"
proof -
  have d: "dropped (set_quantity b p c k) p c i = dropped b p c i"
    using assms(5,6) by (simp add: dropped_def set_quantity_def)
  have "c < length (book (set_quantity b p c k) ! p)"
    using assms(5,6) by (simp add: set_quantity_book)
  then have "deleteOrder (set_quantity b p c k) (int i) =
      (if active_counts (dropped b p c i) ! p = 0 \<and> p = best_price b
       then glide_best_prize (dropped b p c i) else Inr (dropped b p c i))"
    using deleteOrder_eq [of i "set_quantity b p c k" p c] assms unfolding d by simp
  then show ?thesis unfolding deleteOrder_eq [OF assms] .
qed

lemma dropped_count:
  assumes "core_inv n b" and "resting b p c"
  shows "active_counts (dropped b p c i) ! p = 0 \<longleftrightarrow> levels (dropped b p c (sid_at b p c)) p = []"
proof -
  have "active_counts (dropped b p c i) = active_counts (dropped b p c (sid_at b p c))"
    by (simp add: dropped_def)
  with dropped_parts(1) [OF assms refl] restingD(1) [OF assms(2)] show ?thesis
    by (simp add: core_inv_def counts_ok_def)
qed

text \<open>Deleting the order of a live id removes exactly that order.\<close>

lemma core_inv_best: "core_inv n (b\<lparr>best_price := x\<rparr>) = core_inv n b"
  by (simp add: core_inv_def shape_ok_def lut_ok_def orders_ok_def counts_ok_def resting_def sid_at_def)

lemma deleteOrder_resting:
  assumes inv: "lob_inv n b" and rest: "resting b p c" and i: "i = sid_at b p c"
  obtains b' where "deleteOrder b (int i) = Inr b'" and "lob_inv n b'"
    and "levels b' = (\<lambda>q. remove_id i (levels b q))"
    and "isBuy b' = isBuy b" and "max_price_possible b' = max_price_possible b"
    and "book b' = book (set_quantity b p c 0)" and "LUT b' = (LUT b)(i := (NPOS, NPOS))"
proof -
  let ?d = "dropped b p c i"
  note core = lob_invD(1) [OF inv] and bo = lob_invD(2) [OF inv] and sh = lob_invD(3) [OF inv]
  note D = dropped_parts [OF core rest i] and P = core_resting [OF core rest]
  have range: "if isBuy ?d then best_price ?d < max_price_possible ?d else best_price ?d \<le> max_price_possible ?d"
    using bo by (simp add: best_ok_def)
  have b31: "best_price b < 2 ^ 31"
    using range sh by (auto simp: shape_ok_def split: if_splits)
  have sub: "levels b q \<noteq> []" if "levels ?d q \<noteq> []" for q
    using that by (auto simp: D(2) remove_id_def)
  have bound: "\<forall>q. levels ?d q \<noteq> [] \<longrightarrow> \<not> better ?d q (best_price ?d)"
    using bo sub by (auto simp: best_ok_def better_def)
  have del: "deleteOrder b (int i) =
      (if active_counts ?d ! p = 0 \<and> p = best_price b then glide_best_prize ?d else Inr ?d)"
    by (rule deleteOrder_eq) (use P i b31 sh restingD [OF rest] in \<open>auto simp: shape_ok_def\<close>)
  show thesis
  proof (cases "active_counts ?d ! p = 0 \<and> p = best_price b")
    case True
    have "shape_ok n ?d" "counts_ok ?d" using D(1) by (simp_all add: core_inv_def)
    then obtain x where x: "glide_best_prize ?d = Inr (?d\<lparr>best_price := x\<rparr>)" "best_ok (?d\<lparr>best_price := x\<rparr>)"
      by (rule glide_best [OF _ _ range bound])
    have keep: "core_inv n (?d\<lparr>best_price := x\<rparr>)" using D(1) by (simp add: core_inv_best)
    have "deleteOrder b (int i) = Inr (?d\<lparr>best_price := x\<rparr>)"
      unfolding del if_P [OF True] by (fact x(1))
    then show thesis
      by (rule that) (use x keep D(2) in \<open>simp_all add: lob_inv_def\<close>)
  next
    case False
    have "best_price b = (if isBuy b then 0 else max_price_possible b)"
      if "levels ?d (best_price b) = []"
    proof (cases "p = best_price b")
      case True
      with False that dropped_count [OF core rest, of i] show ?thesis by (simp add: i)
    next
      case False
      have "levels ?d (best_price b) = levels (set_quantity b p c 0) (best_price b)"
        by (simp add: dropped_def)
      also have "\<dots> = levels b (best_price b)"
        using False by (simp add: set_quantity_levels [OF restingD(1,2) [OF rest]])
      finally show ?thesis using bo that by (simp add: best_ok_def)
    qed
    with range bound have "best_ok ?d" by (cases "isBuy b") (simp_all add: best_ok_def)
    with False D show thesis
      by (intro that [of ?d]) (auto simp: del lob_inv_def)
  qed
qed

subsection \<open>Adding an order\<close>

lemma fresh_not_resting:
  assumes "core_inv n b" and "LUT b i = (NPOS, NPOS)" and "resting b q d"
  shows "sid_at b q d \<noteq> i"
  using core_resting(2,4) [OF assms(1,3)] assms(2) NPOS_big by auto

text \<open>The book with \<open>ord\<close> appended to level \<open>p\<close>, before the best price is adjusted.\<close>

definition appended :: "LOB \<Rightarrow> nat \<Rightarrow> LOBOrder \<Rightarrow> LOB" where
  "appended b p ord =
     b\<lparr>book := (book b)[p := book b ! p @ [ord]],
       LUT := (LUT b)(unat (system_id ord) := (p, length (book b ! p))),
       active_counts := (active_counts b)[p := active_counts b ! p + 1]\<rparr>"

lemma appended_fields [simp]:
  "isBuy (appended b p ord) = isBuy b"
  "best_price (appended b p ord) = best_price b"
  "max_price_possible (appended b p ord) = max_price_possible b"
  "length (book (appended b p ord)) = length (book b)"
  by (simp_all add: appended_def)

lemma appended_LUT: "LUT (appended b p ord) = (LUT b)(unat (system_id ord) := (p, length (book b ! p)))"
  by (simp add: appended_def)

lemma appended_levels:
  assumes "p < length (book b)" and "live ord"
  shows "levels (appended b p ord) = (levels b)(p := levels b p @ [ord])"
  using assms by (auto simp: levels_def appended_def nth_list_update fun_eq_iff)

lemma appended_core:
  assumes inv: "core_inv n b" and px: "price_index (price ord) = Inr p" and p: "p < max_price_possible b"
    and lv: "live ord" and i: "i = unat (system_id ord)" "i < LUT_SIZE" and fresh: "LUT b i = (NPOS, NPOS)"
    and n: "Suc n < 2 ^ 31"
  shows "core_inv (Suc n) (appended b p ord)"
proof -
  have sh: "shape_ok n b" using inv by (simp add: core_inv_def)
  then have len: "length (book b) = max_price_possible b" "length (active_counts b) = max_price_possible b"
    by (auto simp: shape_ok_def)
  let ?c = "length (book b ! p)" and ?b = "appended b p ord"
  have bk: "book ?b ! q = (if q = p then book b ! p @ [ord] else book b ! q)" for q
    using p len by (simp add: appended_def)
  have lev: "levels ?b = (levels b)(p := levels b p @ [ord])"
    by (rule appended_levels) (use p len lv in simp_all)
  have res: "resting ?b q d \<longleftrightarrow> resting b q d \<or> (q = p \<and> d = ?c)" for q d
    using p lv len by (auto simp: resting_def bk nth_append less_Suc_eq)
  have old: "sid_at ?b q d = sid_at b q d" "price (book ?b ! q ! d) = price (book b ! q ! d)"
    if "resting b q d" for q d
    using that by (auto simp: resting_def sid_at_def bk nth_append)
  have new: "sid_at ?b p ?c = i" "book ?b ! p ! ?c = ord"
    by (simp_all add: sid_at_def bk i)
  have lut: "LUT ?b = (LUT b)(i := (p, ?c))" by (simp add: i appended_LUT)
  note fr = fresh_not_resting [OF inv fresh]
  have "shape_ok (Suc n) ?b"
    using sh p n by (auto simp: shape_ok_def appended_def nth_list_update le_Suc_eq)
  moreover have "lut_ok ?b"
    unfolding lut_ok_def
  proof (intro allI impI)
    fix j assume j: "j < LUT_SIZE"
    consider "j = i" | "j \<noteq> i" "LUT b j = (NPOS, NPOS)" | "j \<noteq> i" "LUT b j \<noteq> (NPOS, NPOS)" by blast
    then show "LUT ?b j = (NPOS, NPOS) \<or> (\<exists>q d. LUT ?b j = (q, d) \<and> resting ?b q d \<and> sid_at ?b q d = j)"
    proof cases
      case 3
      obtain q d where "LUT b j = (q, d)" "resting b q d" "sid_at b q d = j"
        by (rule core_lut [OF inv j 3(2)])
      with 3 old show ?thesis by (simp add: lut res)
    qed (simp_all add: lut res new)
  qed
  moreover have "orders_ok ?b"
    unfolding orders_ok_def
  proof (intro allI impI)
    fix q d assume "resting ?b q d"
    then consider "resting b q d" | "q = p" "d = ?c" by (auto simp: res)
    then show "sid_at ?b q d < LUT_SIZE \<and> LUT ?b (sid_at ?b q d) = (q, d) \<and>
        price_index (price (book ?b ! q ! d)) = Inr q"
    proof cases
      case 1
      with core_resting [OF inv 1] fr [OF 1] old [OF 1] show ?thesis by (simp add: lut)
    next
      case 2
      with new px i show ?thesis by (simp add: lut)
    qed
  qed
  moreover have "counts_ok ?b"
  proof -
    have "active_counts ?b = (active_counts b)[p := active_counts b ! p + 1]"
      by (simp add: appended_def)
    with inv p len show ?thesis by (auto simp: core_inv_def counts_ok_def lev nth_list_update)
  qed
  ultimately show ?thesis by (simp add: core_inv_def)
qed

text \<open>\<open>createOrder\<close> appends the order to its level and raises the best price when it is better.\<close>

lemma createOrder_inv:
  assumes inv: "lob_inv n b" and px: "price_index (price ord) = Inr p" and p: "p < max_price_possible b"
    and lv: "live ord" and i: "i = unat (system_id ord)" "i < LUT_SIZE" and fresh: "LUT b i = (NPOS, NPOS)"
    and n: "Suc n < 2 ^ 31"
  obtains b' where "createOrder b ord = Inr b'" and "lob_inv (Suc n) b'"
    and "levels b' = (levels b)(p := levels b p @ [ord])"
    and "isBuy b' = isBuy b" and "max_price_possible b' = max_price_possible b"
    and "best_price b' = (if better b p (best_price b) then p else best_price b)"
    and "LUT b' = (LUT b)(i := (p, length (book b ! p)))"
proof -
  note core = lob_invD(1) [OF inv] and bo = lob_invD(2) [OF inv]
  have len: "length (book b) = max_price_possible b" "length (active_counts b) = max_price_possible b"
    using lob_invD(3) [OF inv] by (auto simp: shape_ok_def)
  define best where "best = (if better b p (best_price b) then p else best_price b)"
  let ?b = "(appended b p ord)\<lparr>best_price := best\<rparr>"
  have cr: "createOrder b ord = Inr ?b"
    using px p i len by (auto simp: createOrder_def Let_def appended_def better_def best_def)
  have lev: "levels ?b = (levels b)(p := levels b p @ [ord])"
    using appended_levels [of p b ord] p len lv by simp
  have "best_ok ?b"
    using bo p unfolding best_ok_def lev by (cases "isBuy b") (auto simp: better_def best_def)
  with appended_core [OF core px p lv i fresh n] have "lob_inv (Suc n) ?b"
    by (simp add: lob_inv_def core_inv_best)
  with cr lev show thesis using that i(1) by (simp add: best_def appended_LUT)
qed

subsection \<open>Updating a quantity\<close>

definition requantify :: "nat \<Rightarrow> u32 \<Rightarrow> LOBOrder list \<Rightarrow> LOBOrder list" where
  "requantify i k os = map (\<lambda>ord. if unat (system_id ord) = i then ord\<lparr>quantity := k\<rparr> else ord) os"

lemma requantify_levels:
  assumes inv: "core_inv n b" and rest: "resting b p c" and k: "k \<noteq> 0"
  shows "levels (set_quantity b p c k) = (\<lambda>q. requantify (sid_at b p c) k (levels b q))"
proof
  fix q
  note R = restingD [OF rest]
  let ?i = "sid_at b p c"
  have keep: "requantify ?i k os = os" if "remove_id ?i os = os" for os
  proof -
    from that have "\<forall>x \<in> set os. unat (system_id x) \<noteq> ?i"
      unfolding remove_id_def by (metis (mono_tags) filter_id_conv)
    then show ?thesis unfolding requantify_def by (simp add: map_idI)
  qed
  have split: "requantify ?i k (xs @ y # ys) =
      requantify ?i k xs @ (if unat (system_id y) = ?i then y\<lparr>quantity := k\<rparr> else y) # requantify ?i k ys"
    for xs y ys by (simp add: requantify_def)
  show "levels (set_quantity b p c k) q = requantify ?i k (levels b q)"
  proof (cases "q = p")
    case True
    have "requantify ?i k (filter live (take c (book b ! p))) = filter live (take c (book b ! p))"
      "requantify ?i k (filter live (drop (Suc c) (book b ! p))) = filter live (drop (Suc c) (book b ! p))"
      by (rule keep, rule remove_id_parts [OF inv rest])+
    moreover have "unat (system_id (book b ! p ! c)) = ?i" by (simp add: sid_at_def)
    ultimately show ?thesis
      using True k by (simp add: levels_split [OF R] set_quantity_levels [OF R(1,2)] split)
  next
    case False
    have "remove_id ?i (levels b q) = levels b q"
      using False by (simp add: remove_id_levels [OF inv rest] set_quantity_levels [OF R(1,2)])
    with False keep show ?thesis by (simp add: set_quantity_levels [OF R(1,2)])
  qed
qed

text \<open>
  The three effective cases of \<open>UpdateOrderQuantity\<close>: a smaller quantity is written in place
  and the order keeps its turn; a larger one moves the order to the end of its level.
\<close>

lemma UpdateOrderQuantity_unknown:
  assumes "LUT_SIZE \<le> unat (system_id ord) \<or> LUT b (unat (system_id ord)) = (NPOS, NPOS)"
  shows "UpdateOrderQuantity b ord = Inr b"
  using assms by (auto simp: UpdateOrderQuantity_def Let_def)

lemma UpdateOrderQuantity_eq:
  assumes inv: "core_inv n b" and rest: "resting b p c" and i: "unat (system_id ord) = sid_at b p c"
  shows "UpdateOrderQuantity b ord =
    (if quantity ord = quantity (book b ! p ! c) then Inr b
     else if quantity ord < quantity (book b ! p ! c) then Inr (set_quantity b p c (quantity ord))
     else let b' = set_quantity b p c 0
          in Inr (b'\<lparr>book := (book b')[p := book b' ! p @ [ord]],
                     LUT := (LUT b)(sid_at b p c := (p, length (book b ! p)))\<rparr>))"
proof -
  note P = core_resting [OF inv rest] and R = restingD [OF rest]
  have "p \<noteq> NPOS" "c \<noteq> NPOS" using P(4,5) NPOS_big by auto
  with P R i show ?thesis
    by (auto simp: UpdateOrderQuantity_def Let_def set_quantity_book)
qed

lemma update_decrease:
  assumes inv: "lob_inv n b" and rest: "resting b p c" and i: "unat (system_id ord) = sid_at b p c"
    and less: "quantity ord < quantity (book b ! p ! c)" and nz: "quantity ord \<noteq> 0"
  obtains b' where "UpdateOrderQuantity b ord = Inr b'" and "lob_inv n b'"
    and "levels b' = (\<lambda>q. requantify (sid_at b p c) (quantity ord) (levels b q))"
    and "isBuy b' = isBuy b" and "max_price_possible b' = max_price_possible b" and "LUT b' = LUT b"
proof
  show "UpdateOrderQuantity b ord = Inr (set_quantity b p c (quantity ord))"
    using less by (simp add: UpdateOrderQuantity_eq [OF lob_invD(1) [OF inv] rest i])
  show "lob_inv n (set_quantity b p c (quantity ord))" using inv rest nz by (rule reduce_inv)
  show "levels (set_quantity b p c (quantity ord)) =
      (\<lambda>q. requantify (sid_at b p c) (quantity ord) (levels b q))"
    using lob_invD(1) [OF inv] rest nz by (rule requantify_levels)
qed simp_all

lemma update_increase:
  assumes inv: "lob_inv n b" and rest: "resting b p c" and i: "unat (system_id ord) = sid_at b p c"
    and more: "quantity (book b ! p ! c) < quantity ord" and px: "price_index (price ord) = Inr p"
    and n: "Suc n < 2 ^ 31"
  obtains b' where "UpdateOrderQuantity b ord = Inr b'" and "lob_inv (Suc n) b'"
    and "levels b' = (\<lambda>q. if q = p then remove_id (sid_at b p c) (levels b p) @ [ord] else levels b q)"
    and "isBuy b' = isBuy b" and "max_price_possible b' = max_price_possible b"
    and "LUT b' = (LUT b)(sid_at b p c := (p, length (book b ! p)))"
proof -
  note core = lob_invD(1) [OF inv] and bo = lob_invD(2) [OF inv] and R = restingD [OF rest]
  let ?i = "sid_at b p c"
  let ?d = "dropped b p c ?i"
  let ?b = "appended ?d p ord"
  have lv: "live ord" using more by (auto simp: live_def)
  have p: "p < max_price_possible b" and ac: "p < length (active_counts b)"
    using lob_invD(3) [OF inv] R(1) by (auto simp: shape_ok_def)
  have len: "length (book ?d ! p) = length (book b ! p)"
    by (simp add: set_quantity_book [OF R(1,2)])
  have up: "UpdateOrderQuantity b ord = Inr ?b"
    using more ac i len
    by (auto simp: UpdateOrderQuantity_eq [OF core rest i] Let_def appended_def dropped_def)
  have lev: "levels ?b = (\<lambda>q. if q = p then remove_id ?i (levels b p) @ [ord] else levels b q)"
  proof -
    have "levels ?d q = levels b q" if "q \<noteq> p" for q
      using that by (simp add: dropped_def set_quantity_levels [OF R(1,2)])
    then show ?thesis
      using R(1) lv by (auto simp: appended_levels dropped_parts(2) [OF core rest refl] fun_eq_iff)
  qed
  have "core_inv (Suc n) ?b"
    by (rule appended_core [OF dropped_parts(1) [OF core rest refl] px _ lv refl])
      (use p i core_resting(1) [OF core rest] n in simp_all)
  moreover have "best_ok ?b"
  proof -
    have "levels ?b q = [] \<longleftrightarrow> levels b q = []" for q
      by (auto simp: lev levels_split [OF R])
    then show ?thesis using bo by (cases "isBuy b") (auto simp: best_ok_def better_def)
  qed
  ultimately have "lob_inv (Suc n) ?b" by (simp add: lob_inv_def)
  with up lev show thesis using that i len by (simp add: appended_LUT)
qed

end
