(* ===== verification/BookSide.thy ===== *)
theory BookSide
  imports BookInvariant
begin

text \<open>
  What a client of one side of the book relies on, as an interface: orders can be added to their
  level and cancelled by their id, and the top of the book is at least as good as every order in
  it.  The locale derives what a client builds on these laws; the two instances of the class
  template, \<open>limitedOrderBook<true>\<close> and \<open>limitedOrderBook<false>\<close>, are the two interpretations.
\<close>

fun add_all :: "('b \<Rightarrow> LOBOrder \<Rightarrow> 'b result) \<Rightarrow> 'b \<Rightarrow> LOBOrder list \<Rightarrow> 'b result" where
  "add_all put b [] = Inr b"
| "add_all put b (x # xs) = bindR (put b x) (\<lambda>b'. add_all put b' xs)"

definition id_of :: "LOBOrder \<Rightarrow> nat" where
  "id_of x = unat (system_id x)"

text \<open>An order the book accepts: it has a quantity, and its price and its id are in range.\<close>

definition acceptable :: "nat \<Rightarrow> LOBOrder \<Rightarrow> bool" where
  "acceptable mx x \<longleftrightarrow> live x \<and> id_of x < LUT_SIZE \<and>
     (case price_index (price x) of Inl _ \<Rightarrow> False | Inr p \<Rightarrow> p < mx)"

definition at_price :: "nat \<Rightarrow> LOBOrder \<Rightarrow> bool" where
  "at_price p x \<longleftrightarrow> price_index (price x) = Inr p"

lemma acceptableE:
  assumes "acceptable mx x"
  obtains p where "price_index (price x) = Inr p" and "p < mx" and "live x" and "id_of x < LUT_SIZE"
  using assms by (auto simp: acceptable_def split: sum.splits)

locale order_side =
  fixes ok :: "nat \<Rightarrow> 'b \<Rightarrow> bool"
    and view :: "'b \<Rightarrow> nat \<Rightarrow> LOBOrder list"
    and free :: "'b \<Rightarrow> nat \<Rightarrow> bool"
    and top :: "'b \<Rightarrow> nat"
    and mx :: nat
    and ahead :: "nat \<Rightarrow> nat \<Rightarrow> bool"
    and add :: "'b \<Rightarrow> LOBOrder \<Rightarrow> 'b result"
    and cancel :: "'b \<Rightarrow> nat \<Rightarrow> 'b result"
  assumes add_law: "ok n b \<Longrightarrow> acceptable mx x \<Longrightarrow> free b (id_of x) \<Longrightarrow> Suc n < 2 ^ 31 \<Longrightarrow>
      at_price p x \<Longrightarrow>
      \<exists>b'. add b x = Inr b' \<and> ok (Suc n) b' \<and> view b' = (view b)(p := view b p @ [x]) \<and>
        (\<forall>i. free b' i \<longleftrightarrow> free b i \<and> i \<noteq> id_of x)"
    and cancel_law: "ok n b \<Longrightarrow> i < LUT_SIZE \<Longrightarrow> \<not> free b i \<Longrightarrow>
      \<exists>b'. cancel b i = Inr b' \<and> ok n b' \<and> view b' = (\<lambda>q. remove_id i (view b q)) \<and>
        (\<forall>j. free b' j \<longleftrightarrow> free b j \<or> j = i)"
    and cancel_free: "ok n b \<Longrightarrow> i < LUT_SIZE \<Longrightarrow> free b i \<Longrightarrow> \<exists>e. cancel b i = Inl e"
    and free_law: "ok n b \<Longrightarrow> free b i \<Longrightarrow> x \<in> set (view b p) \<Longrightarrow> id_of x \<noteq> i"
    and top_law: "ok n b \<Longrightarrow> view b p \<noteq> [] \<Longrightarrow> \<not> ahead p (top b)"
begin

text \<open>Cancelling what was just added gives the orders back as they were.\<close>

lemma add_cancel:
  assumes "ok n b" and "acceptable mx x" and "free b (id_of x)" and "Suc n < 2 ^ 31"
  shows "\<exists>b' b''. add b x = Inr b' \<and> cancel b' (id_of x) = Inr b'' \<and>
    view b'' = view b \<and> (\<forall>i. free b'' i = free b i)"
proof -
  obtain p where p: "price_index (price x) = Inr p" "p < mx" "live x" "id_of x < LUT_SIZE"
    by (rule acceptableE [OF assms(2)])
  have at: "at_price p x" using p(1) by (simp add: at_price_def)
  obtain b' where b': "add b x = Inr b'" "ok (Suc n) b'" "view b' = (view b)(p := view b p @ [x])"
    "\<forall>i. free b' i \<longleftrightarrow> free b i \<and> i \<noteq> id_of x"
    using add_law [OF assms at] by blast
  obtain b'' where b'': "cancel b' (id_of x) = Inr b''" "view b'' = (\<lambda>q. remove_id (id_of x) (view b' q))"
    "\<forall>j. free b'' j \<longleftrightarrow> free b' j \<or> j = id_of x"
    using cancel_law [OF b'(2) p(4)] b'(4) by blast
  have keep: "remove_id (id_of x) (view b q) = view b q" for q
    unfolding remove_id_def
    by (rule filter_True) (use free_law [OF assms(1,3)] in \<open>simp add: id_of_def\<close>)
  have "remove_id (id_of x) (view b p @ [x]) = view b p"
    using keep [of p] by (simp add: remove_id_def id_of_def)
  then have "view b'' = view b"
    unfolding b''(2) b'(3) by (auto simp: keep)
  moreover have "free b'' i = free b i" for i
    using b''(3) b'(4) assms(3) by blast
  ultimately show ?thesis using b'(1) b''(1) by blast
qed

text \<open>Orders added one after the other queue up at their levels in the order they came.\<close>

lemma add_all_fifo:
  assumes "ok n b" and "\<forall>x \<in> set xs. acceptable mx x \<and> free b (id_of x)"
    and "distinct (map id_of xs)" and "n + length xs < 2 ^ 31"
  shows "\<exists>b'. add_all add b xs = Inr b' \<and> ok (n + length xs) b' \<and>
    (\<forall>p. view b' p = view b p @ filter (at_price p) xs)"
  using assms
proof (induction xs arbitrary: n b)
  case (Cons x xs)
  then have acc: "acceptable mx x" and fr: "free b (id_of x)" by simp_all
  obtain p where p: "price_index (price x) = Inr p" by (rule acceptableE [OF acc])
  have at: "at_price q x \<longleftrightarrow> q = p" for q using p by (auto simp: at_price_def)
  have n: "Suc n < 2 ^ 31" using Cons.prems(4) by simp
  obtain b1 where b1: "add b x = Inr b1" "ok (Suc n) b1" "view b1 = (view b)(p := view b p @ [x])"
    "\<forall>i. free b1 i \<longleftrightarrow> free b i \<and> i \<noteq> id_of x"
    using add_law [OF Cons.prems(1) acc fr n, of p] at by blast
  have "id_of y \<noteq> id_of x" if "y \<in> set xs" for y
  proof
    assume "id_of y = id_of x"
    with that have "id_of x \<in> set (map id_of xs)" by (metis imageI set_map)
    with Cons.prems(3) show False by simp
  qed
  then have "\<forall>y \<in> set xs. acceptable mx y \<and> free b1 (id_of y)"
    using Cons.prems(2) b1(4) by simp
  then obtain b' where b': "add_all add b1 xs = Inr b'" "ok (Suc n + length xs) b'"
    "\<forall>p. view b' p = view b1 p @ filter (at_price p) xs"
    using Cons.IH [OF b1(2)] Cons.prems(3,4) by auto
  have "view b' q = view b q @ filter (at_price q) (x # xs)" for q
    using b'(3) by (simp add: b1(3) at)
  with b1(1) b'(1,2) show ?case by auto
qed simp

text \<open>An id is cancelled once: the second attempt fails.\<close>

lemma cancel_twice:
  assumes "ok n b" and "i < LUT_SIZE" and "\<not> free b i"
  shows "\<exists>b' e. cancel b i = Inr b' \<and> cancel b' i = Inl e"
  using cancel_law [OF assms] cancel_free [OF _ assms(2)] by blast

end

subsection \<open>The two sides\<close>

definition side_ok :: "bool \<Rightarrow> nat \<Rightarrow> nat \<Rightarrow> LOB \<Rightarrow> bool" where
  "side_ok buy mx n b \<longleftrightarrow> lob_inv n b \<and> isBuy b = buy \<and> max_price_possible b = mx"

definition id_free :: "LOB \<Rightarrow> nat \<Rightarrow> bool" where
  "id_free b i \<longleftrightarrow> LUT b i = (NPOS, NPOS)"

lemma side_add:
  assumes "side_ok buy mx n b" and "acceptable mx x" and "id_free b (id_of x)" and n: "Suc n < 2 ^ 31"
    and "at_price p x"
  shows "\<exists>b'. createOrder b x = Inr b' \<and> side_ok buy mx (Suc n) b' \<and>
    levels b' = (levels b)(p := levels b p @ [x]) \<and> (\<forall>i. id_free b' i \<longleftrightarrow> id_free b i \<and> i \<noteq> id_of x)"
proof -
  from assms(1) have inv: "lob_inv n b" and mx: "max_price_possible b = mx" and buy: "isBuy b = buy"
    by (simp_all add: side_ok_def)
  have p: "price_index (price x) = Inr p" "p < max_price_possible b" "live x" "id_of x < LUT_SIZE"
    using assms(2,5) mx by (auto simp: acceptable_def at_price_def)
  obtain b' where b': "createOrder b x = Inr b'" "lob_inv (Suc n) b'"
    "levels b' = (levels b)(p := levels b p @ [x])"
    "isBuy b' = isBuy b" "max_price_possible b' = max_price_possible b"
    "LUT b' = (LUT b)(id_of x := (p, length (book b ! p)))"
    using createOrder_inv [OF inv p(1,2,3) id_of_def p(4) _ n] assms(3) unfolding id_free_def by metis
  have "p \<noteq> NPOS" using p(2) lob_invD(3) [OF inv] NPOS_big by (auto simp: shape_ok_def)
  then have "id_free b' i \<longleftrightarrow> id_free b i \<and> i \<noteq> id_of x" for i
    by (auto simp: id_free_def b'(6))
  with b' buy mx show ?thesis by (auto simp: side_ok_def)
qed

lemma side_cancel:
  assumes "side_ok buy mx n b" and i: "i < LUT_SIZE" and "\<not> id_free b i"
  shows "\<exists>b'. deleteOrder b (int i) = Inr b' \<and> side_ok buy mx n b' \<and>
    levels b' = (\<lambda>q. remove_id i (levels b q)) \<and> (\<forall>j. id_free b' j \<longleftrightarrow> id_free b j \<or> j = i)"
proof -
  from assms(1) have inv: "lob_inv n b" by (simp add: side_ok_def)
  have used: "LUT b i \<noteq> (NPOS, NPOS)" using assms(3) by (simp add: id_free_def)
  obtain p c where "LUT b i = (p, c)" and r: "resting b p c" "sid_at b p c = i"
    by (rule core_lut [OF lob_invD(1) [OF inv] i used])
  obtain b' where "deleteOrder b (int i) = Inr b'" "lob_inv n b'"
    "levels b' = (\<lambda>q. remove_id i (levels b q))"
    "isBuy b' = isBuy b" "max_price_possible b' = max_price_possible b"
    "LUT b' = (LUT b)(i := (NPOS, NPOS))"
    by (rule deleteOrder_resting [OF inv r(1) r(2) [symmetric]])
  with assms(1) show ?thesis by (auto simp: side_ok_def id_free_def)
qed

lemma side_cancel_free:
  assumes "side_ok buy mx n b" and i: "i < LUT_SIZE" and "id_free b i"
  shows "deleteOrder b (int i) = Inl OutOfBounds"
proof -
  from assms(1) have inv: "lob_inv n b" by (simp add: side_ok_def)
  have "length (book b) < NPOS"
    using lob_invD(3) [OF inv] NPOS_big by (auto simp: shape_ok_def)
  moreover have "size_of_int (int i) = i" using i by (simp add: LUT_SIZE_def)
  ultimately show ?thesis
    using i assms(3) by (simp add: deleteOrder_def id_free_def Let_def)
qed

lemma side_free:
  assumes "side_ok buy mx n b" and "id_free b i" and "x \<in> set (levels b p)"
  shows "id_of x \<noteq> i"
proof -
  obtain c where c: "resting b p c" "x = book b ! p ! c" using assms(3) by (rule level_elemE)
  have "sid_at b p c \<noteq> i"
    by (rule fresh_not_resting [OF lob_invD(1) _ c(1)])
      (use assms(1,2) in \<open>auto simp: side_ok_def id_free_def\<close>)
  then show ?thesis by (simp add: c(2) sid_at_def id_of_def)
qed

interpretation bid_side: order_side "side_ok True mx" levels id_free get_optimal_price mx "\<lambda>p q. q < p"
  createOrder "\<lambda>b i. deleteOrder b (int i)"
proof
  fix n b i p x
  assume ok: "side_ok True mx n b"
  show "\<exists>b'. createOrder b x = Inr b' \<and> side_ok True mx (Suc n) b' \<and>
      levels b' = (levels b)(p := levels b p @ [x]) \<and> (\<forall>i. id_free b' i = (id_free b i \<and> i \<noteq> id_of x))"
    if "acceptable mx x" "id_free b (id_of x)" "Suc n < 2 ^ 31" "at_price p x"
    by (rule side_add [OF ok that])
  show "\<exists>b'. deleteOrder b (int i) = Inr b' \<and> side_ok True mx n b' \<and>
      levels b' = (\<lambda>q. remove_id i (levels b q)) \<and> (\<forall>j. id_free b' j = (id_free b j \<or> j = i))"
    if "i < LUT_SIZE" "\<not> id_free b i"
    by (rule side_cancel [OF ok that])
  show "\<exists>e. deleteOrder b (int i) = Inl e" if "i < LUT_SIZE" "id_free b i"
    using side_cancel_free [OF ok that] by blast
  show "id_of x \<noteq> i" if "id_free b i" "x \<in> set (levels b p)"
    by (rule side_free [OF ok that])
  show "\<not> get_optimal_price b < p" if "levels b p \<noteq> []"
    using ok that lob_invD(2) [of n b]
    by (auto simp: side_ok_def get_optimal_price_def best_ok_def better_def)
qed

interpretation ask_side: order_side "side_ok False mx" levels id_free get_optimal_price mx "\<lambda>p q. p < q"
  createOrder "\<lambda>b i. deleteOrder b (int i)"
proof
  fix n b i p x
  assume ok: "side_ok False mx n b"
  show "\<exists>b'. createOrder b x = Inr b' \<and> side_ok False mx (Suc n) b' \<and>
      levels b' = (levels b)(p := levels b p @ [x]) \<and> (\<forall>i. id_free b' i = (id_free b i \<and> i \<noteq> id_of x))"
    if "acceptable mx x" "id_free b (id_of x)" "Suc n < 2 ^ 31" "at_price p x"
    by (rule side_add [OF ok that])
  show "\<exists>b'. deleteOrder b (int i) = Inr b' \<and> side_ok False mx n b' \<and>
      levels b' = (\<lambda>q. remove_id i (levels b q)) \<and> (\<forall>j. id_free b' j = (id_free b j \<or> j = i))"
    if "i < LUT_SIZE" "\<not> id_free b i"
    by (rule side_cancel [OF ok that])
  show "\<exists>e. deleteOrder b (int i) = Inl e" if "i < LUT_SIZE" "id_free b i"
    using side_cancel_free [OF ok that] by blast
  show "id_of x \<noteq> i" if "id_free b i" "x \<in> set (levels b p)"
    by (rule side_free [OF ok that])
  show "\<not> p < get_optimal_price b" if "levels b p \<noteq> []"
    using ok that lob_invD(2) [of n b]
    by (auto simp: side_ok_def get_optimal_price_def best_ok_def better_def)
qed

end
