(* ===== verification/Demo.thy ===== *)
theory Demo
  imports Messages Float32
begin

text \<open>
  The orders of the examples: a price of 1.0 is the tick 10, a price of 110.7 the tick 1107.
\<close>

definition demo_order :: "u32 \<Rightarrow> char \<Rightarrow> char \<Rightarrow> f32 \<Rightarrow> u32 \<Rightarrow> LOBOrder" where
  "demo_order i side req pr q =
     \<lparr>arrival_cycle_count = 0, system_id = i, price = pr, quantity = q, trade_id = 1, order_type = side,
      req_type = req, out_cycle_count = 0\<rparr>"

lemma demo_order_sel [simp]:
  "system_id (demo_order i side req pr q) = i" "price (demo_order i side req pr q) = pr"
  "quantity (demo_order i side req pr q) = q" "trade_id (demo_order i side req pr q) = 1"
  "order_type (demo_order i side req pr q) = side" "req_type (demo_order i side req pr q) = req"
  by (simp_all add: demo_order_def)

lemma demo_order_quantity [simp]: "(demo_order i side req pr q)\<lparr>quantity := k\<rparr> = demo_order i side req pr k"
  by (simp add: demo_order_def)

definition one :: f32 where
  "one = 0x3F800000"

definition two :: f32 where
  "two = 0x40000000"

lemma demo_decode:
  "f32_decode one = FFin False (2 ^ 23) (- 23)" "f32_decode two = FFin False (2 ^ 23) (- 22)"
  by (simp_all add: one_def two_def f32_decode_def Let_def)

lemma demo_price [simp]: "price_index one = Inr 10" "price_index two = Inr 20"
  unfolding price_index_round [OF demo_decode(1)] price_index_round [OF demo_decode(2)]
  by (simp_all add: f32_eval f32_to_size_def f32_decode_def trunc_val_def)

end
