(* ===== verification/BookProps.thy ===== *)
theory BookProps
  imports BookSide Demo
begin

text \<open>
  What one side of the book promises (\<open>header/lob_struct.h\<close>): orders queue up at their level in
  the order they came, the best-price pointer is on the best level that has a live order, every
  operation keeps the invariant, and an id that is not in the book cannot be cancelled.
\<close>

lemma best_level:
  assumes inv: "lob_inv n b" and p: "levels b p \<noteq> []"
  shows "levels b (get_optimal_price b) \<noteq> []" and "\<not> better b p (get_optimal_price b)"
proof -
  note bo = lob_invD(2) [OF inv]
  have pmx: "p < max_price_possible b"
    using p lob_invD(3) [OF inv] by (auto simp: levels_def shape_ok_def split: if_splits)
  show top: "\<not> better b p (get_optimal_price b)"
    using bo p by (simp add: best_ok_def get_optimal_price_def)
  show "levels b (get_optimal_price b) \<noteq> []"
  proof
    assume none: "levels b (get_optimal_price b) = []"
    then have "get_optimal_price b = (if isBuy b then 0 else max_price_possible b)"
      using bo by (simp add: best_ok_def get_optimal_price_def)
    with top pmx p none show False by (cases "isBuy b"; cases p) (auto simp: better_def)
  qed
qed

lemma LOB_new_side:
  assumes "0 < mx" and "mx < 2 ^ 31"
  shows "side_ok buy mx 0 (LOB_new buy mx)" and "id_free (LOB_new buy mx) i"
  using LOB_new_inv(1) [OF assms, of 0] by (simp_all add: side_ok_def id_free_def LOB_new_def)

lemma side_fifo:
  assumes "side_ok buy mx n b" and "\<forall>x \<in> set xs. acceptable mx x \<and> id_free b (id_of x)"
    and "distinct (map id_of xs)" and "n + length xs < 2 ^ 31"
  shows "\<exists>b'. add_all createOrder b xs = Inr b' \<and> side_ok buy mx (n + length xs) b' \<and>
    (\<forall>p. levels b' p = levels b p @ filter (at_price p) xs)"
proof (cases buy)
  case True
  then show ?thesis using bid_side.add_all_fifo [where n = n and b = b and xs = xs and mx = mx] assms by simp
next
  case False
  then show ?thesis using ask_side.add_all_fifo [where n = n and b = b and xs = xs and mx = mx] assms by simp
qed

text \<open>
  C26. Time priority and the best price of a book: any sequence of acceptable orders with distinct
  ids is added to an empty book without a fault; every level then holds exactly its orders, in the
  order they came; the book's best-price pointer is on a level with orders, and no order has a
  better price than it.
\<close>
theorem book_time_and_price_priority:
  assumes "0 < mx" and "mx < 2 ^ 31" and "\<forall>x \<in> set xs. acceptable mx x"
    and "distinct (map id_of xs)" and "length xs < 2 ^ 31"
  shows "\<exists>b. add_all createOrder (LOB_new buy mx) xs = Inr b \<and> lob_inv (length xs) b \<and>
    (\<forall>p. levels b p = filter (at_price p) xs) \<and>
    (\<forall>x p. x \<in> set xs \<longrightarrow> at_price p x \<longrightarrow>
      levels b (get_optimal_price b) \<noteq> [] \<and>
      (if buy then p \<le> get_optimal_price b else get_optimal_price b \<le> p))"
proof -
  note new = LOB_new_side [OF assms(1,2)]
  obtain b where b: "add_all createOrder (LOB_new buy mx) xs = Inr b" "side_ok buy mx (length xs) b"
    "\<forall>p. levels b p = filter (at_price p) xs"
    using side_fifo [OF new(1) [of buy], of xs] assms(3-5) new(2) LOB_new_inv(2) [OF assms(1,2), of 0 buy] by auto
  then have inv: "lob_inv (length xs) b" and side: "isBuy b = buy" by (simp_all add: side_ok_def)
  have "levels b (get_optimal_price b) \<noteq> [] \<and>
      (if buy then p \<le> get_optimal_price b else get_optimal_price b \<le> p)"
    if "x \<in> set xs" "at_price p x" for x p
  proof -
    have "x \<in> set (levels b p)" using b(3) that by simp
    then have "levels b p \<noteq> []" by auto
    from best_level [OF inv this] side show ?thesis by (auto simp: better_def)
  qed
  with b inv show ?thesis by blast
qed

definition demo_orders :: "LOBOrder list" where
  "demo_orders = [demo_order 0 (CHR ''b'') (CHR ''c'') one 5, demo_order 1 (CHR ''b'') (CHR ''c'') two 7,
     demo_order 2 (CHR ''b'') (CHR ''c'') one 9]"

lemma demo_orders_ok:
  "\<forall>x \<in> set demo_orders. acceptable 30 x" "distinct (map id_of demo_orders)"
  by (simp_all add: demo_orders_def acceptable_def live_def id_of_def LUT_SIZE_def)

theorem book_time_and_price_priority_witness:
  "\<exists>b. add_all createOrder (LOB_new True 30) demo_orders = Inr b \<and>
    map (unat \<circ> quantity) (levels b 10) = [5, 9] \<and> 20 \<le> get_optimal_price b"
proof -
  let ?two = "demo_order 1 (CHR ''b'') (CHR ''c'') two 7"
  obtain b where b: "add_all createOrder (LOB_new True 30) demo_orders = Inr b"
    "\<forall>p. levels b p = filter (at_price p) demo_orders"
    "\<forall>x p. x \<in> set demo_orders \<longrightarrow> at_price p x \<longrightarrow>
      levels b (get_optimal_price b) \<noteq> [] \<and>
      (if True then p \<le> get_optimal_price b else get_optimal_price b \<le> p)"
    using book_time_and_price_priority [of 30 demo_orders True] demo_orders_ok
    by (auto simp: demo_orders_def)
  have "?two \<in> set demo_orders" "at_price 20 ?two"
    by (simp_all add: demo_orders_def at_price_def)
  with b(3) have "20 \<le> get_optimal_price b" by simp
  with b(1,2) show ?thesis by (simp add: demo_orders_def at_price_def)
qed

text \<open>
  C18. Adding an order to a book of either side and cancelling it by its id leaves every level and
  every lookup entry as it was, and the invariant holds again; cancelling the id once more faults.
\<close>
theorem book_add_cancel_roundtrip:
  assumes "lob_inv n b" and "acceptable (max_price_possible b) x" and "LUT b (id_of x) = (NPOS, NPOS)"
    and "Suc n < 2 ^ 31"
  shows "\<exists>b' b''. createOrder b x = Inr b' \<and> deleteOrder b' (int (id_of x)) = Inr b'' \<and>
    lob_inv (Suc n) b'' \<and> levels b'' = levels b \<and> (\<forall>i. LUT b'' i = (NPOS, NPOS) \<longleftrightarrow> LUT b i = (NPOS, NPOS)) \<and>
    deleteOrder b'' (int (id_of x)) = Inl OutOfBounds"
proof -
  let ?buy = "isBuy b" and ?mx = "max_price_possible b" and ?i = "id_of x"
  have ok: "side_ok ?buy ?mx n b" using assms(1) by (simp add: side_ok_def)
  have i: "?i < LUT_SIZE" using assms(2) by (simp add: acceptable_def)
  have fr: "id_free b ?i" using assms(3) by (simp add: id_free_def)
  obtain p where "price_index (price x) = Inr p" by (rule acceptableE [OF assms(2)])
  then have at: "at_price p x" by (simp add: at_price_def)
  obtain b' where b': "createOrder b x = Inr b'" "side_ok ?buy ?mx (Suc n) b'"
    "\<forall>i. id_free b' i \<longleftrightarrow> id_free b i \<and> i \<noteq> ?i"
    using side_add [OF ok assms(2) fr assms(4) at] by blast
  obtain b'' where b'': "deleteOrder b' (int ?i) = Inr b''" "side_ok ?buy ?mx (Suc n) b''"
    "\<forall>j. id_free b'' j \<longleftrightarrow> id_free b' j \<or> j = ?i"
    using side_cancel [OF b'(2) i] b'(3) by blast
  have "\<exists>c' c''. createOrder b x = Inr c' \<and> deleteOrder c' (int ?i) = Inr c'' \<and>
      levels c'' = levels b \<and> (\<forall>i. id_free c'' i = id_free b i)"
  proof (cases ?buy)
    case True
    then show ?thesis using bid_side.add_cancel [OF _ assms(2) fr assms(4)] ok by simp
  next
    case False
    then show ?thesis using ask_side.add_cancel [OF _ assms(2) fr assms(4)] ok by simp
  qed
  then have "levels b'' = levels b" "\<forall>i. id_free b'' i = id_free b i" using b'(1) b''(1) by auto
  moreover have "deleteOrder b'' (int ?i) = Inl OutOfBounds"
    by (rule side_cancel_free [OF b''(2) i]) (use b''(3) in simp)
  ultimately show ?thesis using b' b'' by (simp add: side_ok_def id_free_def)
qed

theorem book_add_cancel_roundtrip_witness:
  "\<exists>b' b''. createOrder (LOB_new False 30) (demo_order 7 (CHR ''s'') (CHR ''c'') one 5) = Inr b' \<and>
    deleteOrder b' 7 = Inr b'' \<and> deleteOrder b'' 7 = Inl OutOfBounds"
proof -
  let ?x = "demo_order 7 (CHR ''s'') (CHR ''c'') one 5"
  have "lob_inv 0 (LOB_new False 30)" by (rule LOB_new_inv(1)) simp_all
  moreover have "acceptable (max_price_possible (LOB_new False 30)) ?x" "LUT (LOB_new False 30) (id_of ?x) = (NPOS, NPOS)"
    by (simp_all add: LOB_new_def acceptable_def live_def id_of_def LUT_SIZE_def)
  moreover have "id_of ?x = 7" by (simp add: id_of_def)
  ultimately show ?thesis using book_add_cancel_roundtrip [of 0 "LOB_new False 30" ?x] by auto
qed

subsection \<open>Changes of a quantity\<close>

lemma level_id:
  assumes inv: "core_inv n b" and rest: "resting b p c" and x: "x \<in> set (levels b q)"
    and i: "unat (system_id x) = sid_at b p c"
  shows "q = p" and "x = book b ! p ! c"
proof -
  obtain d where d: "resting b q d" "x = book b ! q ! d" using x by (rule level_elemE)
  have "p = q \<and> c = d"
    by (rule resting_unique [OF inv rest d(1)]) (use i d(2) in \<open>simp add: sid_at_def\<close>)
  with d(2) show "q = p" "x = book b ! p ! c" by simp_all
qed

lemma requantify_other:
  assumes "core_inv n b" and "resting b p c" and "q \<noteq> p"
  shows "requantify (sid_at b p c) k (levels b q) = levels b q"
  unfolding requantify_def by (rule map_idI) (use level_id [OF assms(1,2)] assms(3) in auto)

lemma requantify_same:
  assumes "core_inv n b" and "resting b p c"
  shows "requantify (sid_at b p c) (quantity (book b ! p ! c)) (levels b q) = levels b q"
proof -
  have "x\<lparr>quantity := quantity (book b ! p ! c)\<rparr> = x"
    if "x \<in> set (levels b q)" "unat (system_id x) = sid_at b p c" for x
    using level_id(2) [OF assms that] by simp
  then show ?thesis unfolding requantify_def by (auto intro: map_idI)
qed

text \<open>
  A change of the quantity of a resting order to a quantity other than 0 never faults, keeps
  the invariant and touches its level only; an order that asks for no more than it had keeps its
  place in the queue, an order that asks for more goes to the end of it.
\<close>
theorem book_update_keeps_priority:
  assumes inv: "lob_inv n b" and rest: "resting b p c" and i: "unat (system_id x) = sid_at b p c"
    and px: "price_index (price x) = Inr p" and nz: "quantity x \<noteq> 0" and n: "Suc n < 2 ^ 31"
  shows "\<exists>b'. UpdateOrderQuantity b x = Inr b' \<and> lob_inv (Suc n) b' \<and>
    (\<forall>q. q \<noteq> p \<longrightarrow> levels b' q = levels b q) \<and>
    levels b' p =
      (if quantity x \<le> quantity (book b ! p ! c)
       then requantify (sid_at b p c) (quantity x) (levels b p)
       else remove_id (sid_at b p c) (levels b p) @ [x])"
proof -
  let ?old = "quantity (book b ! p ! c)"
  note core = lob_invD(1) [OF inv]
  have up: "lob_inv n b' \<Longrightarrow> lob_inv (Suc n) b'" for b'
    using n by (auto simp: lob_inv_defs)
  consider "quantity x < ?old" | "quantity x = ?old" | "?old < quantity x"
    by (rule linorder_cases)
  then show ?thesis
  proof cases
    case 1
    obtain b' where "UpdateOrderQuantity b x = Inr b'" "lob_inv n b'"
      "levels b' = (\<lambda>q. requantify (sid_at b p c) (quantity x) (levels b q))"
      by (rule update_decrease [OF inv rest i 1 nz])
    with 1 up requantify_other [OF core rest] show ?thesis by auto
  next
    case 2
    then have "UpdateOrderQuantity b x = Inr b" by (simp add: UpdateOrderQuantity_eq [OF core rest i])
    with 2 inv up requantify_same [OF core rest] show ?thesis by auto
  next
    case 3
    obtain b' where "UpdateOrderQuantity b x = Inr b'" "lob_inv (Suc n) b'"
      "levels b' = (\<lambda>q. if q = p then remove_id (sid_at b p c) (levels b p) @ [x] else levels b q)"
      by (rule update_increase [OF inv rest i 3 px n])
    with 3 show ?thesis by auto
  qed
qed

text \<open>A book with one order, for the examples.\<close>

lemma demo_book:
  obtains b where "createOrder (LOB_new False 30) (demo_order 7 (CHR ''s'') (CHR ''c'') one 5) = Inr b"
    and "lob_inv 1 b" and "resting b 10 0" and "sid_at b 10 0 = 7"
    and "book b ! 10 ! 0 = demo_order 7 (CHR ''s'') (CHR ''c'') one 5"
    and "levels b 10 = [demo_order 7 (CHR ''s'') (CHR ''c'') one 5]" and "\<forall>q. q \<noteq> 10 \<longrightarrow> levels b q = []"
    and "best_price b = 10" and "max_price_possible b = 30" and "isBuy b = False"
proof -
  let ?x = "demo_order 7 (CHR ''s'') (CHR ''c'') one 5" and ?b = "LOB_new False 30"
  have inv: "lob_inv 0 ?b" by (rule LOB_new_inv(1)) simp_all
  obtain b where b: "createOrder ?b ?x = Inr b" "lob_inv (Suc 0) b"
    "levels b = (levels ?b)(10 := levels ?b 10 @ [?x])" "isBuy b = isBuy ?b"
    "max_price_possible b = max_price_possible ?b"
    "best_price b = (if better ?b 10 (best_price ?b) then 10 else best_price ?b)"
    by (rule createOrder_inv [OF inv, of ?x 10 7])
      (simp_all add: LOB_new_def live_def LUT_SIZE_def)
  have "book b = (book ?b)[10 := book ?b ! 10 @ [?x]]"
    using b(1) by (auto simp: createOrder_def Let_def split: if_splits)
  then have bk: "book b ! 10 = [?x]" "10 < length (book b)" by (simp_all add: LOB_new_def nth_list_update)
  have "levels ?b q = []" for q by (rule LOB_new_inv(2) [where n = 0]) simp_all
  with b(3) have "levels b 10 = [?x]" "\<forall>q. q \<noteq> 10 \<longrightarrow> levels b q = []" by simp_all
  then show thesis
    using that [OF b(1)] b(2,4-6) bk by (simp add: resting_def sid_at_def live_def LOB_new_def better_def)
qed

theorem book_update_keeps_priority_witness:
  "\<exists>b b'. createOrder (LOB_new False 30) (demo_order 7 (CHR ''s'') (CHR ''c'') one 5) = Inr b \<and>
    UpdateOrderQuantity b (demo_order 7 (CHR ''s'') (CHR ''u'') one 8) = Inr b' \<and>
    levels b' 10 = [demo_order 7 (CHR ''s'') (CHR ''u'') one 8]"
proof -
  obtain b where b: "createOrder (LOB_new False 30) (demo_order 7 (CHR ''s'') (CHR ''c'') one 5) = Inr b"
    "lob_inv 1 b" "resting b 10 0" "sid_at b 10 0 = 7"
    "book b ! 10 ! 0 = demo_order 7 (CHR ''s'') (CHR ''c'') one 5"
    "levels b 10 = [demo_order 7 (CHR ''s'') (CHR ''c'') one 5]"
    by (rule demo_book)
  obtain b' where "UpdateOrderQuantity b (demo_order 7 (CHR ''s'') (CHR ''u'') one 8) = Inr b'"
    "levels b' 10 = remove_id 7 (levels b 10) @ [demo_order 7 (CHR ''s'') (CHR ''u'') one 8]"
    using book_update_keeps_priority [OF b(2,3), of "demo_order 7 (CHR ''s'') (CHR ''u'') one 8"] b(4,5)
    by auto
  with b(1,6) show ?thesis by (simp add: remove_id_def)
qed

text \<open>
  A change of the quantity of a resting order to 0 removes it from the live orders but from
  nothing else: the table still names it, the level's counter still counts it and the best price
  still points at it, so the invariant of the book is lost whatever its size bound.
\<close>
theorem book_update_to_zero_leaves_ghost:
  assumes inv: "lob_inv n b" and rest: "resting b p c" and i: "unat (system_id x) = sid_at b p c"
    and z: "quantity x = 0"
  shows "\<exists>b'. UpdateOrderQuantity b x = Inr b' \<and> levels b' = (\<lambda>q. remove_id (sid_at b p c) (levels b q)) \<and>
    LUT b' (sid_at b p c) = (p, c) \<and> active_counts b' ! p = int (length (levels b p)) \<and>
    best_price b' = best_price b \<and> (\<forall>m. \<not> lob_inv m b')"
proof -
  note core = lob_invD(1) [OF inv] and R = restingD [OF rest]
  let ?b = "set_quantity b p c 0"
  have up: "UpdateOrderQuantity b x = Inr ?b"
    using R(3) z by (simp add: UpdateOrderQuantity_eq [OF core rest i] live_def word_gt_0)
  have lut: "LUT ?b (sid_at b p c) = (p, c)" using core_resting(2) [OF core rest] by simp
  have "\<not> lut_ok ?b"
  proof
    assume "lut_ok ?b"
    moreover have "sid_at b p c < LUT_SIZE" by (rule core_resting(1) [OF core rest])
    moreover have "(p, c) \<noteq> (NPOS, NPOS)" using core_resting(4) [OF core rest] NPOS_big by auto
    ultimately have "resting ?b p c" using lut unfolding lut_ok_def by (metis prod.inject)
    then show False by (simp add: set_quantity_resting [OF R(1,2)])
  qed
  then have "\<not> lob_inv m ?b" for m by (simp add: lob_inv_def core_inv_def)
  moreover have "active_counts ?b ! p = int (length (levels b p))"
    using core R(1) by (simp add: core_inv_def counts_ok_def)
  ultimately show ?thesis using up lut remove_id_levels [OF core rest] by (intro exI [of _ ?b]) auto
qed

theorem book_update_to_zero_leaves_ghost_witness:
  "\<exists>b b'. createOrder (LOB_new False 30) (demo_order 7 (CHR ''s'') (CHR ''c'') one 5) = Inr b \<and>
    UpdateOrderQuantity b (demo_order 7 (CHR ''s'') (CHR ''u'') one 0) = Inr b' \<and>
    levels b' 10 = [] \<and> best_price b' = 10 \<and> active_counts b' ! 10 = 1 \<and> \<not> lob_inv 1 b'"
proof -
  obtain b where b: "createOrder (LOB_new False 30) (demo_order 7 (CHR ''s'') (CHR ''c'') one 5) = Inr b"
    "lob_inv 1 b" "resting b 10 0" "sid_at b 10 0 = 7"
    "levels b 10 = [demo_order 7 (CHR ''s'') (CHR ''c'') one 5]" "best_price b = 10"
    by (rule demo_book)
  with book_update_to_zero_leaves_ghost [OF b(2,3), of "demo_order 7 (CHR ''s'') (CHR ''u'') one 0"]
  show ?thesis by (auto simp: remove_id_def)
qed

end
