(* ===== verification/Matching.thy ===== *)
theory Matching
  imports LimitBook LFQueue
begin

text \<open>
  \<open>matching/matching.cpp\<close>: the matching engine, method by method.

  What the engine cannot compute itself is the parameter \<open>hw\<close>: the readings of the time stamp
  counter (\<open>rdtscp\<close>), and how far the threads at the other ends of the three outgoing queues
  have come each time the engine asks for a slot.  \<open>clk\<close> and \<open>acc\<close> count the readings and the
  accesses so far.  A \<open>std::this_thread::yield()\<close> has no effect of its own: the next access
  asks \<open>hw\<close> again.

  The order a method gets by reference is passed in and returned.  \<open>deleteOrder\<close> is also called
  with a reference into the book (by \<open>updateOrder\<close>), whose quantity the deletion sets to 0
  before it is logged and broadcast, so its argument is an \<open>order_ref\<close>.
\<close>

record hw =
  tsc :: "nat \<Rightarrow> u64"
  ack_env :: "nat \<Rightarrow> nat"
  bcast_env :: "nat \<Rightarrow> nat"
  log_env :: "nat \<Rightarrow> nat"

record ME =
  LobOrderQueue :: "LOBOrder LFQueue"
  LobAck :: "LOBAck port"
  BroadCastQ :: "BroadCast port"
  matchLog :: "LogElement port"
  BuyOrderBook :: LOB
  SellOrderBook :: LOB
  QueueTime :: "u64 list"
  Throughtput :: "u64 list"
  matchingProcessingTime :: "u64 list"
  tickToTrade :: "u64 list"
  lastOrderTime :: u64
  clk :: nat
  acc :: nat

datatype order_ref = Local LOBOrder | InBook nat nat

definition ME_new :: "nat \<Rightarrow> nat \<Rightarrow> ME" where
  "ME_new max_price_ticks qsize =
     \<lparr>LobOrderQueue = LFQueue_new qsize LOBOrder_init, LobAck = port_new qsize LOBAck_init,
      BroadCastQ = port_new qsize BroadCast_init, matchLog = port_new qsize LogElement_init,
      BuyOrderBook = LOB_new True max_price_ticks, SellOrderBook = LOB_new False max_price_ticks,
      QueueTime = [], Throughtput = [], matchingProcessingTime = [], tickToTrade = [],
      lastOrderTime = 0, clk = 0, acc = 0\<rparr>"

text \<open>The book an order matches against and the book it rests in.\<close>

definition opp :: "bool \<Rightarrow> ME \<Rightarrow> LOB" where
  "opp is_buy s = (if is_buy then SellOrderBook s else BuyOrderBook s)"

definition own :: "bool \<Rightarrow> ME \<Rightarrow> LOB" where
  "own is_buy s = (if is_buy then BuyOrderBook s else SellOrderBook s)"

definition set_opp :: "bool \<Rightarrow> LOB \<Rightarrow> ME \<Rightarrow> ME" where
  "set_opp is_buy b s = (if is_buy then s\<lparr>SellOrderBook := b\<rparr> else s\<lparr>BuyOrderBook := b\<rparr>)"

definition set_own :: "bool \<Rightarrow> LOB \<Rightarrow> ME \<Rightarrow> ME" where
  "set_own is_buy b s = (if is_buy then s\<lparr>BuyOrderBook := b\<rparr> else s\<lparr>SellOrderBook := b\<rparr>)"

definition deref :: "bool \<Rightarrow> order_ref \<Rightarrow> ME \<Rightarrow> LOBOrder" where
  "deref is_buy r s = (case r of Local ord \<Rightarrow> ord | InBook p c \<Rightarrow> book (own is_buy s) ! p ! c)"

definition now_cycle :: "hw \<Rightarrow> ME \<Rightarrow> u64 \<times> ME" where
  "now_cycle H s = (tsc H (clk s), s\<lparr>clk := Suc (clk s)\<rparr>)"

text \<open>
  The log pattern of the source: one attempt to get a slot of \<open>matchLog\<close>; the element is
  dropped when there is none.
\<close>

definition log_write :: "hw \<Rightarrow> u64 \<Rightarrow> u64 \<Rightarrow> log_variant \<Rightarrow> ME \<Rightarrow> ME" where
  "log_write H lid t v s =
     (let (_, p) = publish (log_env H (acc s)) \<lparr>log_id = lid, timestamp = t, log_data = v\<rparr> (matchLog s)
      in s\<lparr>matchLog := p, acc := Suc (acc s)\<rparr>)"

text \<open>One attempt on the acknowledgement queue.\<close>

definition ack_attempt :: "hw \<Rightarrow> LOBAck \<Rightarrow> ME \<Rightarrow> bool \<times> ME" where
  "ack_attempt H a s =
     (let (b, p) = publish (ack_env H (acc s)) a (LobAck s)
      in (b, s\<lparr>LobAck := p, acc := Suc (acc s)\<rparr>))"

definition Ack :: "hw \<Rightarrow> LOBOrder \<Rightarrow> nat \<Rightarrow> char \<Rightarrow> u32 \<Rightarrow> ME \<Rightarrow> ME" where
  "Ack H ord best_price_ask rtype trade_quantity s =
     (let a = \<lparr>la_system_id = system_id ord, la_price = f32_of_nat best_price_ask,
               la_quantity = trade_quantity, la_side = order_type ord, la_status = rtype\<rparr>;
          (b, s1) = ack_attempt H a s
      in if b then s1 else snd (ack_attempt H a s1))"

definition bcast_attempt :: "hw \<Rightarrow> BroadCast \<Rightarrow> ME \<Rightarrow> bool \<times> ME" where
  "bcast_attempt H x s =
     (let (b, p) = publish (bcast_env H (acc s)) x (BroadCastQ s)
      in (b, s\<lparr>BroadCastQ := p, acc := Suc (acc s)\<rparr>))"

partial_function (option) bcast_spin :: "hw \<Rightarrow> BroadCast \<Rightarrow> ME \<Rightarrow> ME option" where
  "bcast_spin H msg s =
     (if fst (bcast_attempt H msg s) then Some (snd (bcast_attempt H msg s))
      else bcast_spin H msg (snd (bcast_attempt H msg s)))"

definition changeInQuantity :: "hw \<Rightarrow> u32 \<Rightarrow> f32 \<Rightarrow> u32 \<Rightarrow> char \<Rightarrow> char \<Rightarrow> ME \<Rightarrow> ME outcome" where
  "changeInQuantity H sid pr qty rtype otype s =
     map_option Inr (bcast_spin H \<lparr>bc_system_id = sid, bc_price = pr, bc_quantity = qty,
       bc_side = otype, bc_type = rtype\<rparr> s)"

text \<open>
  The range-based \<open>for\<close> over one level in \<open>aggresiveMatch\<close>: \<open>cs\<close> are the columns still to visit.
\<close>

fun match_level :: "hw \<Rightarrow> bool \<Rightarrow> nat \<Rightarrow> nat list \<Rightarrow> ME \<Rightarrow> LOBOrder \<Rightarrow> (ME \<times> LOBOrder) result" where
  "match_level H is_buy idx [] s order = Inr (s, order)"
| "match_level H is_buy idx (c # cs) s order =
     (let ord = book (opp is_buy s) ! idx ! c
      in if quantity ord = 0 then match_level H is_buy idx cs s order
         else
           let trade = (if quantity ord < quantity order then quantity ord else quantity order);
               order' = order\<lparr>quantity := quantity order - trade\<rparr>;
               ord' = ord\<lparr>quantity := quantity ord - trade\<rparr>;
               s1 = set_opp is_buy (set_quantity (opp is_buy s) idx c (quantity ord')) s;
               (trade_done, s2) = now_cycle H s1;
               s3 = log_write H ME_AGGRESSIVE_MATCH trade_done (VLOBOrder order') s2;
               s4 = (if trade_id order' = 1 then Ack H order' idx (CHR ''T'') trade s3 else s3);
               s5 = (if trade_id ord' = 1 then Ack H ord' idx (CHR ''T'') trade s4 else s4)
           in bindR (if quantity ord' = 0
                     then bindR (deleteOrder (opp is_buy s5) (int_of_size (unat (system_id ord'))))
                            (\<lambda>b. Inr (set_opp is_buy b s5))
                     else Inr s5)
                (\<lambda>s6. if quantity order' = 0 then Inr (s6, order')
                      else match_level H is_buy idx cs s6 order'))"

text \<open>
  \<open>aggresiveMatch\<close>: both branches of the source, which differ in the book they look in and in
  the direction of the comparison that ends the loop.  The outer \<open>while\<close> is the recursion.
\<close>

partial_function (option) aggresiveMatch ::
  "hw \<Rightarrow> bool \<Rightarrow> ME \<Rightarrow> LOBOrder \<Rightarrow> (ME \<times> LOBOrder) outcome" where
  "aggresiveMatch H is_buy s order =
     (if quantity order = 0 then Some (Inr (s, order))
      else bindO (Some (price_index (price order))) (\<lambda>pr.
        let best = get_optimal_price (opp is_buy s)
        in if (if is_buy then pr < best else best < pr) then Some (Inr (s, order))
           else case get_order_at_prize (opp is_buy s) best of
             None \<Rightarrow> Some (Inr (s, order))
           | Some l \<Rightarrow>
               if book (opp is_buy s) ! l = [] then Some (Inr (s, order))
               else bindO (Some (match_level H is_buy l [0..<length (book (opp is_buy s) ! l)] s order))
                      (\<lambda>r. aggresiveMatch H is_buy (fst r) (snd r))))"

definition side_char :: "bool \<Rightarrow> char" where
  "side_char is_buy = (if is_buy then CHR ''B'' else CHR ''S'')"

text \<open>\<open>if (order.trade_id == 1) Ack(order, static_cast<size_t>(order.price * 10), t, q)\<close>.\<close>

definition ack_sniper :: "hw \<Rightarrow> LOBOrder \<Rightarrow> char \<Rightarrow> ME \<Rightarrow> ME result" where
  "ack_sniper H ord rtype s =
     (if trade_id ord = 1
      then bindR (price_index (price ord)) (\<lambda>i. Inr (Ack H ord i rtype (quantity ord) s))
      else Inr s)"

definition create_order :: "hw \<Rightarrow> LOBOrder \<Rightarrow> bool \<Rightarrow> ME \<Rightarrow> (u64 \<times> LOBOrder \<times> ME) outcome" where
  "create_order H order is_buy s =
     bindO (aggresiveMatch H is_buy s order) (\<lambda>(s1, ord).
       bindO (if quantity ord \<noteq> 0
              then bindO (Some (createOrder (own is_buy s1) ord)) (\<lambda>b.
                let (orderCreaetd, s2) = now_cycle H (set_own is_buy b s1);
                    s3 = log_write H LOB_CREATE_ORDER orderCreaetd (VLOBOrder ord) s2
                in bindO (changeInQuantity H (system_id ord) (price ord) (quantity ord) (CHR ''N'')
                            (side_char is_buy) s3)
                     (\<lambda>s4. Some (ack_sniper H ord (CHR ''N'') s4)))
              else Some (Inr s1))
         (\<lambda>s5. let (processFinish, s6) = now_cycle H s5 in Some (Inr (processFinish, ord, s6))))"

definition deleteOrder_ME :: "hw \<Rightarrow> order_ref \<Rightarrow> bool \<Rightarrow> ME \<Rightarrow> (u64 \<times> ME) outcome" where
  "deleteOrder_ME H r is_buy s =
     bindO (Some (deleteOrder (own is_buy s) (int_of_size (unat (system_id (deref is_buy r s)))))) (\<lambda>b.
       let (deleteDone, s1) = now_cycle H (set_own is_buy b s);
           ord = deref is_buy r s1;
           s2 = log_write H LOB_DELETE_ORDER deleteDone (VLOBOrder ord) s1
       in bindO (changeInQuantity H (system_id ord) (price ord) (quantity ord) (CHR ''D'')
                   (side_char is_buy) s2)
            (\<lambda>s3. bindO (Some (ack_sniper H ord (CHR ''D'') s3))
              (\<lambda>s4. let (processFinish, s5) = now_cycle H s4 in Some (Inr (processFinish, s5)))))"

definition updateOrder :: "hw \<Rightarrow> LOBOrder \<Rightarrow> bool \<Rightarrow> ME \<Rightarrow> (u64 \<times> LOBOrder \<times> ME) outcome" where
  "updateOrder H order is_buy s =
     bindO (Some (peekOrder (own is_buy s) (system_id order))) (\<lambda>previous_entry.
       case previous_entry of
         None \<Rightarrow> Some (Inr (0, order, s))
       | Some (p, c) \<Rightarrow>
           let prev = book (own is_buy s) ! p ! c;
               quantity_change = (quantity order \<noteq> quantity prev);
               price_change = (\<not> f32_eq (price order) (price prev))
           in bindO
                (if price_change
                 then bindO (deleteOrder_ME H (InBook p c) is_buy s)
                        (\<lambda>(_, s1). bindO (create_order H order is_buy s1)
                          (\<lambda>(_, order', s2). Some (Inr (order', s2))))
                 else if quantity_change
                 then bindO (Some (UpdateOrderQuantity (own is_buy s) order)) (\<lambda>b.
                   let (updated_at, s1) = now_cycle H (set_own is_buy b s);
                       s2 = log_write H LOB_UPDATE_QUANTITY updated_at (VLOBOrder order) s1
                   in bindO (changeInQuantity H (system_id order) (price order) (quantity order)
                               (CHR ''U'') (side_char is_buy) s2)
                        (\<lambda>s3. bindO (Some (ack_sniper H order (CHR ''U'') s3))
                          (\<lambda>s4. Some (Inr (order, s4)))))
                 else Some (Inr (order, s)))
                (\<lambda>(order', s5). let (processFinish, s6) = now_cycle H s5
                                in Some (Inr (processFinish, order', s6))))"

definition readOrder :: "hw \<Rightarrow> ME \<Rightarrow> ME outcome" where
  "readOrder H s =
     (case getNextToRead (LobOrderQueue s) of
        None \<Rightarrow> Some (Inr s)
      | Some i \<Rightarrow>
          let order = read_slot i (LobOrderQueue s);
              (arrivalCycle, s1) = now_cycle H s;
              s2 = s1\<lparr>QueueTime := QueueTime s1 @ [arrivalCycle - out_cycle_count order]\<rparr>;
              s3 = log_write H ME_RECEIVE_ORDER arrivalCycle (VLOBOrder order) s2;
              s4 = (if lastOrderTime s3 \<noteq> 0
                    then s3\<lparr>Throughtput := Throughtput s3 @ [arrivalCycle - lastOrderTime s3]\<rparr> else s3);
              s5 = s4\<lparr>lastOrderTime := arrivalCycle\<rparr>;
              (processingOrderStart, s6) = now_cycle H s5;
              is_buy = (order_type order = CHR ''b'')
          in bindO
               (if req_type order = CHR ''c'' then create_order H order is_buy s6
                else if req_type order = CHR ''u'' then updateOrder H order is_buy s6
                else if req_type order = CHR ''d''
                then bindO (deleteOrder_ME H (Local order) is_buy s6)
                       (\<lambda>(t, s7). Some (Inr (t, order, s7)))
                else Some (Inr (0, order, s6)))
               (\<lambda>(processEndTime, order', s8).
                 bindO (Some (updateReadIndex (write_slot i order' (LobOrderQueue s8)))) (\<lambda>q.
                   Some (Inr (s8\<lparr>LobOrderQueue := q,
                     matchingProcessingTime := matchingProcessingTime s8 @ [processEndTime - arrivalCycle],
                     tickToTrade := tickToTrade s8 @ [processEndTime - arrival_cycle_count order']\<rparr>)))))"

text \<open>The loop of \<open>matchingEngine\<close>: \<open>k\<close> turns before \<open>terminate_engine\<close> is seen set.\<close>

fun engine_turns :: "hw \<Rightarrow> nat \<Rightarrow> ME \<Rightarrow> ME outcome" where
  "engine_turns H 0 s = Some (Inr s)"
| "engine_turns H (Suc k) s = bindO (readOrder H s) (engine_turns H k)"

end
