(* ===== verification/MatchSpec.thy ===== *)
theory MatchSpec
  imports Messages
begin

text \<open>
  What matching promises, without vectors, tables, counters or best-price pointers.  A side of
  the book is a function from level indices to the queue of live orders there.  An incoming
  quantity is filled against one queue from its front (\<open>fill\<close>), and against the levels it can
  trade with in the order of their price (\<open>match_walk\<close>): price priority, then time priority.
  \<open>walk_execs\<close> lists the executions in the order they happen.
\<close>

fun fill :: "u32 \<Rightarrow> LOBOrder list \<Rightarrow> LOBOrder list \<times> u32" where
  "fill q [] = ([], q)"
| "fill q (x # xs) =
     (if q = 0 then (x # xs, 0)
      else if quantity x \<le> q then fill (q - quantity x) xs
      else (x\<lparr>quantity := quantity x - q\<rparr> # xs, 0))"

text \<open>
  One execution: the level it happens at, the resting order as it was, the quantity that changes
  hands, and what is left of the incoming order and of the resting order.
\<close>

record execution =
  at_level :: nat
  maker :: LOBOrder
  traded :: u32
  taker_left :: u32
  maker_left :: u32

fun fill_execs :: "nat \<Rightarrow> u32 \<Rightarrow> LOBOrder list \<Rightarrow> execution list" where
  "fill_execs p q [] = []"
| "fill_execs p q (x # xs) =
     (if q = 0 then []
      else let t = min (quantity x) q
           in \<lparr>at_level = p, maker = x, traded = t, taker_left = q - t, maker_left = quantity x - t\<rparr>
              # fill_execs p (q - t) xs)"

fun match_walk :: "nat list \<Rightarrow> u32 \<Rightarrow> (nat \<Rightarrow> LOBOrder list) \<Rightarrow> (nat \<Rightarrow> LOBOrder list) \<times> u32" where
  "match_walk [] q lv = (lv, q)"
| "match_walk (p # ps) q lv = (let (os, q') = fill q (lv p) in match_walk ps q' (lv(p := os)))"

fun walk_execs :: "nat list \<Rightarrow> u32 \<Rightarrow> (nat \<Rightarrow> LOBOrder list) \<Rightarrow> execution list" where
  "walk_execs [] q lv = []"
| "walk_execs (p # ps) q lv =
     fill_execs p q (lv p) @ walk_execs ps (snd (fill q (lv p))) (lv(p := fst (fill q (lv p))))"

text \<open>The levels an order with level index \<open>limit\<close> can trade with, best first.\<close>

definition path :: "bool \<Rightarrow> nat \<Rightarrow> nat \<Rightarrow> nat list" where
  "path is_buy mx limit = (if is_buy then [0..<min mx (Suc limit)] else rev [limit..<mx])"

definition qty_sum :: "LOBOrder list \<Rightarrow> nat" where
  "qty_sum os = sum_list (map (unat \<circ> quantity) os)"

lemma qty_sum_simps [simp]:
  "qty_sum [] = 0"
  "qty_sum (x # xs) = unat (quantity x) + qty_sum xs"
  "qty_sum (xs @ ys) = qty_sum xs + qty_sum ys"
  by (simp_all add: qty_sum_def)

subsection \<open>Filling one queue\<close>

lemma fill_zero [simp]: "fill 0 os = (os, 0)"
  by (cases os) simp_all

text \<open>Filling again with what is left changes nothing.\<close>

lemma fill_again: "fill q os = (os', q') \<Longrightarrow> fill q' os' = (os', q')"
  by (induction q os rule: fill.induct) (auto split: if_splits)

lemma fill_rest: "fill q os = (os', q') \<Longrightarrow> q' \<noteq> 0 \<Longrightarrow> os' = []"
  by (induction q os rule: fill.induct) (auto split: if_splits)

lemma unat_minus_le: "b \<le> a \<Longrightarrow> unat (a - b :: u32) = unat a - unat b"
  by (simp add: unat_sub)

text \<open>What the incoming order loses is what the queue loses: no quantity appears or vanishes.\<close>

lemma fill_conserves:
  "fill q os = (os', q') \<Longrightarrow> qty_sum os + unat q' = qty_sum os' + unat q \<and> unat q' \<le> unat q"
proof (induction q os rule: fill.induct)
  case (2 q x xs)
  consider "q = 0" | "q \<noteq> 0" "quantity x \<le> q" | "q \<noteq> 0" "\<not> quantity x \<le> q" by blast
  then show ?case
  proof cases
    case 2
    with "2.IH" "2.prems" show ?thesis
      by (auto simp: unat_minus_le word_le_nat_alt)
  next
    case 3
    with "2.prems" show ?thesis by (auto simp: unat_minus_le word_le_nat_alt)
  qed (use "2.prems" in auto)
qed auto

lemma fill_amount:
  "fill q os = (os', q') \<Longrightarrow> unat q' = unat q - qty_sum os"
proof (induction q os rule: fill.induct)
  case (2 q x xs)
  consider "q = 0" | "q \<noteq> 0" "quantity x \<le> q" | "q \<noteq> 0" "\<not> quantity x \<le> q" by blast
  then show ?case
  proof cases
    case 2
    with "2.IH" "2.prems" show ?thesis by (auto simp: unat_minus_le word_le_nat_alt)
  next
    case 3
    with "2.prems" show ?thesis by (auto simp: word_le_nat_alt)
  qed (use "2.prems" in auto)
qed auto

lemma fill_live: "fill q os = (os', q') \<Longrightarrow> \<forall>x \<in> set os. quantity x \<noteq> 0 \<Longrightarrow> \<forall>x \<in> set os'. quantity x \<noteq> 0"
proof (induction q os rule: fill.induct)
  case (2 q x xs)
  show ?case
  proof (cases "q = 0 \<or> quantity x \<le> q")
    case True
    with 2 show ?thesis by (auto split: if_splits)
  next
    case False
    then have "quantity x - q \<noteq> 0" by auto
    with False 2 show ?thesis by auto
  qed
qed auto

text \<open>A resting order is traded with before the orders behind it: the makers are a prefix.\<close>

lemma fill_execs_zero [simp]: "fill_execs p 0 os = []"
  by (cases os) simp_all

lemma fill_execs_makers:
  "map maker (fill_execs p q os) = take (length (fill_execs p q os)) os"
  by (induction p q os rule: fill_execs.induct) (auto simp: Let_def)

lemma fill_execs_level: "e \<in> set (fill_execs p q os) \<Longrightarrow> at_level e = p"
  by (induction p q os rule: fill_execs.induct) (auto simp: Let_def split: if_splits)

text \<open>All of them but the last are filled completely.\<close>

lemma fill_execs_sum:
  "fill q os = (os', q') \<Longrightarrow> sum_list (map (unat \<circ> traded) (fill_execs p q os)) + unat q' = unat q"
proof (induction q os arbitrary: p rule: fill.induct)
  case (2 q x xs)
  consider "q = 0" | "q \<noteq> 0" "quantity x \<le> q" | "q \<noteq> 0" "\<not> quantity x \<le> q" by blast
  then show ?case
  proof cases
    case 2
    with "2.IH" [of p] "2.prems" show ?thesis
      by (simp add: min_def unat_minus_le word_le_nat_alt Let_def)
  next
    case 3
    with "2.prems" have "min (quantity x) q = q" by (simp add: min_def)
    with 3 "2.prems" show ?thesis by auto
  qed (use "2.prems" in auto)
qed simp

subsection \<open>Walking the levels\<close>

lemma match_walk_zero [simp]: "match_walk ps 0 lv = (lv, 0)"
  by (induction ps arbitrary: lv) simp_all

lemma match_walk_empty: "\<forall>p \<in> set ps. lv p = [] \<Longrightarrow> match_walk ps q lv = (lv, q)"
  by (induction ps) (simp_all add: fun_upd_idem)

lemma match_walk_append:
  "match_walk (ps @ rs) q lv = (case match_walk ps q lv of (lv', q') \<Rightarrow> match_walk rs q' lv')"
  by (induction ps arbitrary: q lv) (simp_all split: prod.splits)

text \<open>
  Filling the first level that has orders, ahead of the walk, does not change what the walk
  computes: one turn of the engine's loop.
\<close>

lemma match_walk_ahead:
  assumes "p \<in> set ps" and "distinct ps" and "\<forall>r \<in> set (takeWhile (\<lambda>r. r \<noteq> p) ps). lv r = []"
    and "fill q (lv p) = (os, q')"
  shows "match_walk ps q lv = match_walk ps q' (lv(p := os))"
proof -
  obtain xs ys where ps: "ps = xs @ p # ys" and xs: "p \<notin> set xs"
    using assms(1) by (auto dest: split_list_first)
  have "takeWhile (\<lambda>r. r \<noteq> p) ps = xs"
    using ps xs by (auto simp: takeWhile_tail)
  with assms(3) have emp: "\<forall>r \<in> set xs. lv r = []" by simp
  then have emp': "\<forall>r \<in> set xs. (lv(p := os)) r = []" using xs by auto
  have "match_walk ps q lv = match_walk ys q' (lv(p := os))"
    using emp assms(4) by (simp add: ps match_walk_append match_walk_empty)
  also have "\<dots> = match_walk ps q' (lv(p := os))"
    using emp' fill_again [OF assms(4)] by (simp add: ps match_walk_append match_walk_empty)
  finally show ?thesis .
qed

lemma match_walk_frame: "match_walk ps q lv = (lv', q') \<Longrightarrow> r \<notin> set ps \<Longrightarrow> lv' r = lv r"
  by (induction ps arbitrary: q lv) (auto split: prod.splits)

text \<open>Quantity left over means every level of the walk is exhausted.\<close>

lemma match_walk_rest:
  "match_walk ps q lv = (lv', q') \<Longrightarrow> q' \<noteq> 0 \<Longrightarrow> r \<in> set ps \<Longrightarrow> lv' r = []"
proof (induction ps arbitrary: q lv)
  case (Cons p ps)
  obtain os q1 where f: "fill q (lv p) = (os, q1)" by fastforce
  with Cons.prems(1) have w: "match_walk ps q1 (lv(p := os)) = (lv', q')" by simp
  have q1: "q1 \<noteq> 0" using w Cons.prems(2) by (metis match_walk_zero prod.inject)
  show ?case
  proof (cases "r \<in> set ps")
    case True
    with Cons.IH [OF w Cons.prems(2)] show ?thesis by simp
  next
    case False
    with Cons.prems(3) match_walk_frame [OF w, of r] fill_rest [OF f q1] show ?thesis by simp
  qed
qed simp

lemma match_walk_conserves:
  assumes "match_walk ps q lv = (lv', q')" and "distinct ps"
  shows "(\<Sum>p\<leftarrow>ps. qty_sum (lv p)) + unat q' = (\<Sum>p\<leftarrow>ps. qty_sum (lv' p)) + unat q"
  using assms
proof (induction ps arbitrary: q lv)
  case (Cons p ps)
  obtain os q1 where f: "fill q (lv p) = (os, q1)" by fastforce
  with Cons.prems have w: "match_walk ps q1 (lv(p := os)) = (lv', q')" by simp
  have upd: "(\<Sum>r\<leftarrow>ps. qty_sum ((lv(p := os)) r)) = (\<Sum>r\<leftarrow>ps. qty_sum (lv r))"
    using Cons.prems(2) by (intro arg_cong [where f = sum_list]) auto
  have "lv' p = os" using match_walk_frame [OF w, of p] Cons.prems(2) by simp
  with Cons.IH [OF w] upd fill_conserves [OF f] Cons.prems(2) show ?case by simp
qed simp

lemma distinct_path [simp]: "distinct (path is_buy mx limit)"
  by (simp add: path_def)

lemma set_path: "p \<in> set (path is_buy mx limit) \<longleftrightarrow> p < mx \<and> (if is_buy then p \<le> limit else limit \<le> p)"
  by (auto simp: path_def)

lemma takeWhile_path:
  assumes "p \<in> set (path is_buy mx limit)"
  shows "r \<in> set (takeWhile (\<lambda>r. r \<noteq> p) (path is_buy mx limit)) \<Longrightarrow> (if is_buy then r < p else p < r)"
proof -
  let ?ps = "path is_buy mx limit"
  obtain xs ys where ps: "?ps = xs @ p # ys" and xs: "p \<notin> set xs"
    using assms by (auto dest: split_list_first)
  then have tw: "takeWhile (\<lambda>r. r \<noteq> p) ?ps = xs" by (auto simp: takeWhile_tail)
  have "sorted_wrt (\<lambda>a b. if is_buy then a < b else b < a) ?ps"
    by (cases is_buy) (simp_all add: path_def sorted_wrt_rev strict_sorted_iff)
  with ps show "r \<in> set (takeWhile (\<lambda>r. r \<noteq> p) ?ps) \<Longrightarrow> (if is_buy then r < p else p < r)"
    unfolding tw by (simp add: sorted_wrt_append)
qed

lemma walk_execs_zero [simp]: "walk_execs ps 0 lv = []"
  by (induction ps arbitrary: lv) simp_all

lemma walk_execs_empty: "\<forall>p \<in> set ps. lv p = [] \<Longrightarrow> walk_execs ps q lv = []"
  by (induction ps) (simp_all add: fun_upd_idem)

lemma walk_execs_append:
  "walk_execs (ps @ rs) q lv =
     walk_execs ps q lv @ walk_execs rs (snd (match_walk ps q lv)) (fst (match_walk ps q lv))"
  by (induction ps arbitrary: q lv) (simp_all split: prod.splits)

lemma fill_execs_again: "fill q os = (os', q') \<Longrightarrow> fill_execs p q' os' = []"
  using fill_rest [of q os os' q'] by (cases "q' = 0") auto

lemma walk_execs_ahead:
  assumes "p \<in> set ps" and "distinct ps" and "\<forall>r \<in> set (takeWhile (\<lambda>r. r \<noteq> p) ps). lv r = []"
    and "fill q (lv p) = (os, q')"
  shows "walk_execs ps q lv = fill_execs p q (lv p) @ walk_execs ps q' (lv(p := os))"
proof -
  obtain xs ys where ps: "ps = xs @ p # ys" and xs: "p \<notin> set xs"
    using assms(1) by (auto dest: split_list_first)
  have "takeWhile (\<lambda>r. r \<noteq> p) ps = xs"
    using ps xs by (auto simp: takeWhile_tail)
  with assms(3) have emp: "\<forall>r \<in> set xs. lv r = []" by simp
  then have emp': "\<forall>r \<in> set xs. (lv(p := os)) r = []" using xs by auto
  have "walk_execs ps q lv = fill_execs p q (lv p) @ walk_execs ys q' (lv(p := os))"
    using emp assms(4) by (simp add: ps walk_execs_append walk_execs_empty match_walk_empty)
  also have "walk_execs ys q' (lv(p := os)) = walk_execs ps q' (lv(p := os))"
    using emp' fill_again [OF assms(4)] fill_execs_again [OF assms(4)]
    by (simp add: ps walk_execs_append walk_execs_empty match_walk_empty)
  finally show ?thesis .
qed

end
