(* ===== verification/SpinPublish.thy ===== *)
theory SpinPublish
  imports LFQueue
begin

text \<open>
  The loops of the source that try to publish an element until the queue has a slot for it (the
  broadcasts of the engine, the orders of the generator), as one interface: a state that holds the
  port and counts its accesses, how far the reader comes before each access (\<open>env\<close>), and a loop that
  spins on \<open>publish\<close>.  \<open>spin_least\<close> says that the loop is the least one: it does not return where it
  could only go on.  \<open>spun\<close> is what it leaves when it returns: one element more, and the rest as it was.
\<close>

definition spun :: "('s \<Rightarrow> 'a port) \<Rightarrow> ('s \<Rightarrow> 'f) \<Rightarrow> 's \<Rightarrow> 's \<Rightarrow> 'a \<Rightarrow> bool" where
  "spun port_of frame s s' x \<longleftrightarrow>
     port_inv (port_of s') \<and> port_cap (port_of s') = port_cap (port_of s) \<and>
     published (port_of s') = published (port_of s) @ [x] \<and> frame s' = frame s"

locale spin_publisher =
  fixes port_of :: "'s \<Rightarrow> 'a port"
    and access :: "'s \<Rightarrow> nat"
    and put :: "'a port \<Rightarrow> 's \<Rightarrow> 's"
    and frame :: "'s \<Rightarrow> 'f"
    and env :: "nat \<Rightarrow> nat"
    and spin :: "'a \<Rightarrow> 's \<Rightarrow> 's option"
  assumes spin_eq: "publish (env (access s)) x (port_of s) = (b, p) \<Longrightarrow>
      spin x s = (if b then Some (put p s) else spin x (put p s))"
    and put_laws: "port_of (put p s) = p" "access (put p s) = Suc (access s)" "frame (put p s) = frame s"
    and spin_least: "P s \<Longrightarrow> (\<And>s. P s \<Longrightarrow> \<exists>p. publish (env (access s)) x (port_of s) = (False, p) \<and> P (put p s)) \<Longrightarrow>
      spin x s = None"
begin

lemma spin_room:
  assumes "port_inv (port_of s)" and "fst (publish (env (access s)) x (port_of s))"
  shows "\<exists>s'. spin x s = Some s' \<and> spun port_of frame s s' x"
proof -
  obtain p where p: "publish (env (access s)) x (port_of s) = (True, p)"
    using assms(2) by (metis prod.collapse)
  then show ?thesis using spin_eq [OF p] publish_inv [OF assms(1) p] by (simp add: spun_def put_laws)
qed

lemma spin_waits:
  assumes "access s \<le> m" and "0 < env m" and "port_inv (port_of s)" and "0 < port_cap (port_of s)"
  shows "\<exists>s'. spin x s = Some s' \<and> spun port_of frame s s' x"
  using assms
proof (induction "m - access s" arbitrary: s)
  case 0
  then show ?case
    using publish_after_read [of "port_of s" "env (access s)" x] by (intro spin_room) auto
next
  case (Suc d)
  obtain b p where p: "publish (env (access s)) x (port_of s) = (b, p)" by fastforce
  note P = publish_inv [OF Suc.prems(3) p]
  show ?case
  proof (cases b)
    case True
    with p Suc.prems show ?thesis by (intro spin_room) simp_all
  next
    case False
    have "\<exists>s'. spin x (put p s) = Some s' \<and> spun port_of frame (put p s) s' x"
      using Suc.hyps(1) [of "put p s"] Suc.hyps(2) Suc.prems P by (simp add: put_laws)
    then show ?thesis using False P spin_eq [OF p] by (auto simp: spun_def put_laws)
  qed
qed

text \<open>It returns when the queue has not been filled once, or when its reader comes back again and again.\<close>

lemma spin_returns:
  assumes "port_inv (port_of s)"
    and "length (published (port_of s)) < port_cap (port_of s) \<or>
      0 < port_cap (port_of s) \<and> (\<forall>k. \<exists>m \<ge> k. 0 < env m)"
  shows "\<exists>s'. spin x s = Some s' \<and> spun port_of frame s s' x"
proof (cases "length (published (port_of s)) < port_cap (port_of s)")
  case True
  with publish_room [OF assms(1)] assms(1) show ?thesis by (intro spin_room) simp_all
next
  case False
  then obtain m where "access s \<le> m" "0 < env m" using assms(2) by blast
  then show ?thesis using assms False by (intro spin_waits) auto
qed

text \<open>When the queue is full and its reader has stopped, it never does.\<close>

lemma spin_blocked:
  assumes "port_inv (port_of s)" and full: "lfq_size (chan (port_of s)) = port_cap (port_of s)"
    and gone: "\<forall>k \<ge> access s. env k = 0"
  shows "spin x s = None"
proof (rule spin_least [where P = "\<lambda>t. access s \<le> access t \<and> port_of t = port_of s"])
  have "offer x (chan (port_of s)) = None"
    using assms(1) full lfq.put_None [of "chan (port_of s)" x] by (simp add: port_inv_def port_cap_def)
  then have no: "publish 0 x (port_of s) = (False, port_of s)" by (simp add: publish_def)
  show "\<exists>p. publish (env (access t)) x (port_of t) = (False, p) \<and> access s \<le> access (put p t) \<and> port_of (put p t) = port_of s"
    if "access s \<le> access t \<and> port_of t = port_of s" for t
    using that gone no by (simp add: put_laws)
qed simp

end

end
