(* ===== verification/MatchingProofs.thy ===== *)
theory MatchingProofs
  imports Matching BookInvariant MatchSpec SpinPublish
begin

text \<open>
  \<open>aggresiveMatch\<close> implements \<open>match_walk\<close>: on a book that keeps its invariant the loop ends,
  leaves the levels and the remaining quantity the abstract walk computes, and logs and
  acknowledges the executions \<open>walk_execs\<close> lists, in their order.
\<close>

subsection \<open>What the small steps leave alone\<close>

definition stats :: "ME \<Rightarrow> LOBOrder LFQueue \<times> u64 list \<times> u64 list \<times> u64 list \<times> u64 list \<times> u64" where
  "stats s = (LobOrderQueue s, QueueTime s, Throughtput s, matchingProcessingTime s, tickToTrade s,
     lastOrderTime s)"

lemma now_cycle_eq: "now_cycle H s = (tsc H (clk s), s\<lparr>clk := Suc (clk s)\<rparr>)"
  by (simp add: now_cycle_def)

lemma books_of_update [frame_simps]:
  "opp b (s\<lparr>clk := k\<rparr>) = opp b s" "own b (s\<lparr>clk := k\<rparr>) = own b s"
  "opp b (s\<lparr>acc := k\<rparr>) = opp b s" "own b (s\<lparr>acc := k\<rparr>) = own b s"
  "opp b (s\<lparr>matchLog := p\<rparr>) = opp b s" "own b (s\<lparr>matchLog := p\<rparr>) = own b s"
  "opp b (s\<lparr>LobAck := a\<rparr>) = opp b s" "own b (s\<lparr>LobAck := a\<rparr>) = own b s"
  "opp b (s\<lparr>BroadCastQ := x\<rparr>) = opp b s" "own b (s\<lparr>BroadCastQ := x\<rparr>) = own b s"
  "opp b (set_opp b y s) = y" "own b (set_opp b y s) = own b s"
  "own b (set_own b y s) = y" "opp b (set_own b y s) = opp b s"
  by (simp_all add: opp_def own_def set_opp_def set_own_def)

lemma set_opp_frame [frame_simps]:
  "stats (set_opp b y s) = stats s" "BroadCastQ (set_opp b y s) = BroadCastQ s"
  "LobAck (set_opp b y s) = LobAck s" "matchLog (set_opp b y s) = matchLog s"
  "clk (set_opp b y s) = clk s" "acc (set_opp b y s) = acc s"
  "stats (set_own b y s) = stats s" "BroadCastQ (set_own b y s) = BroadCastQ s"
  "LobAck (set_own b y s) = LobAck s" "matchLog (set_own b y s) = matchLog s"
  "clk (set_own b y s) = clk s" "acc (set_own b y s) = acc s"
  by (simp_all add: set_opp_def set_own_def stats_def)

lemma stats_update [frame_simps]:
  "stats (s\<lparr>clk := k\<rparr>) = stats s" "stats (s\<lparr>acc := k\<rparr>) = stats s"
  "stats (s\<lparr>matchLog := p\<rparr>) = stats s" "stats (s\<lparr>LobAck := a\<rparr>) = stats s"
  "stats (s\<lparr>BroadCastQ := x\<rparr>) = stats s"
  by (simp_all add: stats_def)

lemma log_write_eq:
  "log_write H lid t v s =
     s\<lparr>matchLog := snd (publish (log_env H (acc s)) \<lparr>log_id = lid, timestamp = t, log_data = v\<rparr> (matchLog s)),
       acc := Suc (acc s)\<rparr>"
  by (simp add: log_write_def split_def Let_def)

lemma log_write_frame [frame_simps]:
  "opp b (log_write H lid t v s) = opp b s" "own b (log_write H lid t v s) = own b s"
  "stats (log_write H lid t v s) = stats s" "BroadCastQ (log_write H lid t v s) = BroadCastQ s"
  "LobAck (log_write H lid t v s) = LobAck s" "clk (log_write H lid t v s) = clk s"
  by (simp_all add: log_write_eq frame_simps)

lemma log_write_sends:
  "sends (matchLog s) (matchLog (log_write H lid t v s)) [\<lparr>log_id = lid, timestamp = t, log_data = v\<rparr>]"
  by (simp add: log_write_eq publish_sends)

definition ack_of :: "LOBOrder \<Rightarrow> nat \<Rightarrow> char \<Rightarrow> u32 \<Rightarrow> LOBAck" where
  "ack_of ord i t q = \<lparr>la_system_id = system_id ord, la_price = f32_of_nat i, la_quantity = q,
     la_side = order_type ord, la_status = t\<rparr>"

lemma ack_of_quantity [simp]: "ack_of (ord\<lparr>quantity := k\<rparr>) = ack_of ord"
  by (simp add: ack_of_def fun_eq_iff)

lemma ack_attempt_eq:
  "ack_attempt H a s = (fst (publish (ack_env H (acc s)) a (LobAck s)),
     s\<lparr>LobAck := snd (publish (ack_env H (acc s)) a (LobAck s)), acc := Suc (acc s)\<rparr>)"
  by (simp add: ack_attempt_def split_def Let_def)

lemma Ack_eq:
  "Ack H ord i t q s =
     (if fst (ack_attempt H (ack_of ord i t q) s) then snd (ack_attempt H (ack_of ord i t q) s)
      else snd (ack_attempt H (ack_of ord i t q) (snd (ack_attempt H (ack_of ord i t q) s))))"
  by (simp add: Ack_def ack_of_def split_def Let_def)

lemma Ack_frame [frame_simps]:
  "opp b (Ack H ord i t q s) = opp b s" "own b (Ack H ord i t q s) = own b s"
  "stats (Ack H ord i t q s) = stats s" "BroadCastQ (Ack H ord i t q s) = BroadCastQ s"
  "matchLog (Ack H ord i t q s) = matchLog s" "clk (Ack H ord i t q s) = clk s"
  by (simp_all add: Ack_eq ack_attempt_eq frame_simps)

text \<open>The second attempt is made only when the first found the queue full.\<close>

lemma Ack_sends: "sends (LobAck s) (LobAck (Ack H ord i t q s)) [ack_of ord i t q]"
proof -
  let ?a = "ack_of ord i t q" and ?p = "LobAck s"
  obtain b p1 where 1: "publish (ack_env H (acc s)) ?a ?p = (b, p1)" by fastforce
  obtain c p2 where 2: "publish (ack_env H (Suc (acc s))) ?a p1 = (c, p2)" by fastforce
  show ?thesis
  proof (cases b)
    case True
    with 1 have "LobAck (Ack H ord i t q s) = snd (publish (ack_env H (acc s)) ?a ?p)"
      by (simp add: Ack_eq ack_attempt_eq)
    then show ?thesis by (simp add: publish_sends)
  next
    case False
    with 1 2 have eq: "LobAck (Ack H ord i t q s) = p2"
      by (simp add: Ack_eq ack_attempt_eq)
    show ?thesis
      unfolding sends_def eq
    proof
      assume inv: "port_inv ?p"
      note P = publish_inv [OF inv 1] and Q = publish_inv [OF publish_inv(1) [OF inv 1] 2]
      have "\<not> length (published ?p) + 1 \<le> port_cap ?p"
        using publish_room [OF inv, of "ack_env H (acc s)" ?a] False 1 by auto
      with P Q False show "port_inv p2 \<and> port_cap p2 = port_cap ?p \<and>
          (\<exists>ys. published p2 = published ?p @ ys \<and> subseq ys [?a] \<and>
            (length (published ?p) + length [?a] \<le> port_cap ?p \<longrightarrow> ys = [?a]))"
        by auto
    qed
  qed
qed

subsection \<open>The messages of an execution\<close>

definition exec_log :: "hw \<Rightarrow> nat \<Rightarrow> LOBOrder \<Rightarrow> execution list \<Rightarrow> LogElement list" where
  "exec_log H k order es =
     map (\<lambda>(i, e). \<lparr>log_id = ME_AGGRESSIVE_MATCH, timestamp = tsc H i,
         log_data = VLOBOrder (order\<lparr>quantity := taker_left e\<rparr>)\<rparr>)
       (zip [k..<k + length es] es)"

definition exec_acks :: "LOBOrder \<Rightarrow> execution list \<Rightarrow> LOBAck list" where
  "exec_acks order es =
     concat (map (\<lambda>e. (if trade_id order = 1 then [ack_of order (at_level e) (CHR ''T'') (traded e)] else []) @
         (if trade_id (maker e) = 1 then [ack_of (maker e) (at_level e) (CHR ''T'') (traded e)] else [])) es)"

lemma exec_log_append:
  "exec_log H k order (es @ fs) = exec_log H k order es @ exec_log H (k + length es) order fs"
proof -
  have "[k..<k + (m + n)] = [k..<k + m] @ [k + m..<k + m + n]" for m n
    using upt_add_eq_append [of k "k + m" n] by (simp only: add.assoc le_add1 simp_thms)
  then show ?thesis by (simp add: exec_log_def)
qed

lemma exec_simps [simp]:
  "exec_log H k order [] = []"
  "exec_acks order [] = []"
  "exec_log H k (order\<lparr>quantity := q\<rparr>) es = exec_log H k order es"
  "exec_acks (order\<lparr>quantity := q\<rparr>) es = exec_acks order es"
  "exec_acks order (es @ fs) = exec_acks order es @ exec_acks order fs"
  by (simp_all add: exec_log_def exec_acks_def cong: if_cong)

text \<open>
  \<open>matched H is_buy order es s s'\<close>: from \<open>s\<close> to \<open>s'\<close> the executions \<open>es\<close> of \<open>order\<close> were carried
  out: everything but the opposite book, the log and the acknowledgements is as it was.
\<close>

definition matched :: "hw \<Rightarrow> bool \<Rightarrow> LOBOrder \<Rightarrow> execution list \<Rightarrow> ME \<Rightarrow> ME \<Rightarrow> bool" where
  "matched H is_buy order es s s' \<longleftrightarrow>
     own is_buy s' = own is_buy s \<and> BroadCastQ s' = BroadCastQ s \<and> stats s' = stats s \<and>
     clk s' = clk s + length es \<and>
     sends (matchLog s) (matchLog s') (exec_log H (clk s) order es) \<and>
     sends (LobAck s) (LobAck s') (exec_acks order es) \<and>
     isBuy (opp is_buy s') = isBuy (opp is_buy s) \<and>
     max_price_possible (opp is_buy s') = max_price_possible (opp is_buy s) \<and>
     map length (book (opp is_buy s')) = map length (book (opp is_buy s)) \<and>
     (\<forall>i. LUT (opp is_buy s) i = (NPOS, NPOS) \<longrightarrow> LUT (opp is_buy s') i = (NPOS, NPOS))"

lemma matched_refl [simp]: "matched H is_buy order [] s s"
  by (simp add: matched_def)

lemma matched_quantity [simp]: "matched H is_buy (order\<lparr>quantity := q\<rparr>) = matched H is_buy order"
  by (simp add: matched_def fun_eq_iff)

lemma matched_append:
  assumes "matched H is_buy order es s s1" and "matched H is_buy order fs s1 s2"
  shows "matched H is_buy order (es @ fs) s s2"
  using assms
  by (auto simp: matched_def exec_log_append add.assoc intro: sends_append)

subsection \<open>One execution\<close>

lemma levels_front:
  assumes "resting b l c" and "\<forall>d < c. \<not> resting b l d"
  shows "levels b l = book b ! l ! c # filter live (drop (Suc c) (book b ! l))"
proof -
  note R = restingD [OF assms(1)]
  have "\<not> live x" if x: "x \<in> set (take c (book b ! l))" for x
  proof
    assume lv: "live x"
    from x R(2) obtain d where "d < c" "x = book b ! l ! d"
      by (auto simp: in_set_conv_nth)
    with lv R have "resting b l d" by (auto simp: resting_def)
    with assms(2) \<open>d < c\<close> show False by blast
  qed
  then have "filter live (take c (book b ! l)) = []" by (simp add: filter_empty_conv)
  with levels_split [OF R] show ?thesis by simp
qed

text \<open>
  What an execution does to the opposite book: the maker's quantity is reduced, and an order
  with nothing left is taken out of the book.
\<close>

definition execute_on :: "LOB \<Rightarrow> nat \<Rightarrow> nat \<Rightarrow> u32 \<Rightarrow> LOB result" where
  "execute_on b l c k =
     (if k = 0 then deleteOrder (set_quantity b l c 0) (int (sid_at b l c)) else Inr (set_quantity b l c k))"

lemma execute_on_inv:
  assumes inv: "lob_inv n b" and res: "resting b l c"
  obtains b' where "execute_on b l c k = Inr b'" and "lob_inv n b'"
    and "levels b' = levels (set_quantity b l c k)"
    and "isBuy b' = isBuy b" and "max_price_possible b' = max_price_possible b"
    and "book b' = book (set_quantity b l c k)"
    and "\<forall>i. LUT b i = (NPOS, NPOS) \<longrightarrow> LUT b' i = (NPOS, NPOS)"
proof (cases "k = 0")
  case True
  note core = lob_invD(1) [OF inv]
  note R = restingD [OF res] and P = core_resting [OF core res]
  have "best_price b < 2 ^ 31" "l < length (active_counts b)"
    using lob_invD(2,3) [OF inv] R(1) by (auto simp: best_ok_def shape_ok_def split: if_splits)
  then have "deleteOrder (set_quantity b l c 0) (int (sid_at b l c)) = deleteOrder b (int (sid_at b l c))"
    using P R by (intro deleteOrder_set_quantity) simp_all
  moreover obtain b' where "deleteOrder b (int (sid_at b l c)) = Inr b'" "lob_inv n b'"
    "levels b' = (\<lambda>q. remove_id (sid_at b l c) (levels b q))"
    "isBuy b' = isBuy b" "max_price_possible b' = max_price_possible b"
    "book b' = book (set_quantity b l c 0)" "LUT b' = (LUT b)(sid_at b l c := (NPOS, NPOS))"
    by (rule deleteOrder_resting [OF inv res refl])
  ultimately show thesis
    using that [of b'] True by (simp add: execute_on_def remove_id_levels [OF core res])
next
  case False
  with reduce_inv [OF inv res False] that [of "set_quantity b l c k"] show thesis
    by (simp add: execute_on_def)
qed

text \<open>What one execution of \<open>t\<close> of the maker \<open>x\<close> does before the book is cleaned up, step by step.\<close>

definition after_trade :: "hw \<Rightarrow> bool \<Rightarrow> nat \<Rightarrow> nat \<Rightarrow> LOBOrder \<Rightarrow> u32 \<Rightarrow> LOBOrder \<Rightarrow> ME \<Rightarrow> ME" where
  "after_trade H is_buy l c x t order' s =
     (let s1 = set_opp is_buy (set_quantity (opp is_buy s) l c (quantity x - t)) s;
          s3 = log_write H ME_AGGRESSIVE_MATCH (tsc H (clk s1)) (VLOBOrder order') (s1\<lparr>clk := Suc (clk s1)\<rparr>);
          s4 = (if trade_id order' = 1 then Ack H order' l (CHR ''T'') t s3 else s3)
      in if trade_id x = 1 then Ack H (x\<lparr>quantity := quantity x - t\<rparr>) l (CHR ''T'') t s4 else s4)"

lemma after_trade_frame [frame_simps]:
  "opp b (after_trade H b l c x t order' s) = set_quantity (opp b s) l c (quantity x - t)"
  "own b (after_trade H b l c x t order' s) = own b s"
  "BroadCastQ (after_trade H b l c x t order' s) = BroadCastQ s"
  "stats (after_trade H b l c x t order' s) = stats s"
  "clk (after_trade H b l c x t order' s) = Suc (clk s)"
  by (simp_all add: after_trade_def Let_def frame_simps)

lemma after_trade_sends:
  "sends (matchLog s) (matchLog (after_trade H is_buy l c x t order' s))
     [\<lparr>log_id = ME_AGGRESSIVE_MATCH, timestamp = tsc H (clk s), log_data = VLOBOrder order'\<rparr>]"
  "sends (LobAck s) (LobAck (after_trade H is_buy l c x t order' s))
     ((if trade_id order' = 1 then [ack_of order' l (CHR ''T'') t] else []) @
      (if trade_id x = 1 then [ack_of x l (CHR ''T'') t] else []))"
proof -
  define s1 where "s1 = set_opp is_buy (set_quantity (opp is_buy s) l c (quantity x - t)) s"
  define s3 where "s3 = log_write H ME_AGGRESSIVE_MATCH (tsc H (clk s1)) (VLOBOrder order') (s1\<lparr>clk := Suc (clk s1)\<rparr>)"
  define s4 where "s4 = (if trade_id order' = 1 then Ack H order' l (CHR ''T'') t s3 else s3)"
  define s5 where "s5 = (if trade_id x = 1 then Ack H (x\<lparr>quantity := quantity x - t\<rparr>) l (CHR ''T'') t s4 else s4)"
  have s: "after_trade H is_buy l c x t order' s = s5"
    by (simp add: after_trade_def Let_def s1_def s3_def s4_def s5_def)
  have same: "matchLog s5 = matchLog s3" "matchLog s1 = matchLog s" "clk s1 = clk s" "LobAck s3 = LobAck s"
    by (simp_all add: s5_def s4_def s3_def s1_def frame_simps)
  show "sends (matchLog s) (matchLog (after_trade H is_buy l c x t order' s))
      [\<lparr>log_id = ME_AGGRESSIVE_MATCH, timestamp = tsc H (clk s), log_data = VLOBOrder order'\<rparr>]"
    using log_write_sends [of "s1\<lparr>clk := Suc (clk s1)\<rparr>" H ME_AGGRESSIVE_MATCH "tsc H (clk s1)" "VLOBOrder order'"]
    by (simp add: s same(1-3) s3_def)
  have acks4: "sends (LobAck s3) (LobAck s4) (if trade_id order' = 1 then [ack_of order' l (CHR ''T'') t] else [])"
    using Ack_sends [of s3 H order' l "CHR ''T''" t] by (simp add: s4_def)
  have acks5: "sends (LobAck s4) (LobAck s5) (if trade_id x = 1 then [ack_of x l (CHR ''T'') t] else [])"
    using Ack_sends [of s4 H "x\<lparr>quantity := quantity x - t\<rparr>" l "CHR ''T''" t] by (simp add: s5_def)
  show "sends (LobAck s) (LobAck (after_trade H is_buy l c x t order' s))
      ((if trade_id order' = 1 then [ack_of order' l (CHR ''T'') t] else []) @
       (if trade_id x = 1 then [ack_of x l (CHR ''T'') t] else []))"
    using sends_append [OF acks4 acks5] by (simp add: s same)
qed

lemma match_level_step:
  assumes "quantity (book (opp is_buy s) ! l ! c) \<noteq> 0" and x: "x = book (opp is_buy s) ! l ! c"
    and t: "t = min (quantity x) (quantity order)" and o: "order' = order\<lparr>quantity := quantity order - t\<rparr>"
    and del: "execute_on (opp is_buy s) l c (quantity x - t) = Inr b'" and id: "unat (system_id x) < 2 ^ 31"
    and s': "s' = set_opp is_buy b' (after_trade H is_buy l c x t order' s)"
  shows "match_level H is_buy l (c # cs) s order =
    (if quantity order' = 0 then Inr (s', order') else match_level H is_buy l cs s' order')"
proof -
  let ?k = "quantity x - t" and ?s5 = "after_trade H is_buy l c x t order' s"
  have "(if quantity x < quantity order then quantity x else quantity order) = t" by (auto simp: t min_def)
  then have "match_level H is_buy l (c # cs) s order =
      bindR (if ?k = 0 then bindR (deleteOrder (opp is_buy ?s5) (int_of_size (unat (system_id x))))
          (\<lambda>b. Inr (set_opp is_buy b ?s5)) else Inr ?s5)
        (\<lambda>s6. if quantity order' = 0 then Inr (s6, order') else match_level H is_buy l cs s6 order')"
    using assms(1) by (simp add: Let_def x [symmetric] now_cycle_eq o after_trade_def)
  moreover have "set_opp is_buy (opp is_buy ?s5) ?s5 = ?s5" by (simp add: set_opp_def opp_def)
  then have "(if ?k = 0 then bindR (deleteOrder (opp is_buy ?s5) (int_of_size (unat (system_id x))))
      (\<lambda>b. Inr (set_opp is_buy b ?s5)) else Inr ?s5) = Inr (set_opp is_buy b' ?s5)"
    using del id by (auto simp: execute_on_def sid_at_def x frame_simps split: if_splits)
  ultimately show ?thesis by (simp add: s')
qed

lemma match_one:
  fixes s :: ME and order :: LOBOrder
  assumes inv: "lob_inv n (opp is_buy s)" and res: "resting (opp is_buy s) l c"
    and q: "quantity order \<noteq> 0"
  defines "x \<equiv> book (opp is_buy s) ! l ! c"
  defines "t \<equiv> min (quantity x) (quantity order)"
  defines "order' \<equiv> order\<lparr>quantity := quantity order - t\<rparr>"
  obtains s' where
    "match_level H is_buy l (c # cs) s order =
       (if quantity order' = 0 then Inr (s', order') else match_level H is_buy l cs s' order')"
    and "matched H is_buy order [\<lparr>at_level = l, maker = x, traded = t, taker_left = quantity order - t,
           maker_left = quantity x - t\<rparr>] s s'"
    and "lob_inv n (opp is_buy s')"
    and "levels (opp is_buy s') = levels (set_quantity (opp is_buy s) l c (quantity x - t))"
    and "book (opp is_buy s') = book (set_quantity (opp is_buy s) l c (quantity x - t))"
proof -
  let ?b = "opp is_buy s" and ?k = "quantity x - t"
  note R = restingD [OF res] and P = core_resting [OF lob_invD(1) [OF inv] res]
  obtain b' where b': "execute_on ?b l c ?k = Inr b'" "lob_inv n b'" "levels b' = levels (set_quantity ?b l c ?k)"
    "isBuy b' = isBuy ?b" "max_price_possible b' = max_price_possible ?b"
    "book b' = book (set_quantity ?b l c ?k)"
    "\<forall>i. LUT ?b i = (NPOS, NPOS) \<longrightarrow> LUT b' i = (NPOS, NPOS)"
    by (rule execute_on_inv [OF inv res, where k = ?k])
  have "sid_at ?b l c < 2 ^ 31" using P(1) by (simp add: LUT_SIZE_def)
  then have id: "unat (system_id x) < 2 ^ 31" by (simp add: sid_at_def x_def)
  have xq: "quantity (book ?b ! l ! c) \<noteq> 0" using R(3) by (simp add: live_def)
  define s' where "s' = set_opp is_buy b' (after_trade H is_buy l c x t order' s)"
  note step = match_level_step [OF xq x_def [THEN meta_eq_to_obj_eq] t_def [THEN meta_eq_to_obj_eq]
      order'_def [THEN meta_eq_to_obj_eq] b'(1) id s'_def]
  have "map length (book b') = map length (book ?b)"
    by (auto simp: b'(6) set_quantity_book [OF R(1,2)] intro: nth_equalityI)
  then have "matched H is_buy order [\<lparr>at_level = l, maker = x, traded = t,
      taker_left = quantity order - t, maker_left = ?k\<rparr>] s s'"
    using after_trade_sends [of s H is_buy l c x t order'] b'(4,5,7)
    by (auto simp: matched_def exec_log_def exec_acks_def order'_def s'_def frame_simps split: if_splits)
  with that [of s'] step b' show thesis by (simp add: s'_def frame_simps)
qed

subsection \<open>One level\<close>

text \<open>The level after an execution against its first live order.\<close>

lemma match_one_level:
  assumes inv: "lob_inv n (opp is_buy s)" and res: "resting (opp is_buy s) l c" and q: "quantity order \<noteq> 0"
    and first: "\<forall>d < c. \<not> resting (opp is_buy s) l d" and x: "x = book (opp is_buy s) ! l ! c"
    and t: "t = min (quantity x) (quantity order)" and o: "order' = order\<lparr>quantity := quantity order - t\<rparr>"
  obtains s' tl where
    "match_level H is_buy l (c # cs) s order =
       (if quantity order' = 0 then Inr (s', order') else match_level H is_buy l cs s' order')"
    and "matched H is_buy order [\<lparr>at_level = l, maker = x, traded = t, taker_left = quantity order - t,
           maker_left = quantity x - t\<rparr>] s s'"
    and "lob_inv n (opp is_buy s')" and "levels (opp is_buy s) l = x # tl"
    and "levels (opp is_buy s') =
      (levels (opp is_buy s))(l := (if quantity x - t \<noteq> 0 then [x\<lparr>quantity := quantity x - t\<rparr>] else []) @ tl)"
    and "map length (book (opp is_buy s')) = map length (book (opp is_buy s))"
    and "quantity x - t = 0 \<longrightarrow> (\<forall>d < Suc c. \<not> resting (opp is_buy s') l d)"
proof -
  let ?b = "opp is_buy s" and ?tl = "filter live (drop (Suc c) (book (opp is_buy s) ! l))"
  note R = restingD [OF res]
  obtain s' where s': "match_level H is_buy l (c # cs) s order =
       (if quantity order' = 0 then Inr (s', order') else match_level H is_buy l cs s' order')"
    "matched H is_buy order [\<lparr>at_level = l, maker = x, traded = t, taker_left = quantity order - t,
       maker_left = quantity x - t\<rparr>] s s'"
    "lob_inv n (opp is_buy s')" "levels (opp is_buy s') = levels (set_quantity ?b l c (quantity x - t))"
    "book (opp is_buy s') = book (set_quantity ?b l c (quantity x - t))"
    by (rule match_one [OF inv res q, folded x, folded t, folded o])
  have lev: "levels ?b l = x # ?tl" unfolding x by (rule levels_front [OF res first])
  have front: "filter live (take c (book ?b ! l)) = []"
    using lev levels_split [OF R] by (cases "filter live (take c (book ?b ! l))") (auto simp: x)
  have lev': "levels (opp is_buy s') =
      (levels ?b)(l := (if quantity x - t \<noteq> 0 then [x\<lparr>quantity := quantity x - t\<rparr>] else []) @ ?tl)"
    unfolding s'(4) set_quantity_levels [OF R(1,2)] front x by simp
  have bk: "book (opp is_buy s') ! l = (book ?b ! l)[c := x\<lparr>quantity := quantity x - t\<rparr>]"
    unfolding s'(5) x by (simp add: set_quantity_book [OF R(1,2)])
  have len: "map length (book (opp is_buy s')) = map length (book ?b)" using s'(2) by (simp add: matched_def)
  have "\<forall>d < Suc c. \<not> resting (opp is_buy s') l d" if "quantity x - t = 0"
    using first that R(2) map_eq_imp_length_eq [OF len]
    by (auto simp: less_Suc_eq resting_def bk live_def)
  with that s'(1-3) lev lev' len show thesis by blast
qed

lemma match_level_fill:
  assumes "lob_inv n (opp is_buy s)" and "quantity order \<noteq> 0" and "l < length (book (opp is_buy s))"
    and "c \<le> length (book (opp is_buy s) ! l)" and "\<forall>d < c. \<not> resting (opp is_buy s) l d"
    and "fill (quantity order) (levels (opp is_buy s) l) = (os, q')"
  shows "\<exists>s'. match_level H is_buy l [c..<length (book (opp is_buy s) ! l)] s order =
        Inr (s', order\<lparr>quantity := q'\<rparr>) \<and>
      matched H is_buy order (fill_execs l (quantity order) (levels (opp is_buy s) l)) s s' \<and>
      lob_inv n (opp is_buy s') \<and> levels (opp is_buy s') = (levels (opp is_buy s))(l := os)"
  using assms
proof (induction "length (book (opp is_buy s) ! l) - c" arbitrary: s order c)
  case 0
  then have "levels (opp is_buy s) l = []"
    by (auto simp: levels_def filter_empty_conv resting_def in_set_conv_nth)
  with 0 show ?case
    by (intro exI [of _ s]) (auto simp: fun_upd_idem)
next
  case (Suc k)
  let ?b = "opp is_buy s" and ?len = "length (book (opp is_buy s) ! l)"
  let ?x = "book (opp is_buy s) ! l ! c"
  from Suc.hyps(2) have c: "c < ?len" and k: "k = ?len - Suc c" by simp_all
  then have cols: "[c..<?len] = c # [Suc c..<?len]" by (intro upt_conv_Cons)
  show ?case
  proof (cases "live ?x")
    case False
    then have "match_level H is_buy l [c..<?len] s order = match_level H is_buy l [Suc c..<?len] s order"
      by (simp add: cols live_def)
    moreover have "\<forall>d < Suc c. \<not> resting ?b l d"
      using Suc.prems(5) False by (auto simp: less_Suc_eq resting_def)
    ultimately show ?thesis using Suc.hyps(1) [of s "Suc c" order] Suc.prems k c by simp
  next
    case True
    then have res: "resting ?b l c" using Suc.prems(3) c by (simp add: resting_def)
    let ?t = "min (quantity ?x) (quantity order)"
    let ?o = "order\<lparr>quantity := quantity order - ?t\<rparr>"
    let ?e = "\<lparr>at_level = l, maker = ?x, traded = ?t, taker_left = quantity order - ?t,
      maker_left = quantity ?x - ?t\<rparr>"
    obtain s' tl where s': "match_level H is_buy l (c # [Suc c..<?len]) s order =
        (if quantity ?o = 0 then Inr (s', ?o) else match_level H is_buy l [Suc c..<?len] s' ?o)"
      "matched H is_buy order [?e] s s'" "lob_inv n (opp is_buy s')" and lev: "levels ?b l = ?x # tl"
      and lev': "levels (opp is_buy s') =
        (levels ?b)(l := (if quantity ?x - ?t \<noteq> 0 then [?x\<lparr>quantity := quantity ?x - ?t\<rparr>] else []) @ tl)"
      and len: "map length (book (opp is_buy s')) = map length (book ?b)"
      and dead: "quantity ?x - ?t = 0 \<longrightarrow> (\<forall>d < Suc c. \<not> resting (opp is_buy s') l d)"
      by (rule match_one_level [OF Suc.prems(1) res Suc.prems(2,5) refl refl refl])
    show ?thesis
    proof (cases "quantity ?x < quantity order")
      case less: True
      then have t: "?t = quantity ?x" by (simp add: min_def less_imp_le)
      have o0: "quantity ?o \<noteq> 0" using less by (auto simp: t)
      have f: "fill (quantity ?o) tl = (os, q')"
        using Suc.prems(2,6) less less_imp_le [OF less] by (simp add: lev t)
      have "\<exists>s''. match_level H is_buy l [Suc c..<?len] s' ?o = Inr (s'', ?o\<lparr>quantity := q'\<rparr>) \<and>
          matched H is_buy ?o (fill_execs l (quantity ?o) tl) s' s'' \<and>
          lob_inv n (opp is_buy s'') \<and> levels (opp is_buy s'') = ((levels ?b)(l := tl))(l := os)"
        using Suc.hyps(1) [of s' "Suc c" ?o] s'(3) o0 dead f k c Suc.prems(3) map_length_nth [OF len, of l]
          map_eq_imp_length_eq [OF len]
        by (simp add: lev' t)
      then obtain s'' where s'': "match_level H is_buy l [Suc c..<?len] s' ?o = Inr (s'', order\<lparr>quantity := q'\<rparr>)"
        "matched H is_buy order (fill_execs l (quantity ?o) tl) s' s''"
        "lob_inv n (opp is_buy s'')" "levels (opp is_buy s'') = (levels ?b)(l := os)"
        by auto
      have "fill_execs l (quantity order) (levels ?b l) = ?e # fill_execs l (quantity ?o) tl"
        using Suc.prems(2) by (simp add: lev Let_def)
      then have "matched H is_buy order (fill_execs l (quantity order) (levels ?b l)) s s''"
        using matched_append [OF s'(2) s''(2)] by simp
      with s'' s'(1) o0 show ?thesis unfolding cols by (intro exI [of _ s'']) simp
    next
      case False
      then have t: "?t = quantity order" by (simp add: min_def)
      have "os = (if quantity ?x - ?t \<noteq> 0 then [?x\<lparr>quantity := quantity ?x - ?t\<rparr>] else []) @ tl" "q' = 0"
        using Suc.prems(2,6) False by (auto simp: lev t split: if_splits)
      moreover have "fill_execs l (quantity order) (levels ?b l) = [?e]"
        using Suc.prems(2) by (simp add: lev Let_def t)
      ultimately show ?thesis
        using s'(1-3) lev' unfolding cols by (intro exI [of _ s']) (simp add: t)
    qed
  qed
qed

subsection \<open>The loop\<close>

lemma best_ok_outside:
  assumes "best_ok b" and "better b p (best_price b)"
  shows "levels b p = []"
  using assms by (auto simp: best_ok_def)

lemma levels_live: "x \<in> set (levels b p) \<Longrightarrow> quantity x \<noteq> 0"
  by (auto simp: levels_def live_def split: if_splits)

lemma fill_progress:
  assumes "fill q (levels b p) = (os, q')" and "q \<noteq> 0" and "levels b p \<noteq> []"
  shows "unat q' < unat q"
proof -
  obtain x xs where x: "levels b p = x # xs" using assms(3) by (cases "levels b p") auto
  then have "0 < unat (quantity x)" using levels_live [of x b p] by (simp add: unat_gt_0)
  moreover have "0 < unat q" using assms(2) by (simp add: unat_gt_0)
  moreover have "unat q' = unat q - qty_sum (levels b p)" using assms(1) by (rule fill_amount)
  ultimately show ?thesis by (simp add: x)
qed

text \<open>When the loop stops there is nothing on the path of the order.\<close>

lemma path_empty:
  assumes bo: "best_ok b" and side: "isBuy b = (\<not> is_buy)" and mx: "max_price_possible b = mx"
    and stop: "(if is_buy then pr < best_price b else best_price b < pr) \<or> mx \<le> best_price b \<or>
      levels b (best_price b) = []"
  shows "\<forall>p \<in> set (path is_buy mx pr). levels b p = []"
proof
  fix p assume p: "p \<in> set (path is_buy mx pr)"
  show "levels b p = []"
  proof (cases "better b p (best_price b)")
    case True
    with bo show ?thesis by (rule best_ok_outside)
  next
    case False
    with p side mx bo stop have "p = best_price b" "levels b (best_price b) = []"
      by (auto simp: set_path better_def best_ok_def split: if_splits)
    then show ?thesis by simp
  qed
qed

text \<open>One turn of the loop fills the best level, which is the first of the path with orders.\<close>

lemma loop_turn:
  assumes inv: "lob_inv n (opp is_buy s)" and side: "isBuy (opp is_buy s) = (\<not> is_buy)"
    and mx: "max_price_possible (opp is_buy s) = mx"
    and pr: "price_index (price order) = Inr pr"
    and q: "quantity order \<noteq> 0" and p: "best_price (opp is_buy s) \<in> set (path is_buy mx pr)"
    and lev: "levels (opp is_buy s) (best_price (opp is_buy s)) \<noteq> []"
  obtains s1 os q1 es where
    "aggresiveMatch H is_buy s order = aggresiveMatch H is_buy s1 (order\<lparr>quantity := q1\<rparr>)"
    and "matched H is_buy order es s s1" and "lob_inv n (opp is_buy s1)"
    and "isBuy (opp is_buy s1) = (\<not> is_buy)" and "max_price_possible (opp is_buy s1) = mx"
    and "map length (book (opp is_buy s1)) = map length (book (opp is_buy s))"
    and "unat q1 < unat (quantity order)"
    and "match_walk (path is_buy mx pr) (quantity order) (levels (opp is_buy s)) =
      match_walk (path is_buy mx pr) q1 (levels (opp is_buy s1))"
    and "walk_execs (path is_buy mx pr) (quantity order) (levels (opp is_buy s)) =
      es @ walk_execs (path is_buy mx pr) q1 (levels (opp is_buy s1))"
proof -
  let ?b = "opp is_buy s" and ?q = "quantity order" and ?ps = "path is_buy mx pr"
  let ?best = "best_price ?b"
  have sh: "shape_ok n ?b" and bo: "best_ok ?b" using lob_invD inv by auto
  have lim: "\<not> (if is_buy then pr < ?best else ?best < pr)" and best: "?best < mx"
    using p by (auto simp: set_path)
  have vec: "book ?b ! ?best \<noteq> []" using lev by (auto simp: levels_def)
  obtain os q1 where f: "fill ?q (levels ?b ?best) = (os, q1)" by fastforce
  have l: "?best < length (book ?b)" using best sh mx by (simp add: shape_ok_def)
  obtain s1 where s1: "match_level H is_buy ?best [0..<length (book ?b ! ?best)] s order =
      Inr (s1, order\<lparr>quantity := q1\<rparr>)"
    "matched H is_buy order (fill_execs ?best ?q (levels ?b ?best)) s s1"
    "lob_inv n (opp is_buy s1)" "levels (opp is_buy s1) = (levels ?b)(?best := os)"
    using match_level_fill [OF inv q l _ _ f, of 0 H] by auto
  have turn: "aggresiveMatch H is_buy s order = aggresiveMatch H is_buy s1 (order\<lparr>quantity := q1\<rparr>)"
    using q lim best vec s1(1) mx pr
    by (subst aggresiveMatch.simps)
      (simp add: Let_def get_optimal_price_def get_order_at_prize_def split: if_splits)
  have before: "\<forall>r \<in> set (takeWhile (\<lambda>r. r \<noteq> ?best) ?ps). levels ?b r = []"
  proof
    fix r assume "r \<in> set (takeWhile (\<lambda>r. r \<noteq> ?best) ?ps)"
    then have "if is_buy then r < ?best else ?best < r" by (rule takeWhile_path [OF p])
    with side have "better ?b r ?best" by (simp add: better_def split: if_splits)
    with bo show "levels ?b r = []" by (rule best_ok_outside)
  qed
  have smaller: "unat q1 < unat ?q" using f q lev by (rule fill_progress)
  have same: "isBuy (opp is_buy s1) = (\<not> is_buy)" "max_price_possible (opp is_buy s1) = mx"
    "map length (book (opp is_buy s1)) = map length (book ?b)"
    using s1(2) mx side by (auto simp: matched_def)
  show thesis
    using match_walk_ahead [OF p distinct_path before f] walk_execs_ahead [OF p distinct_path before f]
    by (intro that [OF turn s1(2,3) same smaller]) (simp_all only: s1(4))
qed

text \<open>
  The loop of the source does not always end.  On a book that keeps its invariant it spins for
  ever in exactly one case: a sell order whose price is below one tick and whose quantity is not
  exhausted, against a bid side whose level 0 holds orders that are all filled or deleted.
\<close>

definition spins :: "bool \<Rightarrow> nat \<Rightarrow> LOB \<Rightarrow> u32 \<Rightarrow> bool" where
  "spins is_buy pr b q \<longleftrightarrow>
     \<not> is_buy \<and> pr = 0 \<and> book b ! 0 \<noteq> [] \<and>
     snd (match_walk (path is_buy (max_price_possible b) pr) q (levels b)) \<noteq> 0"

lemma spins_cong:
  assumes "map length (book b') = map length (book b)" and "0 < length (book b)"
    and "max_price_possible b' = max_price_possible b"
    and "match_walk (path is_buy (max_price_possible b) pr) q (levels b) =
      match_walk (path is_buy (max_price_possible b) pr) q' (levels b')"
  shows "spins is_buy pr b' q' = spins is_buy pr b q"
proof -
  have "book b' ! 0 = [] \<longleftrightarrow> book b ! 0 = []"
    using map_length_nth [OF assms(1,2)] by (metis length_0_conv)
  then show ?thesis unfolding spins_def assms(3,4) by (simp only:)
qed

text \<open>Where the loop stops, or spins, there is nothing on the path of the order.\<close>

lemma loop_end:
  assumes inv: "lob_inv n b" and side: "isBuy b = (\<not> is_buy)" and mx: "max_price_possible b = mx"
    and no_turn: "q = 0 \<or> best_price b \<notin> set (path is_buy mx pr) \<or> levels b (best_price b) = []"
  shows "match_walk (path is_buy mx pr) q (levels b) = (levels b, q)"
    and "walk_execs (path is_buy mx pr) q (levels b) = []"
proof -
  note bo = lob_invD(2) [OF inv]
  have "q = 0 \<or> (if is_buy then pr < best_price b else best_price b < pr) \<or> mx \<le> best_price b \<or>
      levels b (best_price b) = []"
    using no_turn by (cases is_buy) (auto simp: set_path)
  then have "q = 0 \<or> (\<forall>p \<in> set (path is_buy mx pr). levels b p = [])"
    using path_empty [OF bo side mx, of pr] by blast
  then show "match_walk (path is_buy mx pr) q (levels b) = (levels b, q)"
    "walk_execs (path is_buy mx pr) q (levels b) = []"
    by (auto simp: match_walk_empty walk_execs_empty)
qed

lemma aggresiveMatch_refines:
  assumes "lob_inv n (opp is_buy s)" and "isBuy (opp is_buy s) = (\<not> is_buy)"
    and "max_price_possible (opp is_buy s) = mx"
    and "price_index (price order) = Inr pr"
    and "\<not> spins is_buy pr (opp is_buy s) (quantity order)"
    and "match_walk (path is_buy mx pr) (quantity order) (levels (opp is_buy s)) = (lv', q')"
  shows "\<exists>s'. aggresiveMatch H is_buy s order = Some (Inr (s', order\<lparr>quantity := q'\<rparr>)) \<and>
      matched H is_buy order (walk_execs (path is_buy mx pr) (quantity order) (levels (opp is_buy s))) s s' \<and>
      lob_inv n (opp is_buy s') \<and> levels (opp is_buy s') = lv'"
  using assms
proof (induction "unat (quantity order)" arbitrary: s order rule: less_induct)
  case less
  let ?b = "opp is_buy s" and ?q = "quantity order" and ?ps = "path is_buy mx pr"
  let ?best = "best_price ?b"
  have sh: "shape_ok n ?b" and bo: "best_ok ?b" using lob_invD less.prems(1) by auto
  show ?case
  proof (cases "?q = 0 \<or> ?best \<notin> set ?ps \<or> levels ?b ?best = []")
    case True
    note L = loop_end [OF less.prems(1-3) True]
    have "?q = 0 \<or> (if is_buy then pr < ?best else ?best < pr) \<or> mx \<le> ?best \<or> book ?b ! ?best = []"
    proof (rule ccontr)
      assume "\<not> ?thesis"
      then have c: "?q \<noteq> 0" "\<not> (if is_buy then pr < ?best else ?best < pr)" "?best < mx"
        "book ?b ! ?best \<noteq> []" by auto
      with True have lev: "levels ?b ?best = []" by (auto simp: set_path split: if_splits)
      with bo less.prems(2,3) c(3) have "\<not> is_buy" "?best = 0" by (auto simp: best_ok_def)
      with c less.prems(3,5) L(1) show False by (simp add: spins_def)
    qed
    then have "aggresiveMatch H is_buy s order = Some (Inr (s, order))"
      using less.prems(3,4)
      by (subst aggresiveMatch.simps)
        (auto simp: Let_def get_optimal_price_def get_order_at_prize_def split: if_splits)
    with L less.prems(1,6) show ?thesis by (intro exI [of _ s]) simp
  next
    case False
    then have go: "?q \<noteq> 0" "?best \<in> set ?ps" "levels ?b ?best \<noteq> []" by auto
    obtain s1 os q1 es where turn:
      "aggresiveMatch H is_buy s order = aggresiveMatch H is_buy s1 (order\<lparr>quantity := q1\<rparr>)"
      and m: "matched H is_buy order es s s1" and inv1: "lob_inv n (opp is_buy s1)"
      and same: "isBuy (opp is_buy s1) = (\<not> is_buy)" "max_price_possible (opp is_buy s1) = mx"
        "map length (book (opp is_buy s1)) = map length (book ?b)"
      and smaller: "unat q1 < unat ?q"
      and walk: "match_walk ?ps ?q (levels ?b) = match_walk ?ps q1 (levels (opp is_buy s1))"
        "walk_execs ?ps ?q (levels ?b) = es @ walk_execs ?ps q1 (levels (opp is_buy s1))"
      by (rule loop_turn [OF less.prems(1-4) go])
    have "0 < length (book ?b)" using sh by (simp add: shape_ok_def)
    then have ns: "\<not> spins is_buy pr (opp is_buy s1) q1"
      using spins_cong [OF same(3), of is_buy pr ?q q1] same(2) less.prems(3,5) walk(1) by simp
    have "\<exists>s'. aggresiveMatch H is_buy s1 (order\<lparr>quantity := q1\<rparr>) = Some (Inr (s', order\<lparr>quantity := q'\<rparr>)) \<and>
      matched H is_buy order (walk_execs ?ps q1 (levels (opp is_buy s1))) s1 s' \<and>
      lob_inv n (opp is_buy s') \<and> levels (opp is_buy s') = lv'"
      using less.hyps [of "order\<lparr>quantity := q1\<rparr>" s1] smaller inv1 same ns less.prems(4,6) walk(1)
      by simp
    then obtain s' where s': "aggresiveMatch H is_buy s1 (order\<lparr>quantity := q1\<rparr>) = Some (Inr (s', order\<lparr>quantity := q'\<rparr>))"
      "matched H is_buy order (walk_execs ?ps q1 (levels (opp is_buy s1))) s1 s'"
      "lob_inv n (opp is_buy s')" "levels (opp is_buy s') = lv'" by blast
    show ?thesis
      using turn walk(2) matched_append [OF m s'(2)] s'(1,3,4) by (intro exI [of _ s']) simp
  qed
qed

text \<open>And in the excluded case it does spin: a turn over a level of dead orders changes nothing.\<close>

lemma match_level_dead:
  "\<forall>c \<in> set cs. quantity (book (opp is_buy s) ! l ! c) = 0 \<Longrightarrow>
    match_level H is_buy l cs s order = Inr (s, order)"
  by (induction cs) simp_all

lemma aggresiveMatch_stuck:
  assumes "quantity order \<noteq> 0" and "price_index (price order) = Inr pr"
    and "\<not> (if is_buy then pr < best_price (opp is_buy s) else best_price (opp is_buy s) < pr)"
    and "best_price (opp is_buy s) < max_price_possible (opp is_buy s)"
    and "best_price (opp is_buy s) < length (book (opp is_buy s))"
    and "book (opp is_buy s) ! best_price (opp is_buy s) \<noteq> []"
    and "levels (opp is_buy s) (best_price (opp is_buy s)) = []"
  shows "aggresiveMatch H is_buy s order = None"
proof -
  let ?b = "opp is_buy s"
  have dead: "\<forall>c \<in> set [0..<length (book ?b ! best_price ?b)]. quantity (book ?b ! best_price ?b ! c) = 0"
    using assms(5,7) by (auto simp: levels_def filter_empty_conv live_def)
  have "(H', is_buy', s', order') \<noteq> (H, is_buy, s, order)"
    if "aggresiveMatch H' is_buy' s' order' = Some y" for H' is_buy' s' order' y
  proof (rule aggresiveMatch.raw_induct [OF _ that])
    fix f H' is_buy' s' order' y
    assume IH: "\<And>H' is_buy' s' order' y. f H' is_buy' s' order' = Some y \<Longrightarrow>
        (H', is_buy', s', order') \<noteq> (H, is_buy, s, order)"
      and body: "(if quantity order' = 0 then Some (Inr (s', order'))
        else bindO (Some (price_index (price order'))) (\<lambda>pr.
          let best = get_optimal_price (opp is_buy' s')
          in if (if is_buy' then pr < best else best < pr) then Some (Inr (s', order'))
             else case get_order_at_prize (opp is_buy' s') best of
               None \<Rightarrow> Some (Inr (s', order'))
             | Some l \<Rightarrow>
                 if book (opp is_buy' s') ! l = [] then Some (Inr (s', order'))
                 else bindO (Some (match_level H' is_buy' l [0..<length (book (opp is_buy' s') ! l)] s' order'))
                        (\<lambda>r. f H' is_buy' (fst r) (snd r)))) = Some y"
    show "(H', is_buy', s', order') \<noteq> (H, is_buy, s, order)"
    proof
      assume eq: "(H', is_buy', s', order') = (H, is_buy, s, order)"
      with body assms match_level_dead [OF dead, of H order]
      have "f H is_buy s order = Some y"
        by (simp add: Let_def get_optimal_price_def get_order_at_prize_def split: if_splits)
      with IH show False by blast
    qed
  qed
  note never = this
  show ?thesis
  proof (rule ccontr)
    assume "aggresiveMatch H is_buy s order \<noteq> None"
    then obtain y where "aggresiveMatch H is_buy s order = Some y" by blast
    with never show False by blast
  qed
qed

lemma aggresiveMatch_spins:
  assumes "lob_inv n (opp is_buy s)" and "isBuy (opp is_buy s) = (\<not> is_buy)"
    and "price_index (price order) = Inr pr"
    and "spins is_buy pr (opp is_buy s) (quantity order)"
  shows "aggresiveMatch H is_buy s order = None"
  using assms
proof (induction "unat (quantity order)" arbitrary: s order rule: less_induct)
  case less
  let ?b = "opp is_buy s" and ?q = "quantity order"
  let ?mx = "max_price_possible ?b" and ?best = "best_price ?b"
  let ?ps = "path is_buy ?mx pr"
  have sh: "shape_ok n ?b" and bo: "best_ok ?b" using lob_invD less.prems(1) by auto
  from less.prems(4) have sp: "\<not> is_buy" "pr = 0" "book ?b ! 0 \<noteq> []" "snd (match_walk ?ps ?q (levels ?b)) \<noteq> 0"
    unfolding spins_def by blast+
  with less.prems(2) bo have best: "?best < ?mx" by (simp add: best_ok_def)
  have q: "?q \<noteq> 0" using sp(4) by auto
  show ?case
  proof (cases "levels ?b ?best = []")
    case True
    with bo less.prems(2) sp(1) have "?best = 0" by (simp add: best_ok_def)
    with True sp q best less.prems(3) sh show ?thesis
      by (intro aggresiveMatch_stuck [of order pr]) (simp_all add: shape_ok_def)
  next
    case False
    have p: "?best \<in> set ?ps" using best sp(1,2) by (simp add: set_path)
    obtain s1 os q1 es where turn:
      "aggresiveMatch H is_buy s order = aggresiveMatch H is_buy s1 (order\<lparr>quantity := q1\<rparr>)"
      and inv1: "lob_inv n (opp is_buy s1)"
      and same: "isBuy (opp is_buy s1) = (\<not> is_buy)" "max_price_possible (opp is_buy s1) = ?mx"
        "map length (book (opp is_buy s1)) = map length (book ?b)"
      and smaller: "unat q1 < unat ?q"
      and walk: "match_walk ?ps ?q (levels ?b) = match_walk ?ps q1 (levels (opp is_buy s1))"
      by (rule loop_turn [OF less.prems(1,2) refl less.prems(3) q p False])
    have "0 < length (book ?b)" using sh by (simp add: shape_ok_def)
    then have "spins is_buy pr (opp is_buy s1) q1"
      using spins_cong [OF same(3), of is_buy pr ?q q1] same(2) less.prems(4) walk by simp
    then show ?thesis
      using less.hyps [of "order\<lparr>quantity := q1\<rparr>" s1] smaller inv1 same(1) less.prems(3) turn by simp
  qed
qed

subsection \<open>Broadcasting\<close>

lemma bcast_attempt_eq:
  "bcast_attempt H x s = (fst (publish (bcast_env H (acc s)) x (BroadCastQ s)),
     s\<lparr>BroadCastQ := snd (publish (bcast_env H (acc s)) x (BroadCastQ s)), acc := Suc (acc s)\<rparr>)"
  by (simp add: bcast_attempt_def split_def Let_def)

text \<open>
  The broadcast is never dropped, so the engine waits for its reader.  It gets through when the
  queue can hold everything ever published, or when the reader keeps reading.
\<close>

definition bcast_fair :: "hw \<Rightarrow> bool" where
  "bcast_fair H \<longleftrightarrow> (\<forall>k. \<exists>m \<ge> k. 0 < bcast_env H m)"

definition bcast_ready :: "hw \<Rightarrow> nat \<Rightarrow> ME \<Rightarrow> bool" where
  "bcast_ready H m s \<longleftrightarrow>
     port_inv (BroadCastQ s) \<and>
     (length (published (BroadCastQ s)) + m \<le> port_cap (BroadCastQ s) \<or>
      (0 < port_cap (BroadCastQ s) \<and> bcast_fair H))"

text \<open>\<open>told s s' xs\<close>: the broadcasts \<open>xs\<close> were made; the books and the other queues are as they were.\<close>

definition told :: "ME \<Rightarrow> ME \<Rightarrow> BroadCast list \<Rightarrow> bool" where
  "told s s' xs \<longleftrightarrow>
     port_inv (BroadCastQ s') \<and> port_cap (BroadCastQ s') = port_cap (BroadCastQ s) \<and>
     published (BroadCastQ s') = published (BroadCastQ s) @ xs \<and>
     (\<forall>b. opp b s' = opp b s \<and> own b s' = own b s) \<and> stats s' = stats s \<and> clk s' = clk s \<and>
     matchLog s' = matchLog s \<and> LobAck s' = LobAck s"

text \<open>The broadcasting loop is a publisher that spins.\<close>

abbreviation outside_bcast :: "ME \<Rightarrow> (bool \<Rightarrow> LOB) \<times> (bool \<Rightarrow> LOB) \<times> (LOBOrder LFQueue \<times> u64 list \<times> u64 list \<times> u64 list \<times>
    u64 list \<times> u64) \<times> nat \<times> LogElement port \<times> LOBAck port" where
  "outside_bcast s \<equiv> (\<lambda>b. opp b s, \<lambda>b. own b s, stats s, clk s, matchLog s, LobAck s)"

lemma bcast_spin_least:
  assumes "P s" and goes_on: "\<And>s. P s \<Longrightarrow> \<exists>p. publish (bcast_env H (acc s)) x (BroadCastQ s) = (False, p) \<and>
    P (s\<lparr>BroadCastQ := p, acc := Suc (acc s)\<rparr>)"
  shows "bcast_spin H x s = None"
proof -
  have "\<not> (H' = H \<and> x' = x \<and> P s')" if "bcast_spin H' x' s' = Some y" for H' x' s' y
  proof (rule bcast_spin.raw_induct [OF _ that])
    fix f H' x' s' y
    assume IH: "\<And>H' x' s' y. f H' x' s' = Some y \<Longrightarrow> \<not> (H' = H \<and> x' = x \<and> P s')"
      and body: "(if fst (bcast_attempt H' x' s') then Some (snd (bcast_attempt H' x' s'))
        else f H' x' (snd (bcast_attempt H' x' s'))) = Some y"
    show "\<not> (H' = H \<and> x' = x \<and> P s')"
    proof
      assume st: "H' = H \<and> x' = x \<and> P s'"
      then obtain p where "publish (bcast_env H (acc s')) x (BroadCastQ s') = (False, p)"
        "P (s'\<lparr>BroadCastQ := p, acc := Suc (acc s')\<rparr>)" using goes_on by blast
      with body st IH show False by (auto simp: bcast_attempt_eq)
    qed
  qed
  with assms(1) show ?thesis by (metis option.exhaust)
qed

interpretation bc: spin_publisher BroadCastQ acc "\<lambda>p s. s\<lparr>BroadCastQ := p, acc := Suc (acc s)\<rparr>"
  outside_bcast "bcast_env H" "bcast_spin H" for H
proof
  show "bcast_spin H x s = (if b then Some (s\<lparr>BroadCastQ := p, acc := Suc (acc s)\<rparr>)
      else bcast_spin H x (s\<lparr>BroadCastQ := p, acc := Suc (acc s)\<rparr>))"
    if "publish (bcast_env H (acc s)) x (BroadCastQ s) = (b, p)" for s x b p
    using that by (subst bcast_spin.simps) (simp add: bcast_attempt_eq)
qed (simp_all add: frame_simps, rule bcast_spin_least, blast+)

lemma told_spun: "spun BroadCastQ outside_bcast s s' x \<Longrightarrow> told s s' [x]"
  by (auto simp: spun_def told_def dest: fun_cong)

lemma bcast_spin_returns:
  assumes "bcast_ready H (Suc m) s"
  shows "\<exists>s'. bcast_spin H x s = Some s' \<and> told s s' [x] \<and> bcast_ready H m s'"
proof -
  have "\<exists>s'. bcast_spin H x s = Some s' \<and> spun BroadCastQ outside_bcast s s' x"
    by (rule bc.spin_returns) (use assms in \<open>auto simp: bcast_ready_def bcast_fair_def\<close>)
  then obtain s' where "bcast_spin H x s = Some s'" "told s s' [x]" using told_spun by blast
  then show ?thesis using assms by (auto simp: told_def bcast_ready_def)
qed

text \<open>When the queue is full and its reader has stopped, the engine waits for ever.\<close>

lemma bcast_spin_blocked:
  assumes "port_inv (BroadCastQ s)" and "lfq_size (chan (BroadCastQ s)) = port_cap (BroadCastQ s)"
    and "\<forall>k \<ge> acc s. bcast_env H k = 0"
  shows "bcast_spin H x s = None"
  using assms by (rule bc.spin_blocked)

end
