(* ===== verification/EngineProofs.thy ===== *)
theory EngineProofs
  imports MatchingProofs
begin

text \<open>
  The operations of \<open>MatchingEngine\<close> on its two books: what they do to the queues of live
  orders, what they log, acknowledge and broadcast, and that they keep the engine's invariant,
  which includes that the market is never crossed.
\<close>

subsection \<open>The two books\<close>

lemma opp_own: "opp b s = own (\<not> b) s"
  by (simp add: opp_def own_def)

definition uncrossed :: "ME \<Rightarrow> bool" where
  "uncrossed s \<longleftrightarrow>
     (\<forall>p q. levels (BuyOrderBook s) p \<noteq> [] \<longrightarrow> levels (SellOrderBook s) q \<noteq> [] \<longrightarrow> p < q)"

definition me_inv :: "nat \<Rightarrow> nat \<Rightarrow> ME \<Rightarrow> bool" where
  "me_inv n mx s \<longleftrightarrow>
     (\<forall>b. lob_inv n (own b s) \<and> isBuy (own b s) = b \<and> max_price_possible (own b s) = mx) \<and> uncrossed s"

lemma me_invD:
  assumes "me_inv n mx s"
  shows "lob_inv n (own b s)" and "isBuy (own b s) = b" and "max_price_possible (own b s) = mx"
    and "lob_inv n (opp b s)" and "isBuy (opp b s) = (\<not> b)" and "max_price_possible (opp b s) = mx"
    and "uncrossed s"
  using assms by (simp_all add: me_inv_def opp_own)

lemma me_inv_books:
  assumes "me_inv n mx s" and "own b s' = own b s" and "opp b s' = opp b s"
  shows "me_inv n mx s'"
proof -
  have "BuyOrderBook s' = BuyOrderBook s \<and> SellOrderBook s' = SellOrderBook s"
    using assms(2,3) by (cases b) (simp_all add: own_def opp_def)
  then have "own x s' = own x s" "uncrossed s' = uncrossed s" for x
    by (simp_all add: own_def uncrossed_def)
  with assms(1) show ?thesis by (simp add: me_inv_def)
qed

lemma me_invI:
  assumes "lob_inv n (own b s)" and "isBuy (own b s) = b" and "max_price_possible (own b s) = mx"
    and "lob_inv n (opp b s)" and "isBuy (opp b s) = (\<not> b)" and "max_price_possible (opp b s) = mx"
    and "uncrossed s"
  shows "me_inv n mx s"
proof -
  have "lob_inv n (own x s) \<and> isBuy (own x s) = x \<and> max_price_possible (own x s) = mx" for x
    using assms by (cases "x = b") (auto simp: opp_own)
  with assms(7) show ?thesis by (simp add: me_inv_def)
qed

text \<open>The market is not crossed, seen from the side an order comes from.\<close>

lemma uncrossed_side:
  "uncrossed s \<longleftrightarrow>
    (\<forall>p q. levels (own b s) p \<noteq> [] \<longrightarrow> levels (opp b s) q \<noteq> [] \<longrightarrow> (if b then p < q else q < p))"
  by (cases b) (auto simp: uncrossed_def own_def opp_def)

lemma uncrossed_less:
  assumes "uncrossed s" and "\<And>p. levels (own b s') p \<noteq> [] \<Longrightarrow> levels (own b s) p \<noteq> []"
    and "\<And>p. levels (opp b s') p \<noteq> [] \<Longrightarrow> levels (opp b s) p \<noteq> []"
  shows "uncrossed s'"
  using assms unfolding uncrossed_side [where b = b] by blast

lemma lob_inv_mono: "lob_inv n b \<Longrightarrow> n \<le> m \<Longrightarrow> m < 2 ^ 31 \<Longrightarrow> lob_inv m b"
  by (auto simp: lob_inv_def core_inv_def shape_ok_def)

subsection \<open>What an operation says to the outside\<close>

text \<open>
  \<open>outputs s s' ls as bs\<close>: from \<open>s\<close> to \<open>s'\<close> the engine tried to log \<open>ls\<close>, tried to acknowledge
  \<open>as\<close> and broadcast \<open>bs\<close>; the incoming queue and the latency samples are as they were.
\<close>

definition outputs :: "ME \<Rightarrow> ME \<Rightarrow> LogElement list \<Rightarrow> LOBAck list \<Rightarrow> BroadCast list \<Rightarrow> bool" where
  "outputs s s' ls as bs \<longleftrightarrow>
     sends (matchLog s) (matchLog s') ls \<and> sends (LobAck s) (LobAck s') as \<and>
     (port_inv (BroadCastQ s) \<longrightarrow> port_inv (BroadCastQ s') \<and>
        port_cap (BroadCastQ s') = port_cap (BroadCastQ s) \<and>
        published (BroadCastQ s') = published (BroadCastQ s) @ bs) \<and>
     stats s' = stats s"

lemma outputs_append:
  "outputs s s1 ls as bs \<Longrightarrow> outputs s1 s2 ls' as' bs' \<Longrightarrow> outputs s s2 (ls @ ls') (as @ as') (bs @ bs')"
  by (auto simp: outputs_def intro: sends_append)

lemma outputs_quiet:
  assumes "matchLog s' = matchLog s" and "LobAck s' = LobAck s" and "BroadCastQ s' = BroadCastQ s"
    and "stats s' = stats s"
  shows "outputs s s' [] [] []"
  using assms by (simp add: outputs_def)

lemma outputs_matched:
  "matched H b order es s s' \<Longrightarrow> outputs s s' (exec_log H (clk s) order es) (exec_acks order es) []"
  by (simp add: matched_def outputs_def)

lemma outputs_told: "told s s' xs \<Longrightarrow> outputs s s' [] [] xs"
  by (simp add: told_def outputs_def)

lemma outputs_log_write:
  "outputs s (log_write H lid t v s) [\<lparr>log_id = lid, timestamp = t, log_data = v\<rparr>] [] []"
  by (simp add: outputs_def log_write_sends frame_simps)

lemma outputs_Ack: "outputs s (Ack H ord i t q s) [] [ack_of ord i t q] []"
  by (simp add: outputs_def Ack_sends frame_simps)

lemma bcast_ready_cong:
  "BroadCastQ s' = BroadCastQ s \<Longrightarrow> bcast_ready H m s' = bcast_ready H m s"
  by (simp add: bcast_ready_def)

lemma bcast_ready_mono: "bcast_ready H m s \<Longrightarrow> k \<le> m \<Longrightarrow> bcast_ready H k s"
  by (auto simp: bcast_ready_def)

text \<open>
  The part \<open>create_order\<close>, \<open>updateOrder\<close> and \<open>deleteOrder\<close> share: log the order, broadcast it,
  acknowledge it when it is the engine owner's (\<open>trade_id\<close> 1).
\<close>

definition bcast_of :: "LOBOrder \<Rightarrow> char \<Rightarrow> bool \<Rightarrow> BroadCast" where
  "bcast_of ord t b = \<lparr>bc_system_id = system_id ord, bc_price = price ord, bc_quantity = quantity ord,
     bc_side = side_char b, bc_type = t\<rparr>"

definition own_acks :: "LOBOrder \<Rightarrow> nat \<Rightarrow> char \<Rightarrow> LOBAck list" where
  "own_acks ord p t = (if trade_id ord = 1 then [ack_of ord p t (quantity ord)] else [])"

definition announced :: "hw \<Rightarrow> ME \<Rightarrow> u64 \<Rightarrow> LOBOrder \<Rightarrow> nat \<Rightarrow> char \<Rightarrow> bool \<Rightarrow> ME \<Rightarrow> bool" where
  "announced H s lid ord p t b s' \<longleftrightarrow>
     outputs s s' [\<lparr>log_id = lid, timestamp = tsc H (clk s), log_data = VLOBOrder ord\<rparr>]
       (own_acks ord p t) [bcast_of ord t b] \<and>
     own b s' = own b s \<and> opp b s' = opp b s \<and> clk s' = Suc (clk s)"

lemma announce:
  assumes ready: "bcast_ready H (Suc m) s" and px: "trade_id ord = 1 \<Longrightarrow> price_index (price ord) = Inr p"
  obtains s3 s' where
    "changeInQuantity H (system_id ord) (price ord) (quantity ord) t (side_char b)
       (log_write H lid (tsc H (clk s)) (VLOBOrder ord) (s\<lparr>clk := Suc (clk s)\<rparr>)) = Some (Inr s3)"
    and "ack_sniper H ord t s3 = Inr s'" and "announced H s lid ord p t b s'" and "bcast_ready H m s'"
proof -
  let ?s1 = "s\<lparr>clk := Suc (clk s)\<rparr>"
  let ?s2 = "log_write H lid (tsc H (clk s)) (VLOBOrder ord) ?s1"
  have "bcast_ready H (Suc m) ?s2" using ready by (simp add: bcast_ready_def frame_simps)
  then obtain s3 where s3: "bcast_spin H (bcast_of ord t b) ?s2 = Some s3" "told ?s2 s3 [bcast_of ord t b]"
    "bcast_ready H m s3"
    using bcast_spin_returns by blast
  define s' where "s' = (if trade_id ord = 1 then Ack H ord p t (quantity ord) s3 else s3)"
  have "outputs s ?s1 [] [] []" by (rule outputs_quiet) (simp_all add: frame_simps)
  moreover have "outputs ?s1 ?s2 [\<lparr>log_id = lid, timestamp = tsc H (clk s), log_data = VLOBOrder ord\<rparr>] [] []"
    by (rule outputs_log_write)
  moreover have "outputs ?s2 s3 [] [] [bcast_of ord t b]" using s3(2) by (rule outputs_told)
  moreover have "outputs s3 s' [] (own_acks ord p t) []"
    using outputs_Ack [of s3 H ord p t "quantity ord"] outputs_quiet [of s3 s3]
    by (simp add: s'_def own_acks_def)
  ultimately have "outputs s s' ([] @ [\<lparr>log_id = lid, timestamp = tsc H (clk s), log_data = VLOBOrder ord\<rparr>] @ [] @ [])
      ([] @ [] @ [] @ own_acks ord p t) ([] @ [] @ [bcast_of ord t b] @ [])"
    by (meson outputs_append)
  moreover have "own b s' = own b s" "opp b s' = opp b s" "clk s' = Suc (clk s)"
    using s3(2) by (simp_all add: s'_def told_def frame_simps)
  ultimately have "announced H s lid ord p t b s'" by (simp add: announced_def)
  moreover have "bcast_ready H m s'" using s3(3) by (simp add: s'_def bcast_ready_def frame_simps)
  moreover have "ack_sniper H ord t s3 = Inr s'" using px by (simp add: ack_sniper_def s'_def)
  moreover have "changeInQuantity H (system_id ord) (price ord) (quantity ord) t (side_char b) ?s2 = Some (Inr s3)"
    using s3(1) by (simp add: changeInQuantity_def bcast_of_def)
  ultimately show thesis using that by blast
qed

subsection \<open>Creating an order\<close>

lemma match_walk_nonempty:
  "match_walk ps q lv = (lv', q') \<Longrightarrow> lv' r \<noteq> [] \<Longrightarrow> lv r \<noteq> []"
proof (induction ps arbitrary: q lv)
  case (Cons p ps)
  obtain os q1 where f: "fill q (lv p) = (os, q1)" by fastforce
  with Cons.prems(1) have w: "match_walk ps q1 (lv(p := os)) = (lv', q')" by simp
  have "(lv(p := os)) r \<noteq> []" by (rule Cons.IH [OF w Cons.prems(2)])
  moreover have "os = []" if "lv p = []" using f that by simp
  ultimately show ?case by (auto split: if_splits)
qed simp

text \<open>The state after an order was matched and, if anything is left of it, entered in its own book.\<close>

definition created :: "hw \<Rightarrow> LOBOrder \<Rightarrow> nat \<Rightarrow> bool \<Rightarrow> ME \<Rightarrow> u32 \<Rightarrow> (nat \<Rightarrow> LOBOrder list) \<Rightarrow> ME \<Rightarrow> bool" where
  "created H order pr b s q' lv' s' \<longleftrightarrow>
     (let es = walk_execs (path b (max_price_possible (opp b s)) pr) (quantity order) (levels (opp b s));
          ord = order\<lparr>quantity := q'\<rparr>
      in levels (opp b s') = lv' \<and>
         levels (own b s') =
           (if q' = 0 then levels (own b s) else (levels (own b s))(pr := levels (own b s) pr @ [ord])) \<and>
         outputs s s'
           (exec_log H (clk s) order es @
             (if q' = 0 then []
              else [\<lparr>log_id = LOB_CREATE_ORDER, timestamp = tsc H (clk s + length es), log_data = VLOBOrder ord\<rparr>]))
           (exec_acks order es @ (if q' = 0 then [] else own_acks ord pr (CHR ''N'')))
           (if q' = 0 then [] else [bcast_of ord (CHR ''N'') b]) \<and>
         (\<forall>i. LUT (opp b s) i = (NPOS, NPOS) \<longrightarrow> LUT (opp b s') i = (NPOS, NPOS)) \<and>
         (\<forall>i. i \<noteq> unat (system_id order) \<longrightarrow> LUT (own b s') i = LUT (own b s) i))"

lemma uncrossed_created:
  assumes "uncrossed s" and walk: "match_walk (path b mx pr) q (levels (opp b s)) = (lv', q')"
    and "levels (opp b s') = lv'" and mx: "max_price_possible (opp b s') = mx"
    and len: "length (book (opp b s')) = mx"
    and own: "\<And>p. levels (own b s') p \<noteq> [] \<Longrightarrow> levels (own b s) p \<noteq> [] \<or> (q' \<noteq> 0 \<and> p = pr)"
  shows "uncrossed s'"
  unfolding uncrossed_side [where b = b]
proof (intro allI impI)
  fix p r assume p: "levels (own b s') p \<noteq> []" and r: "levels (opp b s') r \<noteq> []"
  have r0: "levels (opp b s) r \<noteq> []" using match_walk_nonempty [OF walk] r assms(3) by simp
  from own [OF p] show "if b then p < r else r < p"
  proof
    assume "levels (own b s) p \<noteq> []"
    with r0 assms(1) show ?thesis unfolding uncrossed_side [where b = b] by blast
  next
    assume new: "q' \<noteq> 0 \<and> p = pr"
    then have "r \<notin> set (path b mx pr)"
      using match_walk_rest [OF walk, of r] r assms(3) by auto
    moreover have "r < mx" using r len by (auto simp: levels_def split: if_splits)
    ultimately show ?thesis using new by (auto simp: set_path split: if_splits)
  qed
qed

text \<open>The engine when the matching has returned with \<open>q'\<close> left of the order.\<close>

definition after_matching :: "hw \<Rightarrow> LOBOrder \<Rightarrow> nat \<Rightarrow> bool \<Rightarrow> nat \<Rightarrow> ME \<Rightarrow> u32 \<Rightarrow> (nat \<Rightarrow> LOBOrder list) \<Rightarrow> ME \<Rightarrow> bool" where
  "after_matching H order pr b n s q' lv' s1 \<longleftrightarrow>
     aggresiveMatch H b s order = Some (Inr (s1, order\<lparr>quantity := q'\<rparr>)) \<and>
     matched H b order (walk_execs (path b (max_price_possible (opp b s)) pr) (quantity order) (levels (opp b s))) s s1 \<and>
     lob_inv n (opp b s1) \<and> levels (opp b s1) = lv'"

lemma after_matching_book:
  assumes inv: "me_inv n mx s" and n: "Suc n < 2 ^ 31" and m: "after_matching H order pr b n s q' lv' s1"
  shows "max_price_possible (opp b s1) = mx" and "isBuy (opp b s1) = (\<not> b)" and "own b s1 = own b s"
    and "lob_inv (Suc n) (opp b s1)" and "length (book (opp b s1)) = mx" and "BroadCastQ s1 = BroadCastQ s"
proof -
  note I = me_invD [OF inv] and M = m [unfolded after_matching_def matched_def]
  show mx: "max_price_possible (opp b s1) = mx" and "isBuy (opp b s1) = (\<not> b)" "own b s1 = own b s" "BroadCastQ s1 = BroadCastQ s"
    using M I by auto
  show "lob_inv (Suc n) (opp b s1)" using M lob_inv_mono [OF _ _ n, of n] by simp
  have "lob_inv n (opp b s1)" using M by blast
  from lob_invD(3) [OF this] mx show "length (book (opp b s1)) = mx" by (simp add: shape_ok_def)
qed

lemma create_order_filled:
  assumes inv: "me_inv n mx s" and n: "Suc n < 2 ^ 31"
    and walk: "match_walk (path b mx pr) (quantity order) (levels (opp b s)) = (lv', 0)"
    and m: "after_matching H order pr b n s 0 lv' s1" and ready: "bcast_ready H (Suc m) s"
  shows "\<exists>t s'. create_order H order b s = Some (Inr (t, order\<lparr>quantity := 0\<rparr>, s')) \<and> me_inv (Suc n) mx s' \<and>
    created H order pr b s 0 lv' s' \<and> bcast_ready H m s'"
proof -
  note I = me_invD [OF inv] and M = m [unfolded after_matching_def] and O = after_matching_book [OF inv n m]
  let ?s = "s1\<lparr>clk := Suc (clk s1)\<rparr>"
  let ?es = "walk_execs (path b (max_price_possible (opp b s)) pr) (quantity order) (levels (opp b s))"
  have lv: "levels (opp b s1) = lv'" using M by blast
  have "create_order H order b s = Some (Inr (tsc H (clk s1), order\<lparr>quantity := 0\<rparr>, ?s))"
    using M by (simp add: create_order_def now_cycle_eq)
  moreover have "uncrossed ?s"
    by (rule uncrossed_created [OF I(7) walk]) (simp_all add: frame_simps lv O)
  then have "me_inv (Suc n) mx ?s"
    using lob_inv_mono [OF I(1) _ n, of b] I(2,3) O by (intro me_invI [where b = b]) (simp_all add: frame_simps)
  moreover have "outputs s s1 (exec_log H (clk s) order ?es) (exec_acks order ?es) []"
    using M by (blast intro: outputs_matched)
  then have "outputs s ?s (exec_log H (clk s) order ?es @ []) (exec_acks order ?es @ []) ([] @ [])"
    by (rule outputs_append [OF _ outputs_quiet]) (simp_all add: frame_simps)
  then have "created H order pr b s 0 lv' ?s"
    using M O(3) by (simp add: created_def matched_def Let_def frame_simps)
  moreover have "bcast_ready H m ?s"
    using bcast_ready_mono [OF ready, of m] O(6) by (simp add: bcast_ready_def)
  ultimately show ?thesis by blast
qed

lemma create_order_entered:
  assumes inv: "me_inv n mx s" and n: "Suc n < 2 ^ 31"
    and px: "price_index (price order) = Inr pr" and pr: "pr < mx"
    and sid: "unat (system_id order) < LUT_SIZE"
    and fresh: "LUT (own b s) (unat (system_id order)) = (NPOS, NPOS)"
    and walk: "match_walk (path b mx pr) (quantity order) (levels (opp b s)) = (lv', q')"
    and m: "after_matching H order pr b n s q' lv' s1" and ready: "bcast_ready H (Suc m) s" and q: "q' \<noteq> 0"
  shows "\<exists>t s'. create_order H order b s = Some (Inr (t, order\<lparr>quantity := q'\<rparr>, s')) \<and> me_inv (Suc n) mx s' \<and>
    created H order pr b s q' lv' s' \<and> bcast_ready H m s'"
proof -
  note I = me_invD [OF inv] and M = m [unfolded after_matching_def] and O = after_matching_book [OF inv n m]
  let ?ord = "order\<lparr>quantity := q'\<rparr>"
  let ?es = "walk_execs (path b (max_price_possible (opp b s)) pr) (quantity order) (levels (opp b s))"
  have lv: "levels (opp b s1) = lv'" and clk1: "clk s1 = clk s + length ?es" using M by (auto simp: matched_def)
  obtain bk where bk: "createOrder (own b s) ?ord = Inr bk" "lob_inv (Suc n) bk"
    "levels bk = (levels (own b s))(pr := levels (own b s) pr @ [?ord])"
    "isBuy bk = isBuy (own b s)" "max_price_possible bk = max_price_possible (own b s)"
    "LUT bk = (LUT (own b s))(unat (system_id order) := (pr, length (book (own b s) ! pr)))"
    using createOrder_inv [OF I(1), of ?ord pr b "unat (system_id order)"] px pr sid fresh n q I(3)
    by (auto simp: live_def)
  let ?s2 = "set_own b bk s1"
  have px': "price_index (price ?ord) = Inr pr" using px by simp
  have ready2: "bcast_ready H (Suc m) ?s2" using ready O(6) by (simp add: bcast_ready_def frame_simps)
  obtain s3 s4 where s4:
    "changeInQuantity H (system_id ?ord) (price ?ord) (quantity ?ord) (CHR ''N'') (side_char b)
       (log_write H LOB_CREATE_ORDER (tsc H (clk ?s2)) (VLOBOrder ?ord) (?s2\<lparr>clk := Suc (clk ?s2)\<rparr>)) = Some (Inr s3)"
    "ack_sniper H ?ord (CHR ''N'') s3 = Inr s4"
    "announced H ?s2 LOB_CREATE_ORDER ?ord pr (CHR ''N'') b s4" "bcast_ready H m s4"
    by (rule announce [OF ready2 px'])
  let ?s = "s4\<lparr>clk := Suc (clk s4)\<rparr>"
  note A = s4(3) [unfolded announced_def]
  have run: "create_order H order b s = Some (Inr (tsc H (clk s4), ?ord, ?s))"
    using M q bk(1) O(3) s4(1,2) by (simp add: create_order_def now_cycle_eq)
  have books: "opp b ?s = opp b s1" "own b ?s = bk" using A by (simp_all add: frame_simps)
  have "uncrossed ?s"
    by (rule uncrossed_created [OF I(7) walk])
      (use bk(3) q in \<open>simp_all add: books lv O split: if_splits\<close>)
  then have me: "me_inv (Suc n) mx ?s"
    using bk I(2,3) O by (intro me_invI [where b = b]) (simp_all add: books)
  have "outputs s ?s (exec_log H (clk s) order ?es @ [] @
      [\<lparr>log_id = LOB_CREATE_ORDER, timestamp = tsc H (clk ?s2), log_data = VLOBOrder ?ord\<rparr>] @ [])
      (exec_acks order ?es @ [] @ own_acks ?ord pr (CHR ''N'') @ []) ([] @ [] @ [bcast_of ?ord (CHR ''N'') b] @ [])"
  proof (intro outputs_append)
    show "outputs s s1 (exec_log H (clk s) order ?es) (exec_acks order ?es) []" using M by (blast intro: outputs_matched)
    show "outputs s1 ?s2 [] [] []" by (rule outputs_quiet) (simp_all add: frame_simps)
    show "outputs ?s2 s4 [\<lparr>log_id = LOB_CREATE_ORDER, timestamp = tsc H (clk ?s2), log_data = VLOBOrder ?ord\<rparr>]
      (own_acks ?ord pr (CHR ''N'')) [bcast_of ?ord (CHR ''N'') b]" using A by blast
    show "outputs s4 ?s [] [] []" by (rule outputs_quiet) (simp_all add: frame_simps)
  qed
  then have "created H order pr b s q' lv' ?s"
    using q M books bk(3,6) clk1 by (simp add: created_def matched_def Let_def frame_simps)
  moreover have "bcast_ready H m ?s" using s4(4) by (simp add: bcast_ready_def)
  ultimately show ?thesis using run me by blast
qed

lemma create_order_correct:
  assumes inv: "me_inv n mx s" and n: "Suc n < 2 ^ 31"
    and px: "price_index (price order) = Inr pr" and pr: "pr < mx"
    and sid: "unat (system_id order) < LUT_SIZE"
    and fresh: "LUT (own b s) (unat (system_id order)) = (NPOS, NPOS)"
    and ends: "\<not> spins b pr (opp b s) (quantity order)"
    and walk: "match_walk (path b mx pr) (quantity order) (levels (opp b s)) = (lv', q')"
    and ready: "bcast_ready H (Suc m) s"
  obtains t s' where "create_order H order b s = Some (Inr (t, order\<lparr>quantity := q'\<rparr>, s'))"
    and "me_inv (Suc n) mx s'" and "created H order pr b s q' lv' s'" and "bcast_ready H m s'"
proof -
  note I = me_invD [OF inv]
  obtain s1 where "after_matching H order pr b n s q' lv' s1"
    using aggresiveMatch_refines [OF I(4-6) px ends walk, of H] unfolding after_matching_def I(6) by blast
  then show thesis
    using create_order_filled [OF inv n _ _ ready] create_order_entered [OF inv n px pr sid fresh walk _ ready] walk that
    by (cases "q' = 0") blast+
qed

subsection \<open>Deleting an order\<close>

text \<open>The order a deletion announces: an order in the book has lost its quantity by then.\<close>

definition deleted_order :: "bool \<Rightarrow> ME \<Rightarrow> order_ref \<Rightarrow> LOBOrder" where
  "deleted_order b s r = (case r of Local ord \<Rightarrow> ord | InBook p c \<Rightarrow> (book (own b s) ! p ! c)\<lparr>quantity := 0\<rparr>)"

definition deleted :: "hw \<Rightarrow> LOBOrder \<Rightarrow> nat \<Rightarrow> nat \<Rightarrow> bool \<Rightarrow> ME \<Rightarrow> ME \<Rightarrow> bool" where
  "deleted H ord p i b s s' \<longleftrightarrow>
     opp b s' = opp b s \<and> levels (own b s') = (\<lambda>q. remove_id i (levels (own b s) q)) \<and>
     LUT (own b s') = (LUT (own b s))(i := (NPOS, NPOS)) \<and> clk s' = clk s + 2 \<and>
     outputs s s' [\<lparr>log_id = LOB_DELETE_ORDER, timestamp = tsc H (clk s), log_data = VLOBOrder ord\<rparr>]
       (own_acks ord p (CHR ''D'')) [bcast_of ord (CHR ''D'') b]"

lemma remove_id_nonempty: "remove_id i os \<noteq> [] \<Longrightarrow> os \<noteq> []"
  by (auto simp: remove_id_def)

lemma deleteOrder_ME_correct:
  assumes inv: "me_inv n mx s" and res: "resting (own b s) p c"
    and sid: "unat (system_id (deref b r s)) = sid_at (own b s) p c"
    and at: "\<And>p' c'. r = InBook p' c' \<Longrightarrow> p' = p \<and> c' = c"
    and px: "trade_id (deref b r s) = 1 \<Longrightarrow> price_index (price (deref b r s)) = Inr k"
    and ready: "bcast_ready H (Suc m) s"
  obtains t s' where "deleteOrder_ME H r b s = Some (Inr (t, s'))" and "me_inv n mx s'"
    and "deleted H (deleted_order b s r) k (sid_at (own b s) p c) b s s'" and "bcast_ready H m s'"
proof -
  note I = me_invD [OF inv]
  let ?i = "sid_at (own b s) p c" and ?ord = "deleted_order b s r"
  note core = lob_invD(1) [OF I(1)]
  obtain bk where bk: "deleteOrder (own b s) (int ?i) = Inr bk" "lob_inv n bk"
    "levels bk = (\<lambda>q. remove_id ?i (levels (own b s) q))"
    "isBuy bk = isBuy (own b s)" "max_price_possible bk = max_price_possible (own b s)"
    "book bk = book (set_quantity (own b s) p c 0)" "LUT bk = (LUT (own b s))(?i := (NPOS, NPOS))"
    by (rule deleteOrder_resting [OF I(1) res refl])
  let ?s1 = "(set_own b bk s)\<lparr>clk := Suc (clk s)\<rparr>" and ?sb = "set_own b bk s"
  have ord: "deref b r ?s1 = ?ord"
  proof (cases r)
    case (InBook p' c')
    then show ?thesis
      using at [OF InBook] by (simp add: deref_def deleted_order_def frame_simps bk(6)
          set_quantity_at [OF restingD(1,2) [OF res]])
  qed (simp add: deref_def deleted_order_def)
  have same: "trade_id ?ord = trade_id (deref b r s)" "price ?ord = price (deref b r s)"
    by (simp_all add: deleted_order_def deref_def split: order_ref.splits)
  have ready0: "bcast_ready H (Suc m) ?sb" using ready by (simp add: bcast_ready_def frame_simps)
  have px': "price_index (price ?ord) = Inr k" if "trade_id ?ord = 1" using px that same by simp
  obtain s3 s4 where s4:
    "changeInQuantity H (system_id ?ord) (price ?ord) (quantity ?ord) (CHR ''D'') (side_char b)
       (log_write H LOB_DELETE_ORDER (tsc H (clk ?sb)) (VLOBOrder ?ord) (?sb\<lparr>clk := Suc (clk ?sb)\<rparr>)) = Some (Inr s3)"
    "ack_sniper H ?ord (CHR ''D'') s3 = Inr s4"
    "announced H ?sb LOB_DELETE_ORDER ?ord k (CHR ''D'') b s4" "bcast_ready H m s4"
    by (rule announce [OF ready0 px'])
  note A = s4(3) [unfolded announced_def]
  let ?s = "s4\<lparr>clk := Suc (clk s4)\<rparr>"
  have "?i < 2 ^ 31" using core_resting(1) [OF core res] by (simp add: LUT_SIZE_def)
  then have run: "deleteOrder_ME H r b s = Some (Inr (tsc H (clk s4), ?s))"
    using bk(1) sid s4(1,2) ord by (simp add: deleteOrder_ME_def now_cycle_eq frame_simps)
  have books: "opp b ?s = opp b s" "own b ?s = bk" using A by (simp_all add: frame_simps)
  have "uncrossed ?s"
    by (rule uncrossed_less [OF I(7), where b = b])
      (auto simp: books bk(3) dest: remove_id_nonempty)
  then have "me_inv n mx ?s"
    using bk I by (intro me_invI [where b = b]) (simp_all add: books)
  moreover have "outputs s ?s [\<lparr>log_id = LOB_DELETE_ORDER, timestamp = tsc H (clk ?sb),
      log_data = VLOBOrder ?ord\<rparr>] (own_acks ?ord k (CHR ''D'')) [bcast_of ?ord (CHR ''D'') b]"
  proof -
    have "outputs s ?sb [] [] []" by (rule outputs_quiet) (simp_all add: frame_simps)
    moreover have "outputs s4 ?s [] [] []" by (rule outputs_quiet) (simp_all add: frame_simps)
    ultimately show ?thesis
      using A outputs_append [of s ?sb "[]" "[]" "[]" s4] outputs_append [of s s4 _ _ _ ?s "[]" "[]" "[]"]
      by fastforce
  qed
  then have "deleted H ?ord k ?i b s ?s"
    using A by (simp add: deleted_def books bk(3,7) frame_simps)
  moreover have "bcast_ready H m ?s" using s4(4) by (simp add: bcast_ready_def)
  ultimately show thesis using that run by blast
qed

text \<open>
  The source does not check that the id has an order.  For an id in the range of the table with
  no order the entry is \<open>-1\<close>, and the vector is indexed with it.
\<close>

lemma deleteOrder_unknown:
  assumes "lob_inv n b" and "i < LUT_SIZE" and "LUT b i = (NPOS, NPOS)"
  shows "deleteOrder b (int i) = Inl OutOfBounds"
proof -
  have "length (book b) < NPOS"
    using lob_invD(3) [OF assms(1)] NPOS_big by (auto simp: shape_ok_def)
  moreover have "size_of_int (int i) = i"
    using assms(2) by (simp add: LUT_SIZE_def)
  ultimately show ?thesis
    using assms(2,3) by (simp add: deleteOrder_def Let_def)
qed

lemma deleteOrder_ME_unknown:
  assumes inv: "me_inv n mx s" and i: "unat (system_id ord) < LUT_SIZE"
    and "LUT (own b s) (unat (system_id ord)) = (NPOS, NPOS)"
  shows "deleteOrder_ME H (Local ord) b s = Some (Inl OutOfBounds)"
proof -
  have "unat (system_id ord) < 2 ^ 31" using i by (simp add: LUT_SIZE_def)
  then show ?thesis
    using deleteOrder_unknown [OF me_invD(1) [OF inv] assms(2,3)]
    by (simp add: deleteOrder_ME_def deref_def)
qed

end
