(* ===== verification/Requests.thy ===== *)
theory Requests
  imports EngineProofs
begin

text \<open>
  \<open>updateOrder\<close> on each of its branches, and \<open>readOrder\<close>: one request taken from the queue,
  dispatched, measured and released.
\<close>

subsection \<open>Updating an order\<close>

lemma peekOrder_resting:
  assumes "core_inv n b" and "resting b p c" and "unat i = sid_at b p c"
  shows "peekOrder b i = Inr (Some (p, c))"
  using core_resting [OF assms(1,2)] restingD [OF assms(2)] assms(3) NPOS_big
  by (auto simp: peekOrder_def)

lemma peekOrder_unknown:
  assumes "LUT_SIZE \<le> unat i \<or> LUT b (unat i) = (NPOS, NPOS)"
  shows "peekOrder b i = Inr None"
  using assms by (auto simp: peekOrder_def)

lemma updateOrder_unknown:
  assumes "LUT_SIZE \<le> unat (system_id order) \<or> LUT (own b s) (unat (system_id order)) = (NPOS, NPOS)"
  shows "updateOrder H order b s = Some (Inr (0, order, s))"
  by (simp add: updateOrder_def peekOrder_unknown [OF assms])

lemma updateOrder_same:
  assumes inv: "me_inv n mx s" and res: "resting (own b s) p c"
    and sid: "unat (system_id order) = sid_at (own b s) p c"
    and "f32_eq (price order) (price (book (own b s) ! p ! c))"
    and "quantity order = quantity (book (own b s) ! p ! c)"
  shows "updateOrder H order b s = Some (Inr (tsc H (clk s), order, s\<lparr>clk := Suc (clk s)\<rparr>))"
  using assms(4,5) peekOrder_resting [OF lob_invD(1) [OF me_invD(1) [OF inv]] res sid]
  by (simp add: updateOrder_def now_cycle_eq Let_def)

definition updated :: "hw \<Rightarrow> LOBOrder \<Rightarrow> nat \<Rightarrow> bool \<Rightarrow> ME \<Rightarrow> (nat \<Rightarrow> LOBOrder list) \<Rightarrow> ME \<Rightarrow> bool" where
  "updated H order p b s lv s' \<longleftrightarrow>
     opp b s' = opp b s \<and> levels (own b s') = lv \<and> clk s' = clk s + 2 \<and>
     (\<forall>i. i \<noteq> unat (system_id order) \<longrightarrow> LUT (own b s') i = LUT (own b s) i) \<and>
     outputs s s' [\<lparr>log_id = LOB_UPDATE_QUANTITY, timestamp = tsc H (clk s), log_data = VLOBOrder order\<rparr>]
       (own_acks order p (CHR ''U'')) [bcast_of order (CHR ''U'') b]"

text \<open>Both changes of a quantity: the new book \<open>bk\<close> is whatever \<open>UpdateOrderQuantity\<close> made of it.\<close>

lemma updateOrder_quantity:
  assumes inv: "me_inv n mx s" and res: "resting (own b s) p c"
    and sid: "unat (system_id order) = sid_at (own b s) p c"
    and eq: "f32_eq (price order) (price (book (own b s) ! p ! c))"
    and diff: "quantity order \<noteq> quantity (book (own b s) ! p ! c)"
    and up: "UpdateOrderQuantity (own b s) order = Inr bk" and bk: "lob_inv m bk" "isBuy bk = b"
      "max_price_possible bk = mx" "\<And>q. levels bk q \<noteq> [] \<Longrightarrow> levels (own b s) q \<noteq> []"
      "\<And>i. i \<noteq> unat (system_id order) \<Longrightarrow> LUT bk i = LUT (own b s) i"
    and m: "n \<le> m" "m < 2 ^ 31" and ready: "bcast_ready H (Suc k) s"
  obtains t s' where "updateOrder H order b s = Some (Inr (t, order, s'))" and "me_inv m mx s'"
    and "updated H order p b s (levels bk) s'" and "bcast_ready H k s'"
proof -
  note I = me_invD [OF inv]
  note core = lob_invD(1) [OF I(1)]
  let ?sb = "set_own b bk s"
  have px: "price_index (price order) = Inr p"
    using f32_eq_price_index [OF eq] core_resting(3) [OF core res] by simp
  have readyb: "bcast_ready H (Suc k) ?sb" using ready by (simp add: bcast_ready_def frame_simps)
  obtain s3 s4 where s4:
    "changeInQuantity H (system_id order) (price order) (quantity order) (CHR ''U'') (side_char b)
       (log_write H LOB_UPDATE_QUANTITY (tsc H (clk ?sb)) (VLOBOrder order) (?sb\<lparr>clk := Suc (clk ?sb)\<rparr>)) = Some (Inr s3)"
    "ack_sniper H order (CHR ''U'') s3 = Inr s4"
    "announced H ?sb LOB_UPDATE_QUANTITY order p (CHR ''U'') b s4" "bcast_ready H k s4"
    by (rule announce [OF readyb px])
  note A = s4(3) [unfolded announced_def]
  let ?s = "s4\<lparr>clk := Suc (clk s4)\<rparr>"
  have "updateOrder H order b s = Some (Inr (tsc H (clk s4), order, ?s))"
    using eq diff up s4(1,2) peekOrder_resting [OF core res sid]
    by (simp add: updateOrder_def now_cycle_eq Let_def frame_simps)
  moreover have books: "opp b ?s = opp b s" "own b ?s = bk" using A by (simp_all add: frame_simps)
  moreover have "uncrossed ?s"
    by (rule uncrossed_less [OF I(7), where b = b]) (use bk(4) in \<open>simp_all add: books\<close>)
  then have "me_inv m mx ?s"
    using bk I lob_inv_mono [OF I(4) m] by (intro me_invI [where b = b]) (simp_all add: books)
  moreover have "outputs s ?s [\<lparr>log_id = LOB_UPDATE_QUANTITY, timestamp = tsc H (clk ?sb),
      log_data = VLOBOrder order\<rparr>] (own_acks order p (CHR ''U'')) [bcast_of order (CHR ''U'') b]"
  proof -
    have "outputs s ?sb [] [] []" by (rule outputs_quiet) (simp_all add: frame_simps)
    moreover have "outputs s4 ?s [] [] []" by (rule outputs_quiet) (simp_all add: frame_simps)
    ultimately show ?thesis
      using A outputs_append [of s ?sb "[]" "[]" "[]" s4] outputs_append [of s s4 _ _ _ ?s "[]" "[]" "[]"]
      by fastforce
  qed
  then have "updated H order p b s (levels bk) ?s"
    using A bk(5) by (simp add: updated_def books frame_simps)
  moreover have "bcast_ready H k ?s" using s4(4) by (simp add: bcast_ready_def)
  ultimately show thesis using that by blast
qed

text \<open>A smaller quantity keeps the order's turn, a larger one costs it.\<close>

lemma updateOrder_decrease:
  assumes inv: "me_inv n mx s" and res: "resting (own b s) p c"
    and sid: "unat (system_id order) = sid_at (own b s) p c"
    and eq: "f32_eq (price order) (price (book (own b s) ! p ! c))"
    and less: "quantity order < quantity (book (own b s) ! p ! c)" and nz: "quantity order \<noteq> 0"
    and ready: "bcast_ready H (Suc k) s"
  obtains t s' where "updateOrder H order b s = Some (Inr (t, order, s'))" and "me_inv n mx s'"
    and "updated H order p b s
      (\<lambda>q. requantify (unat (system_id order)) (quantity order) (levels (own b s) q)) s'"
    and "bcast_ready H k s'"
proof -
  note I = me_invD [OF inv]
  obtain bk where bk: "UpdateOrderQuantity (own b s) order = Inr bk" "lob_inv n bk"
    "levels bk = (\<lambda>q. requantify (sid_at (own b s) p c) (quantity order) (levels (own b s) q))"
    "isBuy bk = isBuy (own b s)" "max_price_possible bk = max_price_possible (own b s)"
    "LUT bk = LUT (own b s)"
    by (rule update_decrease [OF I(1) res sid less nz])
  have n: "n < 2 ^ 31" using lob_invD(3) [OF I(1)] by (simp add: shape_ok_def)
  have ne: "levels (own b s) q \<noteq> []" if "levels bk q \<noteq> []" for q
    using that by (simp add: bk(3) requantify_def)
  have diff: "quantity order \<noteq> quantity (book (own b s) ! p ! c)" using less by simp
  obtain t s' where s': "updateOrder H order b s = Some (Inr (t, order, s'))" "me_inv n mx s'"
    "updated H order p b s (levels bk) s'" "bcast_ready H k s'"
    by (rule updateOrder_quantity [OF inv res sid eq diff bk(1,2) _ _ ne _ le_refl n ready])
      (simp_all add: bk I(2,3))
  show thesis by (rule that [OF s'(1,2) _ s'(4)]) (use s'(3) in \<open>simp add: bk(3) sid\<close>)
qed

lemma updateOrder_increase:
  assumes inv: "me_inv n mx s" and n: "Suc n < 2 ^ 31" and res: "resting (own b s) p c"
    and sid: "unat (system_id order) = sid_at (own b s) p c"
    and eq: "f32_eq (price order) (price (book (own b s) ! p ! c))"
    and more: "quantity (book (own b s) ! p ! c) < quantity order"
    and ready: "bcast_ready H (Suc k) s"
  obtains t s' where "updateOrder H order b s = Some (Inr (t, order, s'))" and "me_inv (Suc n) mx s'"
    and "updated H order p b s
      ((levels (own b s))(p := remove_id (unat (system_id order)) (levels (own b s) p) @ [order])) s'"
    and "bcast_ready H k s'"
proof -
  note I = me_invD [OF inv]
  have px: "price_index (price order) = Inr p"
    using f32_eq_price_index [OF eq] core_resting(3) [OF lob_invD(1) [OF I(1)] res] by simp
  obtain bk where bk: "UpdateOrderQuantity (own b s) order = Inr bk" "lob_inv (Suc n) bk"
    "levels bk = (\<lambda>q. if q = p then remove_id (sid_at (own b s) p c) (levels (own b s) p) @ [order]
       else levels (own b s) q)"
    "isBuy bk = isBuy (own b s)" "max_price_possible bk = max_price_possible (own b s)"
    "LUT bk = (LUT (own b s))(sid_at (own b s) p c := (p, length (book (own b s) ! p)))"
    by (rule update_increase [OF I(1) res sid more px n])
  have lev: "levels bk = (levels (own b s))(p := remove_id (unat (system_id order)) (levels (own b s) p) @ [order])"
    by (auto simp: bk(3) sid)
  have ne: "levels (own b s) q \<noteq> []" if "levels bk q \<noteq> []" for q
    using that levels_split [OF restingD [OF res]] by (cases "q = p") (simp_all add: lev)
  have diff: "quantity order \<noteq> quantity (book (own b s) ! p ! c)" using more by simp
  obtain t s' where s': "updateOrder H order b s = Some (Inr (t, order, s'))" "me_inv (Suc n) mx s'"
    "updated H order p b s (levels bk) s'" "bcast_ready H k s'"
    by (rule updateOrder_quantity [OF inv res sid eq diff bk(1,2) _ _ ne _ _ n ready])
      (simp_all add: bk(4-6) I(2,3) sid)
  show thesis by (rule that [OF s'(1,2) _ s'(4)]) (use s'(3) in \<open>simp add: lev\<close>)
qed

text \<open>A new price is a deletion and a new order.\<close>

lemma updateOrder_price:
  assumes inv: "me_inv n mx s" and n: "Suc n < 2 ^ 31" and res: "resting (own b s) p c"
    and sid: "unat (system_id order) = sid_at (own b s) p c"
    and neq: "\<not> f32_eq (price order) (price (book (own b s) ! p ! c))"
    and px: "price_index (price order) = Inr pr" and pr: "pr < mx"
    and ends: "\<not> spins b pr (opp b s) (quantity order)"
    and walk: "match_walk (path b mx pr) (quantity order) (levels (opp b s)) = (lv', q')"
    and ready: "bcast_ready H (Suc (Suc k)) s"
  obtains t s1 s2 s' where
    "updateOrder H order b s = Some (Inr (t, order\<lparr>quantity := q'\<rparr>, s'))" and "me_inv (Suc n) mx s'"
    and "deleted H ((book (own b s) ! p ! c)\<lparr>quantity := 0\<rparr>) p (unat (system_id order)) b s s1"
    and "created H order pr b s1 q' lv' s2" and "s' = s2\<lparr>clk := Suc (clk s2)\<rparr>" and "bcast_ready H k s'"
proof -
  note I = me_invD [OF inv]
  note core = lob_invD(1) [OF I(1)]
  let ?r = "InBook p c"
  have dr: "deref b ?r s = book (own b s) ! p ! c" by (simp add: deref_def)
  obtain t1 s1 where s1: "deleteOrder_ME H ?r b s = Some (Inr (t1, s1))" "me_inv n mx s1"
    "deleted H (deleted_order b s ?r) p (sid_at (own b s) p c) b s s1" "bcast_ready H (Suc k) s1"
    using deleteOrder_ME_correct [OF inv res, of ?r p H "Suc k"] ready core_resting(3) [OF core res]
    by (auto simp: dr sid_at_def)
  note D = s1(3) [unfolded deleted_def]
  have opp1: "opp b s1 = opp b s" and lut1: "LUT (own b s1) (unat (system_id order)) = (NPOS, NPOS)"
    using D sid by simp_all
  have i: "unat (system_id order) < LUT_SIZE" using core_resting(1) [OF core res] sid by simp
  obtain t2 s2 where s2: "create_order H order b s1 = Some (Inr (t2, order\<lparr>quantity := q'\<rparr>, s2))"
    "me_inv (Suc n) mx s2" "created H order pr b s1 q' lv' s2" "bcast_ready H k s2"
    by (rule create_order_correct [OF s1(2) n px pr i lut1 _ _ s1(4)])
      (use ends walk in \<open>simp_all add: opp1\<close>)
  let ?s = "s2\<lparr>clk := Suc (clk s2)\<rparr>"
  have "updateOrder H order b s = Some (Inr (tsc H (clk s2), order\<lparr>quantity := q'\<rparr>, ?s))"
    using s1(1) s2(1) neq peekOrder_resting [OF core res sid]
    by (simp add: updateOrder_def now_cycle_eq Let_def)
  moreover have "me_inv (Suc n) mx ?s"
    using s2(2) by (rule me_inv_books [where b = b]) (simp_all add: frame_simps)
  moreover have "bcast_ready H k ?s" using s2(4) by (simp add: bcast_ready_def)
  ultimately show thesis
    using that s1(3) s2(3) sid by (simp add: deleted_order_def)
qed

subsection \<open>Taking a request from the queue\<close>

text \<open>The state of \<open>readOrder\<close> when it dispatches, and the dispatch.\<close>

definition received :: "hw \<Rightarrow> LOBOrder \<Rightarrow> ME \<Rightarrow> ME" where
  "received H order s =
     (let s3 = log_write H ME_RECEIVE_ORDER (tsc H (clk s)) (VLOBOrder order)
            (s\<lparr>clk := Suc (clk s), QueueTime := QueueTime s @ [tsc H (clk s) - out_cycle_count order]\<rparr>)
      in s3\<lparr>Throughtput := Throughtput s @ (if lastOrderTime s \<noteq> 0 then [tsc H (clk s) - lastOrderTime s] else []),
            lastOrderTime := tsc H (clk s), clk := Suc (Suc (clk s))\<rparr>)"

definition dispatch :: "hw \<Rightarrow> LOBOrder \<Rightarrow> ME \<Rightarrow> (u64 \<times> LOBOrder \<times> ME) outcome" where
  "dispatch H order s =
     (let is_buy = (order_type order = CHR ''b'')
      in if req_type order = CHR ''c'' then create_order H order is_buy s
         else if req_type order = CHR ''u'' then updateOrder H order is_buy s
         else if req_type order = CHR ''d''
         then bindO (deleteOrder_ME H (Local order) is_buy s) (\<lambda>(t, s7). Some (Inr (t, order, s7)))
         else Some (Inr (0, order, s)))"

lemma received_frame [frame_simps]:
  "own b (received H order s) = own b s" "opp b (received H order s) = opp b s"
  "BroadCastQ (received H order s) = BroadCastQ s" "LobOrderQueue (received H order s) = LobOrderQueue s"
  "LobAck (received H order s) = LobAck s" "clk (received H order s) = clk s + 2"
  by (simp_all add: received_def Let_def log_write_eq own_def opp_def)

lemma readOrder_idle: "getNextToRead (LobOrderQueue s) = None \<Longrightarrow> readOrder H s = Some (Inr s)"
  by (simp add: readOrder_def)

lemma readOrder_dispatch:
  assumes "getNextToRead (LobOrderQueue s) = Some i" and "order = read_slot i (LobOrderQueue s)"
  shows "readOrder H s =
    bindO (dispatch H order (received H order s)) (\<lambda>(t, order', s8).
      bindO (Some (updateReadIndex (write_slot i order' (LobOrderQueue s8)))) (\<lambda>q.
        Some (Inr (s8\<lparr>LobOrderQueue := q,
          matchingProcessingTime := matchingProcessingTime s8 @ [t - tsc H (clk s)],
          tickToTrade := tickToTrade s8 @ [t - arrival_cycle_count order']\<rparr>))))"
proof -
  have "received H order s =
      (let s2 = log_write H ME_RECEIVE_ORDER (tsc H (clk s)) (VLOBOrder order)
           (s\<lparr>clk := Suc (clk s), QueueTime := QueueTime s @ [tsc H (clk s) - out_cycle_count order]\<rparr>);
         s4 = (if lastOrderTime s2 \<noteq> 0
               then s2\<lparr>Throughtput := Throughtput s2 @ [tsc H (clk s) - lastOrderTime s2]\<rparr> else s2);
         s5 = s4\<lparr>lastOrderTime := tsc H (clk s)\<rparr>
       in s5\<lparr>clk := Suc (clk s5)\<rparr>)"
    by (simp add: received_def Let_def log_write_eq)
  then show ?thesis
    unfolding readOrder_def dispatch_def
    using assms by (simp add: Let_def now_cycle_eq)
qed

end
