(* ===== verification/Market.thy ===== *)
theory Market
  imports Requests
begin

text \<open>
  The matching engine as a market: two functions from price levels to queues of live orders and
  one function per request, with no vectors, tables, counters, best-price pointers or output
  queues.  The refinement theorems say that the engine computes this: one request
  (\<open>dispatch_refines\<close>, \<open>readOrder_refines\<close>) and a queue of requests (\<open>engine_refines\<close>).
\<close>

record market =
  bids :: "nat \<Rightarrow> LOBOrder list"
  asks :: "nat \<Rightarrow> LOBOrder list"

definition side :: "bool \<Rightarrow> market \<Rightarrow> nat \<Rightarrow> LOBOrder list" where
  "side b m = (if b then bids m else asks m)"

definition set_side :: "bool \<Rightarrow> (nat \<Rightarrow> LOBOrder list) \<Rightarrow> market \<Rightarrow> market" where
  "set_side b lv m = (if b then m\<lparr>bids := lv\<rparr> else m\<lparr>asks := lv\<rparr>)"

definition market_of :: "ME \<Rightarrow> market" where
  "market_of s = \<lparr>bids = levels (BuyOrderBook s), asks = levels (SellOrderBook s)\<rparr>"

text \<open>A new order trades with the other side; what is left of it joins the end of its level.\<close>

definition m_create :: "nat \<Rightarrow> LOBOrder \<Rightarrow> nat \<Rightarrow> bool \<Rightarrow> market \<Rightarrow> market" where
  "m_create mx order pr b m =
     (let (lv, q) = match_walk (path b mx pr) (quantity order) (side (\<not> b) m);
          m' = set_side (\<not> b) lv m
      in if q = 0 then m'
         else set_side b ((side b m)(pr := side b m pr @ [order\<lparr>quantity := q\<rparr>])) m')"

definition m_cancel :: "nat \<Rightarrow> bool \<Rightarrow> market \<Rightarrow> market" where
  "m_cancel i b m = set_side b (\<lambda>p. remove_id i (side b m p)) m"

definition orders_with :: "nat \<Rightarrow> nat \<Rightarrow> (nat \<Rightarrow> LOBOrder list) \<Rightarrow> (nat \<times> LOBOrder) list" where
  "orders_with mx i lv =
     concat (map (\<lambda>p. map (Pair p) (filter (\<lambda>x. unat (system_id x) = i) (lv p))) [0..<mx])"

definition find_order :: "nat \<Rightarrow> nat \<Rightarrow> (nat \<Rightarrow> LOBOrder list) \<Rightarrow> (nat \<times> LOBOrder) option" where
  "find_order mx i lv = (case orders_with mx i lv of [] \<Rightarrow> None | r # _ \<Rightarrow> Some r)"

text \<open>
  A change of price gives up the order's place and may trade; a larger quantity gives up the
  place in the level's queue; a smaller one keeps it; an unknown id changes nothing.
\<close>

definition m_update :: "nat \<Rightarrow> LOBOrder \<Rightarrow> bool \<Rightarrow> market \<Rightarrow> market" where
  "m_update mx order b m =
     (let i = unat (system_id order)
      in case find_order mx i (side b m) of
           None \<Rightarrow> m
         | Some (p, x) \<Rightarrow>
             if \<not> f32_eq (price order) (price x)
             then (case price_index (price order) of
                     Inl _ \<Rightarrow> m
                   | Inr pr \<Rightarrow> m_create mx order pr b (m_cancel i b m))
             else if quantity order < quantity x
             then set_side b (\<lambda>q. requantify i (quantity order) (side b m q)) m
             else if quantity x < quantity order
             then set_side b ((side b m)(p := remove_id i (side b m p) @ [order])) m
             else m)"

definition is_bid :: "LOBOrder \<Rightarrow> bool" where
  "is_bid order \<longleftrightarrow> order_type order = CHR ''b''"

definition m_request :: "nat \<Rightarrow> LOBOrder \<Rightarrow> market \<Rightarrow> market" where
  "m_request mx order m =
     (let b = is_bid order
      in if req_type order = CHR ''c''
         then (case price_index (price order) of Inl _ \<Rightarrow> m | Inr pr \<Rightarrow> m_create mx order pr b m)
         else if req_type order = CHR ''u'' then m_update mx order b m
         else if req_type order = CHR ''d'' then m_cancel (unat (system_id order)) b m
         else m)"

text \<open>
  What the engine relies on and does not check: the price of a new order is a level of the
  book, and at least one tick for a sell order; the id of a new order is in the range of the
  lookup table and not in use on its side; an order to delete exists; an update does not set
  the quantity to 0.
\<close>

definition price_ok :: "nat \<Rightarrow> bool \<Rightarrow> LOBOrder \<Rightarrow> bool" where
  "price_ok mx b order =
     (case price_index (price order) of Inl _ \<Rightarrow> False | Inr pr \<Rightarrow> pr < mx \<and> (b \<or> 0 < pr))"

definition request_ok :: "nat \<Rightarrow> LOBOrder \<Rightarrow> market \<Rightarrow> bool" where
  "request_ok mx order m =
     (let b = is_bid order; i = unat (system_id order); found = find_order mx i (side b m)
      in if req_type order = CHR ''c'' then i < LUT_SIZE \<and> found = None \<and> price_ok mx b order
         else if req_type order = CHR ''u''
         then (case found of
                 None \<Rightarrow> True
               | Some (p, x) \<Rightarrow> (if f32_eq (price order) (price x) then quantity order \<noteq> 0
                               else price_ok mx b order))
         else if req_type order = CHR ''d'' then found \<noteq> None \<and> price_ok mx True order
         else True)"

fun requests_ok :: "nat \<Rightarrow> LOBOrder list \<Rightarrow> market \<Rightarrow> bool" where
  "requests_ok mx [] m = True"
| "requests_ok mx (r # rs) m = (request_ok mx r m \<and> requests_ok mx rs (m_request mx r m))"

subsection \<open>Reading the market off the books\<close>

lemma side_market_of: "side b (market_of s) = levels (own b s)"
  by (simp add: side_def market_of_def own_def)

lemma side_not_market_of: "side (\<not> b) (market_of s) = levels (opp b s)"
  by (simp add: side_market_of opp_own)

lemma market_of_eqI:
  assumes "levels (own b s) = lv" and "levels (opp b s) = lv'"
  shows "market_of s = set_side b lv (set_side (\<not> b) lv' m)"
  using assms by (cases b) (simp_all add: market_of_def set_side_def own_def opp_def)

lemma set_side_simps [simp]:
  "set_side b lv (set_side b lv' m) = set_side b lv m"
  "set_side (\<not> b) lv (set_side (\<not> b) lv' m) = set_side (\<not> b) lv m"
  "set_side b (side b m) (set_side (\<not> b) l m) = set_side (\<not> b) l m"
  "set_side b (side b m) m = m" "set_side (\<not> b) (side (\<not> b) m) m = m"
  "side b (set_side b lv m) = lv" "side (\<not> b) (set_side b lv m) = side (\<not> b) m"
  "side b (set_side (\<not> b) lv m) = side b m" "side (\<not> b) (set_side (\<not> b) lv m) = lv"
  by (cases b; simp add: set_side_def side_def)+

lemma market_of_own:
  assumes "levels (own b s') = lv" and "opp b s' = opp b s"
  shows "market_of s' = set_side b lv (market_of s)"
  using market_of_eqI [of b s' lv "levels (opp b s)" "market_of s"] assms
  by (simp add: side_not_market_of [symmetric])

lemma market_of_same:
  assumes "own b s' = own b s" and "opp b s' = opp b s"
  shows "market_of s' = market_of s"
  using market_of_own [of b s' "levels (own b s)" s] assms by (simp add: side_market_of [symmetric])

lemma orders_with_in:
  "(p, x) \<in> set (orders_with mx i lv) \<longleftrightarrow> p < mx \<and> x \<in> set (lv p) \<and> unat (system_id x) = i"
  by (auto simp: orders_with_def)

lemma find_order_in:
  assumes "find_order mx i lv = Some (p, x)"
  shows "p < mx \<and> x \<in> set (lv p) \<and> unat (system_id x) = i"
proof -
  from assms obtain rs where "orders_with mx i lv = (p, x) # rs"
    by (auto simp: find_order_def split: list.splits)
  then have "(p, x) \<in> set (orders_with mx i lv)" by simp
  then show ?thesis by (simp only: orders_with_in)
qed

lemma find_order_None:
  "find_order mx i lv = None \<longleftrightarrow> (\<forall>p < mx. \<forall>x \<in> set (lv p). unat (system_id x) \<noteq> i)"
proof -
  have "find_order mx i lv = None \<longleftrightarrow> set (orders_with mx i lv) = {}"
    by (simp add: find_order_def split: list.splits)
  also have "\<dots> \<longleftrightarrow> (\<forall>p x. (p, x) \<notin> set (orders_with mx i lv))"
    by (simp only: set_eq_iff split_paired_All empty_iff simp_thms)
  finally show ?thesis unfolding orders_with_in by blast
qed

lemma find_order_resting:
  assumes "find_order mx i (levels bk) = Some (p, x)"
  obtains c where "resting bk p c" and "x = book bk ! p ! c" and "sid_at bk p c = i"
proof -
  note F = find_order_in [OF assms]
  then obtain c where "resting bk p c" "x = book bk ! p ! c" by (blast elim: level_elemE)
  with F that show thesis by (simp add: sid_at_def)
qed

lemma find_order_fresh:
  assumes inv: "lob_inv n bk" and mx: "max_price_possible bk = mx" and i: "i < LUT_SIZE"
    and none: "find_order mx i (levels bk) = None"
  shows "LUT bk i = (NPOS, NPOS)"
proof (rule ccontr)
  assume "LUT bk i \<noteq> (NPOS, NPOS)"
  then obtain p c where r: "resting bk p c" "sid_at bk p c = i"
    by (rule core_lut [OF lob_invD(1) [OF inv] i])
  note R = restingD [OF r(1)]
  have "book bk ! p ! c \<in> set (levels bk p)" by (simp add: levels_split [OF R])
  moreover have "p < mx" using core_resting(6) [OF lob_invD(1) [OF inv] r(1)] mx by simp
  ultimately show False using none r(2) by (auto simp: find_order_None sid_at_def)
qed

subsection \<open>What was said\<close>

text \<open>
  What a message says of an order is its id and its price.  The engine's log elements carry the
  payload their id stands for, with the price of one of the orders \<open>I\<close>; its acknowledgements are for
  one of the orders \<open>I\<close>, at the price of a level of the book.
\<close>

type_synonym tag = "u32 \<times> f32"

definition tag :: "LOBOrder \<Rightarrow> tag" where
  "tag x = (system_id x, price x)"

lemma tag_quantity [simp]: "tag (x\<lparr>quantity := q\<rparr>) = tag x"
  by (simp add: tag_def)

definition log_ok :: "tag set \<Rightarrow> LogElement \<Rightarrow> bool" where
  "log_ok I e \<longleftrightarrow> log_typed e \<and> price_in (log_data e) \<in> snd ` I"

definition ack_ok :: "nat \<Rightarrow> tag set \<Rightarrow> LOBAck \<Rightarrow> bool" where
  "ack_ok mx I a \<longleftrightarrow> la_system_id a \<in> fst ` I \<and> (\<exists>p < mx. la_price a = f32_of_nat p)"

definition log_grows :: "tag set \<Rightarrow> ME \<Rightarrow> ME \<Rightarrow> bool" where
  "log_grows I s s' \<longleftrightarrow> adds (log_ok I) (matchLog s) (matchLog s')"

definition acked :: "nat \<Rightarrow> tag set \<Rightarrow> ME \<Rightarrow> ME \<Rightarrow> bool" where
  "acked mx I s s' \<longleftrightarrow> adds (ack_ok mx I) (LobAck s) (LobAck s')"

definition logged :: "nat \<Rightarrow> tag set \<Rightarrow> ME \<Rightarrow> ME \<Rightarrow> bool" where
  "logged mx I s s' \<longleftrightarrow> stats s' = stats s \<and> log_grows I s s' \<and> acked mx I s s'"

lemma acked_trans: "acked mx I s s1 \<Longrightarrow> acked mx I s1 s2 \<Longrightarrow> acked mx I s s2"
  unfolding acked_def by (rule adds_trans)

lemma acked_same: "LobAck s' = LobAck s \<Longrightarrow> acked mx I s s'"
  by (simp add: acked_def)

lemma acked_mono: "acked mx I s s' \<Longrightarrow> I \<subseteq> J \<Longrightarrow> acked mx J s s'"
  unfolding acked_def by (erule adds_mono) (auto simp: ack_ok_def)

lemma log_grows_trans: "log_grows I s s1 \<Longrightarrow> log_grows I s1 s2 \<Longrightarrow> log_grows I s s2"
  unfolding log_grows_def by (rule adds_trans)

lemma log_grows_same: "matchLog s' = matchLog s \<Longrightarrow> log_grows I s s'"
  by (simp add: log_grows_def)

lemma log_grows_mono: "log_grows I s s' \<Longrightarrow> I \<subseteq> J \<Longrightarrow> log_grows J s s'"
  unfolding log_grows_def by (erule adds_mono) (auto simp: log_ok_def)

lemma outputs_logged:
  assumes "outputs s s' ls as bs" and "\<And>e. e \<in> set ls \<Longrightarrow> log_ok I e" and "\<And>a. a \<in> set as \<Longrightarrow> ack_ok mx I a"
  shows "logged mx I s s'"
proof -
  have s: "sends (matchLog s) (matchLog s') ls" "sends (LobAck s) (LobAck s') as" "stats s' = stats s"
    using assms(1) by (simp_all add: outputs_def)
  have "log_grows I s s'" unfolding log_grows_def using s(1) assms(2) by (rule sends_adds)
  moreover have "acked mx I s s'" unfolding acked_def using s(2) assms(3) by (rule sends_adds)
  ultimately show ?thesis using s(3) by (simp add: logged_def)
qed

lemma logged_trans: "logged mx I s s1 \<Longrightarrow> logged mx I s1 s2 \<Longrightarrow> logged mx I s s2"
  using log_grows_trans acked_trans by (auto simp: logged_def)

lemma logged_quiet:
  "stats s' = stats s \<Longrightarrow> matchLog s' = matchLog s \<Longrightarrow> LobAck s' = LobAck s \<Longrightarrow> logged mx I s s'"
  by (simp add: logged_def log_grows_same acked_same)

lemma log_ok_order:
  "tag x \<in> I \<Longrightarrow> lid \<in> {ME_RECEIVE_ORDER, ME_AGGRESSIVE_MATCH, LOB_CREATE_ORDER, LOB_DELETE_ORDER, LOB_UPDATE_QUANTITY} \<Longrightarrow>
    log_ok I \<lparr>log_id = lid, timestamp = t, log_data = VLOBOrder x\<rparr>"
  by (force simp: log_ok_def log_typed_def price_in_def tag_def)

lemma ack_ok_of: "tag x \<in> I \<Longrightarrow> p < mx \<Longrightarrow> ack_ok mx I (ack_of x p t q)"
  by (force simp: ack_ok_def ack_of_def tag_def)

lemma exec_log_ok: "tag order \<in> I \<Longrightarrow> e \<in> set (exec_log H k order es) \<Longrightarrow> log_ok I e"
  by (auto simp: exec_log_def intro!: log_ok_order)

lemma fill_tags: "x \<in> set (fst (fill q os)) \<Longrightarrow> tag x \<in> tag ` set os"
  by (induction q os rule: fill.induct) (auto split: if_splits)

lemma fill_execs_ids: "e \<in> set (fill_execs p q os) \<Longrightarrow> maker e \<in> set os"
  by (induction p q os rule: fill_execs.induct) (auto simp: Let_def split: if_splits)

lemma fill_update_tags:
  assumes "\<And>p x. x \<in> set (lv p) \<Longrightarrow> tag x \<in> I" and "x \<in> set ((lv(p := fst (fill q (lv p)))) r)"
  shows "tag x \<in> I"
proof (cases "r = p")
  case True
  then show ?thesis using assms(2) fill_tags [of x q "lv p"] assms(1) by auto
qed (use assms in auto)

lemma walk_execs_tags:
  assumes "\<And>p x. x \<in> set (lv p) \<Longrightarrow> tag x \<in> I" and "e \<in> set (walk_execs ps q lv)"
  shows "tag (maker e) \<in> I" and "at_level e \<in> set ps"
proof -
  have "tag (maker e) \<in> I \<and> at_level e \<in> set ps"
    using assms
  proof (induction ps arbitrary: q lv)
    case (Cons p ps)
    have "tag (maker e) \<in> I \<and> at_level e \<in> set ps"
      if e: "e \<in> set (walk_execs ps (snd (fill q (lv p))) (lv(p := fst (fill q (lv p)))))"
      by (rule Cons.IH [OF _ e]) (rule fill_update_tags [OF Cons.prems(1)])
    with Cons.prems show ?case by (auto dest: fill_execs_ids fill_execs_level)
  qed simp
  then show "tag (maker e) \<in> I" "at_level e \<in> set ps" by simp_all
qed

lemma exec_acks_ok:
  assumes "tag order \<in> I" and "\<And>e. e \<in> set es \<Longrightarrow> tag (maker e) \<in> I \<and> at_level e < mx" and "a \<in> set (exec_acks order es)"
  shows "ack_ok mx I a"
  using assms by (auto simp: exec_acks_def ack_ok_of split: if_splits)

lemma own_acks_ok: "tag ord \<in> I \<Longrightarrow> p < mx \<Longrightarrow> a \<in> set (own_acks ord p t) \<Longrightarrow> ack_ok mx I a"
  by (auto simp: own_acks_def ack_ok_of split: if_splits)

lemma created_logged:
  assumes "created H order pr b s q' lv' s'" and "tag order \<in> I"
    and "\<And>p x. x \<in> set (levels (opp b s) p) \<Longrightarrow> tag x \<in> I"
    and "max_price_possible (opp b s) = mx" and "pr < mx"
  shows "logged mx I s s'"
proof -
  note C = assms(1) [unfolded created_def Let_def]
  let ?es = "walk_execs (path b mx pr) (quantity order) (levels (opp b s))"
  have makers: "tag (maker e) \<in> I \<and> at_level e < mx" if "e \<in> set ?es" for e
  proof -
    have "tag (maker e) \<in> I" by (rule walk_execs_tags(1) [OF _ that]) (rule assms(3))
    moreover have "at_level e \<in> set (path b mx pr)" by (rule walk_execs_tags(2) [OF _ that]) (rule assms(3))
    ultimately show ?thesis by (auto simp: path_def split: if_splits)
  qed
  have "outputs s s' (exec_log H (clk s) order ?es @ (if q' = 0 then [] else [\<lparr>log_id = LOB_CREATE_ORDER,
        timestamp = tsc H (clk s + length ?es), log_data = VLOBOrder (order\<lparr>quantity := q'\<rparr>)\<rparr>]))
      (exec_acks order ?es @ (if q' = 0 then [] else own_acks (order\<lparr>quantity := q'\<rparr>) pr (CHR ''N'')))
      (if q' = 0 then [] else [bcast_of (order\<lparr>quantity := q'\<rparr>) (CHR ''N'') b])"
    using C assms(4) by blast
  note said = this
  have own: "ack_ok mx I a" if "a \<in> set (own_acks (order\<lparr>quantity := q'\<rparr>) pr t)" for a t
    by (rule own_acks_ok [OF _ assms(5) that]) (simp add: assms(2))
  from said show ?thesis
    by (rule outputs_logged)
      (use assms(2) makers own in \<open>auto intro: exec_log_ok exec_acks_ok log_ok_order split: if_splits\<close>)
qed

lemma deleted_logged: "deleted H ord p i b s s' \<Longrightarrow> tag ord \<in> I \<Longrightarrow> p < mx \<Longrightarrow> logged mx I s s'"
  by (rule outputs_logged) (auto simp: deleted_def intro: log_ok_order own_acks_ok)

lemma updated_logged: "updated H order p b s lv s' \<Longrightarrow> tag order \<in> I \<Longrightarrow> p < mx \<Longrightarrow> logged mx I s s'"
  by (rule outputs_logged) (auto simp: updated_def intro: log_ok_order own_acks_ok)

subsection \<open>One request\<close>

text \<open>
  \<open>steps_to H n mx k I s s' m\<close>: an operation led from \<open>s\<close> to \<open>s'\<close>, which keeps the invariant and
  stands for the market \<open>m\<close>; \<open>k\<close> more broadcasts can be made, and only orders \<open>I\<close> were logged and
  acknowledged.
\<close>

definition steps_to :: "hw \<Rightarrow> nat \<Rightarrow> nat \<Rightarrow> nat \<Rightarrow> tag set \<Rightarrow> ME \<Rightarrow> ME \<Rightarrow> market \<Rightarrow> bool" where
  "steps_to H n mx k I s s' m \<longleftrightarrow>
     me_inv n mx s' \<and> market_of s' = m \<and> bcast_ready H k s' \<and> logged mx I s s'"

text \<open>The ids and tags of the orders in a market, and the tags of those a request can touch.\<close>

definition ids_of :: "market \<Rightarrow> u32 set" where
  "ids_of m = (\<Union>b. \<Union>p. system_id ` set (side b m p))"

definition tags_of :: "market \<Rightarrow> tag set" where
  "tags_of m = (\<Union>b. \<Union>p. tag ` set (side b m p))"

lemma tags_of_iff: "t \<in> tags_of m \<longleftrightarrow> (\<exists>b p x. x \<in> set (side b m p) \<and> t = tag x)"
  by (auto simp: tags_of_def)

lemma ids_of_tags: "ids_of m = fst ` tags_of m"
  unfolding ids_of_def tags_of_def image_UN image_image by (simp add: tag_def)

definition touches :: "LOBOrder \<Rightarrow> market \<Rightarrow> tag set" where
  "touches order m = insert (tag order) (tags_of m)"

lemma touches_order [simp]: "tag order \<in> touches order m"
  by (simp add: touches_def)

lemma touches_side: "x \<in> set (side b m p) \<Longrightarrow> tag x \<in> touches order m"
  by (auto simp: touches_def tags_of_iff)

lemma touches_opp: "x \<in> set (levels (opp b s) p) \<Longrightarrow> tag x \<in> touches order (market_of s)"
  using touches_side [of x "\<not> b" "market_of s" p] by (simp add: side_not_market_of)

lemma me_inv_mono: "me_inv n mx s \<Longrightarrow> n \<le> m \<Longrightarrow> m < 2 ^ 31 \<Longrightarrow> me_inv m mx s"
  unfolding me_inv_def using lob_inv_mono by blast

lemma me_inv_bound: "me_inv n mx s \<Longrightarrow> n < 2 ^ 31"
  using lob_invD(3) [OF me_invD(1)] by (simp add: shape_ok_def)

lemma steps_to_mono:
  "steps_to H n mx k I s s' m \<Longrightarrow> n \<le> n' \<Longrightarrow> n' < 2 ^ 31 \<Longrightarrow> k' \<le> k \<Longrightarrow> steps_to H n' mx k' I s s' m"
  by (auto simp: steps_to_def intro: me_inv_mono bcast_ready_mono)

lemma price_ok_index:
  assumes "price_ok mx b order"
  obtains pr where "price_index (price order) = Inr pr" and "pr < mx" and "b \<or> 0 < pr"
  using assms by (auto simp: price_ok_def split: sum.splits)

lemma created_market:
  assumes "created H order pr b s q' lv' s'" and "max_price_possible (opp b s) = mx"
    and "match_walk (path b mx pr) (quantity order) (levels (opp b s)) = (lv', q')"
    and "tag order \<in> I" and "\<And>p x. x \<in> set (levels (opp b s) p) \<Longrightarrow> tag x \<in> I" and "pr < mx"
  shows "market_of s' = m_create mx order pr b (market_of s)" and "logged mx I s s'"
proof -
  note C = assms(1) [unfolded created_def Let_def]
  have "market_of s' = set_side b (levels (own b s')) (set_side (\<not> b) lv' (market_of s))"
    by (rule market_of_eqI) (use C in blast)+
  also have "\<dots> = m_create mx order pr b (market_of s)"
  proof (cases "q' = 0")
    case True
    with C have "levels (own b s') = side b (set_side (\<not> b) lv' (market_of s))"
      by (simp add: side_market_of)
    with True assms(3) show ?thesis by (simp add: m_create_def side_not_market_of)
  next
    case False
    with C have "levels (own b s') = (side b (market_of s))
        (pr := side b (market_of s) pr @ [order\<lparr>quantity := q'\<rparr>])"
      by (simp add: side_market_of)
    with False assms(3) show ?thesis by (simp add: m_create_def side_not_market_of)
  qed
  finally show "market_of s' = m_create mx order pr b (market_of s)" .
  show "logged mx I s s'" using assms(1,4,5,2,6) by (rule created_logged)
qed

lemma create_refines:
  assumes inv: "me_inv n mx s" and n: "Suc n < 2 ^ 31" and ready: "bcast_ready H (Suc k) s"
    and ok: "price_ok mx b order" and i: "unat (system_id order) < LUT_SIZE"
    and new: "find_order mx (unat (system_id order)) (side b (market_of s)) = None"
  obtains t q' s' pr where "create_order H order b s = Some (Inr (t, order\<lparr>quantity := q'\<rparr>, s'))"
    and "price_index (price order) = Inr pr"
    and "steps_to H (Suc n) mx k (touches order (market_of s)) s s' (m_create mx order pr b (market_of s))"
proof -
  note I = me_invD [OF inv]
  obtain pr where pr: "price_index (price order) = Inr pr" "pr < mx" "b \<or> 0 < pr"
    by (rule price_ok_index [OF ok])
  have fresh: "LUT (own b s) (unat (system_id order)) = (NPOS, NPOS)"
    by (rule find_order_fresh [OF I(1,3) i]) (use new in \<open>simp add: side_market_of\<close>)
  have ends: "\<not> spins b pr (opp b s) (quantity order)" using pr(3) by (auto simp: spins_def)
  obtain lv' q' where walk: "match_walk (path b mx pr) (quantity order) (levels (opp b s)) = (lv', q')"
    by fastforce
  obtain t s' where s': "create_order H order b s = Some (Inr (t, order\<lparr>quantity := q'\<rparr>, s'))"
    "me_inv (Suc n) mx s'" "created H order pr b s q' lv' s'" "bcast_ready H k s'"
    by (rule create_order_correct [OF inv n pr(1,2) i fresh ends walk ready])
  from created_market [OF s'(3) I(6) walk touches_order touches_opp pr(2)] s'(2,4) that [OF s'(1) pr(1)] show thesis
    by (simp add: steps_to_def)
qed

lemma deleted_market:
  assumes "deleted H ord p i b s s'" and "tag ord \<in> I" and "p < mx"
  shows "market_of s' = m_cancel i b (market_of s)" and "logged mx I s s'"
proof -
  note D = assms(1) [unfolded deleted_def]
  show "market_of s' = m_cancel i b (market_of s)"
    unfolding m_cancel_def side_market_of by (rule market_of_own) (use D in blast)+
  show "logged mx I s s'" using assms by (rule deleted_logged)
qed

lemma delete_refines:
  assumes inv: "me_inv n mx s" and ready: "bcast_ready H (Suc k) s"
    and known: "find_order mx (unat (system_id order)) (side b (market_of s)) = Some (p, x)"
    and px: "price_index (price order) = Inr pr" "pr < mx"
  obtains t s' where "deleteOrder_ME H (Local order) b s = Some (Inr (t, s'))"
    and "steps_to H n mx k (touches order (market_of s)) s s' (m_cancel (unat (system_id order)) b (market_of s))"
proof -
  obtain c where c: "resting (own b s) p c" "sid_at (own b s) p c = unat (system_id order)"
    using known unfolding side_market_of by (rule find_order_resting)
  obtain t s' where s': "deleteOrder_ME H (Local order) b s = Some (Inr (t, s'))" "me_inv n mx s'"
    "deleted H (deleted_order b s (Local order)) pr (sid_at (own b s) p c) b s s'" "bcast_ready H k s'"
    by (rule deleteOrder_ME_correct [OF inv c(1) _ _ _ ready, of "Local order" pr])
      (simp_all add: deref_def c(2) px)
  have "tag (deleted_order b s (Local order)) \<in> touches order (market_of s)"
    by (simp add: deleted_order_def)
  from deleted_market [OF s'(3) this px(2)] s'(2,4) that [OF s'(1)] c(2) show thesis by (simp add: steps_to_def)
qed

lemma updated_market:
  assumes "updated H order p b s lv s'" and "tag order \<in> I" and "p < mx"
  shows "market_of s' = set_side b lv (market_of s)" and "logged mx I s s'"
proof -
  note U = assms(1) [unfolded updated_def]
  show "market_of s' = set_side b lv (market_of s)"
    by (rule market_of_own) (use U in blast)+
  show "logged mx I s s'" using assms by (rule updated_logged)
qed

text \<open>The four ways of an update that finds its order: a new price, less or more quantity, no change.\<close>

lemma update_price_refines:
  assumes inv: "me_inv n mx s" and n: "Suc n < 2 ^ 31" and ready: "bcast_ready H (Suc (Suc k)) s"
    and found: "find_order mx (unat (system_id order)) (side b (market_of s)) = Some (p, x)"
    and new: "\<not> f32_eq (price order) (price x)" and ok: "price_ok mx b order"
  shows "\<exists>t q' s'. updateOrder H order b s = Some (Inr (t, order\<lparr>quantity := q'\<rparr>, s')) \<and>
    steps_to H (Suc n) mx k (touches order (market_of s)) s s' (m_update mx order b (market_of s))"
proof -
  note I = me_invD [OF inv] and F = find_order_in [OF found]
  let ?i = "unat (system_id order)" and ?I = "touches order (market_of s)"
  obtain c where c: "resting (own b s) p c" "x = book (own b s) ! p ! c" "sid_at (own b s) p c = ?i"
    using found unfolding side_market_of by (rule find_order_resting)
  obtain pr where pr: "price_index (price order) = Inr pr" "pr < mx" "b \<or> 0 < pr" by (rule price_ok_index [OF ok])
  have ends: "\<not> spins b pr (opp b s) (quantity order)" using pr(3) by (auto simp: spins_def)
  obtain lv' q' where walk: "match_walk (path b mx pr) (quantity order) (levels (opp b s)) = (lv', q')"
    by fastforce
  obtain t s1 s2 s' where r: "updateOrder H order b s = Some (Inr (t, order\<lparr>quantity := q'\<rparr>, s'))"
    "me_inv (Suc n) mx s'" "deleted H ((book (own b s) ! p ! c)\<lparr>quantity := 0\<rparr>) p ?i b s s1"
    "created H order pr b s1 q' lv' s2" "s' = s2\<lparr>clk := Suc (clk s2)\<rparr>" "bcast_ready H k s'"
    by (rule updateOrder_price [OF inv n c(1) c(3) [symmetric] _ pr(1,2) ends walk ready]) (use new c(2) in simp)
  have opp1: "opp b s1 = opp b s" using r(3) by (simp add: deleted_def)
  have walk1: "match_walk (path b mx pr) (quantity order) (levels (opp b s1)) = (lv', q')"
    using walk by (simp add: opp1)
  have mx1: "max_price_possible (opp b s1) = mx" using I(6) by (simp add: opp1)
  have "tag ((book (own b s) ! p ! c)\<lparr>quantity := 0\<rparr>) \<in> ?I"
    using touches_side [of x b "market_of s" p] F c(2) by simp
  note D = deleted_market [OF r(3) this F [THEN conjunct1]]
    and C = created_market [OF r(4) mx1 walk1 touches_order touches_opp [where s = s and b = b, folded opp1] pr(2)]
  have "market_of s' = market_of s2"
    by (rule market_of_same [where b = b]) (simp_all add: r(5) frame_simps)
  moreover have "logged mx ?I s2 s'" by (rule logged_quiet) (simp_all add: r(5) frame_simps)
  with logged_trans [OF D(2) C(2)] have "logged mx ?I s s'" by (rule logged_trans)
  ultimately have "steps_to H (Suc n) mx k ?I s s' (m_update mx order b (market_of s))"
    using r(2,6) D C new pr(1) by (simp add: steps_to_def m_update_def found)
  with r(1) show ?thesis by blast
qed

lemma update_quantity_refines:
  assumes inv: "me_inv n mx s" and n: "Suc n < 2 ^ 31" and ready: "bcast_ready H (Suc k) s"
    and found: "find_order mx (unat (system_id order)) (side b (market_of s)) = Some (p, x)"
    and old: "f32_eq (price order) (price x)" and some: "quantity order \<noteq> 0"
  shows "\<exists>t s'. updateOrder H order b s = Some (Inr (t, order, s')) \<and>
    steps_to H (Suc n) mx k (touches order (market_of s)) s s' (m_update mx order b (market_of s))"
proof -
  let ?i = "unat (system_id order)" and ?lv = "levels (own b s)" and ?I = "touches order (market_of s)"
  have p: "p < mx" using find_order_in [OF found] by blast
  obtain c where c: "resting (own b s) p c" "x = book (own b s) ! p ! c" "sid_at (own b s) p c = ?i"
    using found unfolding side_market_of by (rule find_order_resting)
  note sid = c(3) [symmetric] and up = m_update_def found [unfolded side_market_of] side_market_of steps_to_def
  consider "quantity order < quantity x" | "quantity x < quantity order" | "quantity order = quantity x"
    by (meson linorder_less_linear)
  then show ?thesis
  proof cases
    case 1
    obtain t s' where r: "updateOrder H order b s = Some (Inr (t, order, s'))" "me_inv n mx s'"
      "updated H order p b s (\<lambda>q. requantify ?i (quantity order) (?lv q)) s'" "bcast_ready H k s'"
      by (rule updateOrder_decrease [OF inv c(1) sid _ _ _ ready]) (use 1 old some c(2) in simp_all)
    then show ?thesis
      using updated_market [OF r(3) touches_order p] me_inv_mono [OF r(2) _ n] 1 old
      by (intro exI [of _ t] exI [of _ s']) (simp add: up)
  next
    case 2
    then have less: "\<not> quantity order < quantity x" by auto
    obtain t s' where r: "updateOrder H order b s = Some (Inr (t, order, s'))" "me_inv (Suc n) mx s'"
      "updated H order p b s (?lv(p := remove_id ?i (?lv p) @ [order])) s'" "bcast_ready H k s'"
      by (rule updateOrder_increase [OF inv n c(1) sid _ _ ready]) (use 2 old c(2) in simp_all)
    then show ?thesis
      using updated_market [OF r(3) touches_order p] 2 less old
      by (intro exI [of _ t] exI [of _ s']) (simp add: up)
  next
    case 3
    let ?s = "s\<lparr>clk := Suc (clk s)\<rparr>"
    have "updateOrder H order b s = Some (Inr (tsc H (clk s), order, ?s))"
      by (rule updateOrder_same [OF inv c(1) sid]) (use 3 old c(2) in simp_all)
    moreover have "me_inv (Suc n) mx ?s"
      by (rule me_inv_books [OF me_inv_mono [OF inv _ n], where b = b]) (simp_all add: frame_simps)
    moreover have "market_of ?s = market_of s" by (rule market_of_same [where b = b]) (simp_all add: frame_simps)
    moreover have "bcast_ready H k s" using bcast_ready_mono [OF ready] by simp
    ultimately show ?thesis
      using 3 old by (simp add: steps_to_def m_update_def found frame_simps bcast_ready_def logged_quiet)
  qed
qed

text \<open>The order that an update comes back with differs from the request in its quantity at most.\<close>

lemma update_refines:
  assumes inv: "me_inv n mx s" and n: "Suc n < 2 ^ 31" and ready: "bcast_ready H (Suc (Suc k)) s"
    and found: "find_order mx (unat (system_id order)) (side b (market_of s)) = Some (p, x)"
    and ok: "if f32_eq (price order) (price x) then quantity order \<noteq> 0 else price_ok mx b order"
  obtains t q' s' where "updateOrder H order b s = Some (Inr (t, order\<lparr>quantity := q'\<rparr>, s'))"
    and "steps_to H (Suc n) mx k (touches order (market_of s)) s s' (m_update mx order b (market_of s))"
proof (cases "f32_eq (price order) (price x)")
  case True
  have ready1: "bcast_ready H (Suc k) s" using bcast_ready_mono [OF ready] by simp
  have "order\<lparr>quantity := quantity order\<rparr> = order" by simp
  then show thesis
    using update_quantity_refines [OF inv n ready1 found True] ok True that [of _ "quantity order"] by auto
next
  case False
  then show thesis using update_price_refines [OF inv n ready found False] ok that by auto
qed

text \<open>An update of an order that is not in the book changes nothing.\<close>

lemma dispatch_unknown_update:
  assumes inv: "me_inv n mx s" and "req_type order = CHR ''u''"
    and none: "find_order mx (unat (system_id order)) (side (is_bid order) (market_of s)) = None"
  shows "dispatch H order s = Some (Inr (0, order, s))" and "m_request mx order (market_of s) = market_of s"
proof -
  let ?i = "unat (system_id order)" and ?b = "is_bid order"
  have "LUT (own ?b s) ?i = (NPOS, NPOS)" if "?i < LUT_SIZE"
    by (rule find_order_fresh [OF me_invD(1,3) [OF inv] that]) (use none in \<open>simp add: side_market_of\<close>)
  then have "updateOrder H order ?b s = Some (Inr (0, order, s))"
    by (intro updateOrder_unknown) (meson not_le_imp_less)
  then show "dispatch H order s = Some (Inr (0, order, s))" using assms(2) by (simp add: dispatch_def flip: is_bid_def)
  show "m_request mx order (market_of s) = market_of s" using assms(2) none by (simp add: m_request_def m_update_def)
qed

lemma dispatch_refines:
  assumes inv: "me_inv n mx s" and n: "Suc n < 2 ^ 31" and ready: "bcast_ready H (Suc (Suc k)) s"
    and ok: "request_ok mx order (market_of s)"
  obtains t q' s' where "dispatch H order s = Some (Inr (t, order\<lparr>quantity := q'\<rparr>, s'))"
    and "steps_to H (Suc n) mx k (touches order (market_of s)) s s' (m_request mx order (market_of s))"
proof -
  let ?b = "is_bid order" and ?m = "market_of s" and ?i = "unat (system_id order)"
  have ready1: "bcast_ready H (Suc k) s" and ready0: "bcast_ready H k s"
    using bcast_ready_mono [OF ready] by simp_all
  have b: "(order_type order = CHR ''b'') = ?b" by (simp add: is_bid_def)
  have same: "order\<lparr>quantity := quantity order\<rparr> = order" by simp
  have idle: "steps_to H (Suc n) mx k (touches order ?m) s s ?m"
    using me_inv_mono [OF inv _ n] ready0 by (simp add: steps_to_def logged_quiet)
  note ok' = ok [unfolded request_ok_def Let_def]
  consider "req_type order = CHR ''c''" | "req_type order = CHR ''u''" | "req_type order = CHR ''d''"
    | "req_type order \<notin> {CHR ''c'', CHR ''u'', CHR ''d''}" by blast
  then show thesis
  proof cases
    case 1
    then have "price_ok mx ?b order" "?i < LUT_SIZE" "find_order mx ?i (side ?b ?m) = None"
      using ok' by simp_all
    then obtain t q' s' pr where "create_order H order ?b s = Some (Inr (t, order\<lparr>quantity := q'\<rparr>, s'))"
      "price_index (price order) = Inr pr" "steps_to H (Suc n) mx k (touches order (market_of s)) s s' (m_create mx order pr ?b ?m)"
      by (rule create_refines [OF inv n ready1])
    with 1 that show thesis by (simp add: dispatch_def m_request_def b)
  next
    case 2
    show thesis
    proof (cases "find_order mx ?i (side ?b ?m)")
      case None
      show thesis
        using dispatch_unknown_update [OF inv 2 None] that [of 0 "quantity order" s] idle by simp
    next
      case (Some r)
      obtain p x where r: "r = (p, x)" by (cases r)
      have found: "find_order mx ?i (side ?b ?m) = Some (p, x)" using Some r by simp
      have "if f32_eq (price order) (price x) then quantity order \<noteq> 0 else price_ok mx ?b order"
        using ok' 2 found by simp
      then obtain t q' s' where "updateOrder H order ?b s = Some (Inr (t, order\<lparr>quantity := q'\<rparr>, s'))"
        "steps_to H (Suc n) mx k (touches order (market_of s)) s s' (m_update mx order ?b ?m)"
        by (rule update_refines [OF inv n ready found])
      with 2 that show thesis by (simp add: dispatch_def m_request_def b)
    qed
  next
    case 3
    obtain p x where found: "find_order mx ?i (side ?b ?m) = Some (p, x)" and px: "price_ok mx True order"
      using ok' 3 by auto
    obtain pr where pr: "price_index (price order) = Inr pr" "pr < mx" using px by (rule price_ok_index)
    obtain t s' where "deleteOrder_ME H (Local order) ?b s = Some (Inr (t, s'))"
      "steps_to H n mx k (touches order (market_of s)) s s' (m_cancel ?i ?b ?m)"
      by (rule delete_refines [OF inv ready1 found pr])
    moreover from this(2) have "steps_to H (Suc n) mx k (touches order (market_of s)) s s' (m_cancel ?i ?b ?m)"
      by (rule steps_to_mono) (use n in simp_all)
    ultimately show thesis
      using 3 that [of t "quantity order" s'] by (simp add: dispatch_def m_request_def b)
  next
    case 4
    then have "dispatch H order s = Some (Inr (0, order, s))" "m_request mx order ?m = ?m"
      by (simp_all add: dispatch_def m_request_def)
    then show thesis using that [of 0 "quantity order" s] idle by simp
  qed
qed

subsection \<open>A queue of requests\<close>

lemma received_log: "tag order \<in> I \<Longrightarrow> log_grows I s (received H order s)"
  and received_acks: "acked mx I s (received H order s)"
proof -
  let ?s1 = "s\<lparr>clk := Suc (clk s), QueueTime := QueueTime s @ [tsc H (clk s) - out_cycle_count order]\<rparr>"
  let ?s2 = "log_write H ME_RECEIVE_ORDER (tsc H (clk s)) (VLOBOrder order) ?s1"
  have "logged mx I ?s1 ?s2" if "tag order \<in> I"
    using outputs_log_write by (rule outputs_logged) (use that in \<open>simp_all add: log_ok_order\<close>)
  then show "log_grows I s (received H order s)" if "tag order \<in> I"
    using that by (simp add: logged_def log_grows_def received_def Let_def)
  show "acked mx I s (received H order s)" by (rule acked_same) (simp add: frame_simps)
qed

lemma stats_queue: "stats s' = stats s \<Longrightarrow> LobOrderQueue s' = LobOrderQueue s"
  by (simp add: stats_def)

text \<open>Before a request is dispatched: the books are as they were, two samples are taken.\<close>

lemma received_keeps:
  "me_inv n mx s \<Longrightarrow> me_inv n mx (received H order s)"
  "market_of (received H order s) = market_of s"
  "bcast_ready H k (received H order s) = bcast_ready H k s"
proof -
  have same: "own b (received H order s) = own b s" "opp b (received H order s) = opp b s" for b
    by (simp_all add: frame_simps)
  show "me_inv n mx s \<Longrightarrow> me_inv n mx (received H order s)" by (rule me_inv_books [OF _ same])
  show "market_of (received H order s) = market_of s" by (rule market_of_same [OF same])
  show "bcast_ready H k (received H order s) = bcast_ready H k s" by (simp add: bcast_ready_def frame_simps)
qed

lemma received_samples:
  "length (QueueTime (received H order s)) = Suc (length (QueueTime s))"
  "matchingProcessingTime (received H order s) = matchingProcessingTime s"
  "tickToTrade (received H order s) = tickToTrade s"
  "length (Throughtput (received H order s)) = length (Throughtput s) + (if lastOrderTime s = 0 then 0 else 1)"
  "lastOrderTime (received H order s) = tsc H (clk s)"
  by (simp_all add: received_def Let_def log_write_eq)

lemma front_of_queue:
  assumes "lfq_inv q" and "contents q = order # rest"
  obtains i where "getNextToRead q = Some i" and "read_slot i q = order"
proof -
  have "getNextToRead q \<noteq> None" using empty_iff_contents [OF assms(1)] assms(2) by simp
  then obtain i where i: "getNextToRead q = Some i" by blast
  obtain q' where "contents q = read_slot i q # contents q'"
    by (rule consume_contents [OF assms(1) i, of order])
  with assms(2) i that show thesis by simp
qed

text \<open>
  \<open>readOrder\<close> takes the oldest request, leaves the market the request makes, and records one
  latency sample of each kind.
\<close>

lemma readOrder_refines:
  assumes inv: "me_inv n mx s" and n: "Suc n < 2 ^ 31" and ready: "bcast_ready H (Suc (Suc k)) s"
    and queue: "lfq_inv (LobOrderQueue s)" "contents (LobOrderQueue s) = order # rest"
    and ok: "request_ok mx order (market_of s)"
  obtains s' where "readOrder H s = Some (Inr s')" and "me_inv (Suc n) mx s'"
    and "market_of s' = m_request mx order (market_of s)" and "bcast_ready H k s'"
    and "lfq_inv (LobOrderQueue s')" and "contents (LobOrderQueue s') = rest"
    and "length (QueueTime s') = Suc (length (QueueTime s))"
    and "length (matchingProcessingTime s') = Suc (length (matchingProcessingTime s))"
    and "length (tickToTrade s') = Suc (length (tickToTrade s))"
    and "log_grows (touches order (market_of s)) s s'" and "acked mx (touches order (market_of s)) s s'"
    and "length (store (LobOrderQueue s')) = length (store (LobOrderQueue s))"
    and "length (Throughtput s') = length (Throughtput s) + (if lastOrderTime s = 0 then 0 else 1)"
    and "lastOrderTime s' = tsc H (clk s)"
proof -
  let ?r = "received H order s" and ?I = "touches order (market_of s)"
  obtain i where i: "getNextToRead (LobOrderQueue s) = Some i" and order: "read_slot i (LobOrderQueue s) = order"
    by (rule front_of_queue [OF queue])
  have readyr: "bcast_ready H (Suc (Suc k)) ?r" using ready by (simp only: received_keeps(3))
  obtain t q' s8 where d: "dispatch H order ?r = Some (Inr (t, order\<lparr>quantity := q'\<rparr>, s8))"
    "steps_to H (Suc n) mx k ?I ?r s8 (m_request mx order (market_of s))"
    by (rule dispatch_refines [OF received_keeps(1) [OF inv] n readyr, unfolded received_keeps(2), OF ok])
  note S = d(2) [unfolded steps_to_def]
  have lg: "logged mx ?I ?r s8" using S by blast
  then have st: "stats s8 = stats ?r" by (simp add: logged_def)
  have q8: "LobOrderQueue s8 = LobOrderQueue s" using stats_queue [OF st] by (simp add: frame_simps)
  obtain q where q: "updateReadIndex (write_slot i (order\<lparr>quantity := q'\<rparr>) (LobOrderQueue s)) = Inr q"
    "lfq_inv q" "contents (LobOrderQueue s) = read_slot i (LobOrderQueue s) # contents q"
    "length (store q) = length (store (LobOrderQueue s))"
    by (rule consume_contents [OF queue(1) i])
  define s' where "s' = s8\<lparr>LobOrderQueue := q,
    matchingProcessingTime := matchingProcessingTime s8 @ [t - tsc H (clk s)],
    tickToTrade := tickToTrade s8 @ [t - arrival_cycle_count (order\<lparr>quantity := q'\<rparr>)]\<rparr>"
  have run: "readOrder H s = Some (Inr s')"
    using d(1) q(1) by (simp add: readOrder_dispatch [OF i refl] order q8 s'_def)
  have same: "own b s' = own b s8" "opp b s' = opp b s8" for b
    by (simp_all add: s'_def own_def opp_def)
  have "log_grows ?I s ?r" "log_grows ?I s8 s'" by (rule received_log, simp) (rule log_grows_same, simp add: s'_def)
  then have grows: "log_grows ?I s s'" using lg log_grows_trans unfolding logged_def by blast
  have "acked mx ?I s8 s'" by (rule acked_same) (simp add: s'_def)
  then have acks: "acked mx ?I s s'" using lg received_acks acked_trans unfolding logged_def by blast
  have "me_inv (Suc n) mx s'" by (rule me_inv_books [OF _ same]) (use S in blast)
  moreover have "market_of s' = m_request mx order (market_of s)" using market_of_same [OF same] S by simp
  moreover have "bcast_ready H k s'" using S by (simp add: bcast_ready_def s'_def)
  moreover have "lfq_inv (LobOrderQueue s')" "contents (LobOrderQueue s') = rest"
    "length (store (LobOrderQueue s')) = length (store (LobOrderQueue s))"
    using q(2-4) queue(2) by (simp_all add: s'_def)
  moreover have "length (QueueTime s') = Suc (length (QueueTime s))"
    "length (matchingProcessingTime s') = Suc (length (matchingProcessingTime s))"
    "length (tickToTrade s') = Suc (length (tickToTrade s))"
    "length (Throughtput s') = length (Throughtput s) + (if lastOrderTime s = 0 then 0 else 1)"
    "lastOrderTime s' = tsc H (clk s)"
    using st received_samples [of H order s] by (simp_all add: s'_def stats_def)
  ultimately show thesis using that [OF run] grows acks by blast
qed

lemma engine_run:
  assumes "me_inv n mx s" and "n + length reqs < 2 ^ 31" and "bcast_ready H (2 * length reqs) s"
    and "lfq_inv (LobOrderQueue s)" and "contents (LobOrderQueue s) = reqs"
    and "requests_ok mx reqs (market_of s)"
  shows "\<exists>s'. engine_turns H (length reqs) s = Some (Inr s') \<and>
      me_inv (n + length reqs) mx s' \<and>
      market_of s' = fold (m_request mx) reqs (market_of s) \<and> contents (LobOrderQueue s') = [] \<and>
      length (tickToTrade s') = length (tickToTrade s) + length reqs \<and> log_grows UNIV s s'"
  using assms
proof (induction reqs arbitrary: n s)
  case (Cons r rs)
  obtain s1 where s1: "readOrder H s = Some (Inr s1)" "me_inv (Suc n) mx s1"
    "market_of s1 = m_request mx r (market_of s)" "bcast_ready H (2 * length rs) s1"
    "lfq_inv (LobOrderQueue s1)" "contents (LobOrderQueue s1) = rs"
    "length (tickToTrade s1) = Suc (length (tickToTrade s))" "log_grows (touches r (market_of s)) s s1"
    by (rule readOrder_refines [OF Cons.prems(1) _ _ Cons.prems(4,5), of H "2 * length rs"])
      (use Cons.prems in simp_all)
  obtain s' where "engine_turns H (length rs) s1 = Some (Inr s')" "me_inv (Suc n + length rs) mx s'"
    "market_of s' = fold (m_request mx) rs (market_of s1)" "contents (LobOrderQueue s') = []"
    "length (tickToTrade s') = length (tickToTrade s1) + length rs" "log_grows UNIV s1 s'"
    using Cons.IH [OF s1(2) _ s1(4-6)] Cons.prems(2,6) s1(3) by auto
  with s1 log_grows_trans [OF log_grows_mono [OF s1(8) subset_UNIV]] show ?case by simp
qed (simp add: log_grows_same)

text \<open>A new engine is an empty market.\<close>

lemma ME_new_inv:
  assumes "0 < mx" and "mx < 2 ^ 31" and "0 < qs"
  shows "me_inv 0 mx (ME_new mx qs)" and "market_of (ME_new mx qs) = \<lparr>bids = (\<lambda>_. []), asks = (\<lambda>_. [])\<rparr>"
    and "port_inv (BroadCastQ (ME_new mx qs))" and "published (BroadCastQ (ME_new mx qs)) = []"
    and "port_cap (BroadCastQ (ME_new mx qs)) = qs - 1"
proof -
  have l: "levels (LOB_new b mx) = (\<lambda>_. [])" for b
    using LOB_new_inv(2) [OF assms(1,2), of 0] by auto
  have books: "own b (ME_new mx qs) = LOB_new b mx" for b
    by (simp add: own_def ME_new_def)
  have "uncrossed (ME_new mx qs)"
    by (simp add: uncrossed_def ME_new_def l)
  moreover have "isBuy (LOB_new b mx) = b" "max_price_possible (LOB_new b mx) = mx" for b
    by (simp_all add: LOB_new_def)
  moreover have "lob_inv 0 (LOB_new b mx)" for b
    using assms(1,2) by (intro LOB_new_inv(1)) simp_all
  ultimately show "me_inv 0 mx (ME_new mx qs)" by (simp add: me_inv_def books)
  show "market_of (ME_new mx qs) = \<lparr>bids = (\<lambda>_. []), asks = (\<lambda>_. [])\<rparr>"
    by (simp add: market_of_def ME_new_def l)
  show "port_inv (BroadCastQ (ME_new mx qs))" "published (BroadCastQ (ME_new mx qs)) = []"
    "port_cap (BroadCastQ (ME_new mx qs)) = qs - 1"
    using assms(3) by (simp_all add: ME_new_def port_new_inv)
      (simp_all add: port_new_def port_cap_def LFQueue_new_def)
qed

end
