(* ===== verification/BookSearch.thy ===== *)
theory BookSearch
  imports BookProps Market
begin

text \<open>
  The book without its indexes: a reference for \<open>limitedOrderBook\<close> that keeps nothing but the live
  orders of each level and answers every question by a search.  The lookup table, the counters and
  the best-price pointer of \<open>header/lob_struct.h\<close> are then an optimisation: for every sequence of
  operations both books fail at the same operation with the same fault, hold the same orders and
  give the same answers.
\<close>

datatype book_op = Add LOBOrder | Cancel u32 | Resize LOBOrder

subsection \<open>The operations of the source\<close>

fun book_step :: "LOB \<Rightarrow> book_op \<Rightarrow> LOB result" where
  "book_step b (Add x) = createOrder b x"
| "book_step b (Cancel i) = deleteOrder b (int_of_size (unat i))"
| "book_step b (Resize x) = UpdateOrderQuantity b x"

fun book_steps :: "LOB \<Rightarrow> book_op list \<Rightarrow> LOB result" where
  "book_steps b [] = Inr b"
| "book_steps b (x # xs) = bindR (book_step b x) (\<lambda>b'. book_steps b' xs)"

subsection \<open>The same by searching\<close>

text \<open>
  \<open>deleteOrder\<close> takes an \<open>int\<close>: an id of \<open>2 ^ 31\<close> or more arrives as a negative number.
\<close>

fun search_op :: "nat \<Rightarrow> (nat \<Rightarrow> LOBOrder list) \<Rightarrow> book_op \<Rightarrow> (nat \<Rightarrow> LOBOrder list) result" where
  "search_op mx lv (Add x) =
     bindR (price_index (price x)) (\<lambda>p.
       if p < mx \<and> unat (system_id x) < LUT_SIZE then Inr (lv(p := lv p @ [x])) else Inl OutOfBounds)"
| "search_op mx lv (Cancel i) =
     (if LUT_SIZE < unat i \<and> unat i < 2 ^ 31 then Inr lv
      else case find_order mx (unat i) lv of
             None \<Rightarrow> Inl OutOfBounds
           | Some _ \<Rightarrow> Inr (\<lambda>p. remove_id (unat i) (lv p)))"
| "search_op mx lv (Resize x) =
     (case find_order mx (unat (system_id x)) lv of
        None \<Rightarrow> Inr lv
      | Some (p, y) \<Rightarrow>
          if quantity x = quantity y then Inr lv
          else if quantity x < quantity y
          then Inr (\<lambda>q. requantify (unat (system_id x)) (quantity x) (lv q))
          else Inr (lv(p := remove_id (unat (system_id x)) (lv p) @ [x])))"

fun search_ops :: "nat \<Rightarrow> (nat \<Rightarrow> LOBOrder list) \<Rightarrow> book_op list \<Rightarrow> (nat \<Rightarrow> LOBOrder list) result" where
  "search_ops mx lv [] = Inr lv"
| "search_ops mx lv (x # xs) = bindR (search_op mx lv x) (\<lambda>lv'. search_ops mx lv' xs)"

definition search_best :: "bool \<Rightarrow> nat \<Rightarrow> (nat \<Rightarrow> LOBOrder list) \<Rightarrow> nat" where
  "search_best buy mx lv =
     (let ps = filter (\<lambda>p. lv p \<noteq> []) [0..<mx]
      in if ps = [] then (if buy then 0 else mx) else if buy then last ps else hd ps)"

text \<open>
  What the engine takes care of: an order it adds has a quantity and an id that is not in use, an
  update asks for a quantity other than 0 at the price the order has.
\<close>

definition op_ok :: "nat \<Rightarrow> (nat \<Rightarrow> LOBOrder list) \<Rightarrow> book_op \<Rightarrow> bool" where
  "op_ok mx lv x =
     (case x of
        Add y \<Rightarrow> live y \<and> find_order mx (unat (system_id y)) lv = None
      | Cancel i \<Rightarrow> True
      | Resize y \<Rightarrow>
          (case find_order mx (unat (system_id y)) lv of
             None \<Rightarrow> True
           | Some (p, _) \<Rightarrow> live y \<and> price_index (price y) = Inr p))"

fun ops_ok :: "nat \<Rightarrow> (nat \<Rightarrow> LOBOrder list) \<Rightarrow> book_op list \<Rightarrow> bool" where
  "ops_ok mx lv [] = True"
| "ops_ok mx lv (x # xs) =
     (op_ok mx lv x \<and> (case search_op mx lv x of Inl _ \<Rightarrow> True | Inr lv' \<Rightarrow> ops_ok mx lv' xs))"

subsection \<open>The answers\<close>

lemma search_best_eq:
  assumes inv: "lob_inv n b"
  shows "get_optimal_price b = search_best (isBuy b) (max_price_possible b) (levels b)"
proof -
  let ?mx = "max_price_possible b" and ?best = "get_optimal_price b"
  let ?ps = "filter (\<lambda>p. levels b p \<noteq> []) [0..<?mx]"
  have mx: "p < ?mx" if "levels b p \<noteq> []" for p
    using that lob_invD(3) [OF inv] by (auto simp: levels_def shape_ok_def split: if_splits)
  show ?thesis
  proof (cases "?ps = []")
    case True
    have "levels b ?best = []"
    proof (rule ccontr)
      assume "levels b ?best \<noteq> []"
      with mx [OF this] have "?best \<in> set ?ps" by simp
      with True show False by simp
    qed
    then have "?best = (if isBuy b then 0 else ?mx)"
      using lob_invD(2) [OF inv] by (simp add: best_ok_def get_optimal_price_def)
    with True show ?thesis by (simp add: search_best_def)
  next
    case False
    have srt: "sorted ?ps" by (rule sorted_wrt_filter) simp
    have "hd ?ps \<in> set ?ps" "last ?ps \<in> set ?ps" using False by (rule hd_in_set, rule last_in_set)
    then have ends: "levels b (hd ?ps) \<noteq> []" "levels b (last ?ps) \<noteq> []" by auto
    have live: "levels b ?best \<noteq> []" by (rule best_level(1) [OF inv ends(1)])
    then have "?best \<in> set ?ps" using mx [OF live] by simp
    then obtain k where k: "k < length ?ps" "?ps ! k = ?best" by (auto simp only: in_set_conv_nth)
    have "hd ?ps \<le> ?best" "?best \<le> last ?ps"
      using sorted_nth_mono [OF srt, of 0 k] sorted_nth_mono [OF srt, of k "length ?ps - 1"] k False
      by (simp_all add: hd_conv_nth last_conv_nth)
    moreover have "\<not> better b (hd ?ps) ?best" "\<not> better b (last ?ps) ?best"
      by (rule best_level(2) [OF inv ends(1)], rule best_level(2) [OF inv ends(2)])
    ultimately have "?best = (if isBuy b then last ?ps else hd ?ps)"
      by (cases "isBuy b") (simp_all only: better_def if_True if_False not_less le_antisym)
    then show ?thesis unfolding search_best_def Let_def if_not_P [OF False] .
  qed
qed

text \<open>What \<open>peekOrder\<close> points at.\<close>

definition peeked :: "LOB \<Rightarrow> u32 \<Rightarrow> (nat \<times> LOBOrder) option result" where
  "peeked b i = bindR (peekOrder b i) (\<lambda>r. Inr (map_option (\<lambda>(p, c). (p, book b ! p ! c)) r))"

lemma find_order_eq:
  assumes inv: "core_inv n b" and rest: "resting b p c" and i: "sid_at b p c = i"
  shows "find_order (max_price_possible b) i (levels b) = Some (p, book b ! p ! c)"
proof -
  let ?f = "find_order (max_price_possible b) i (levels b)"
  note R = restingD [OF rest]
  have "book b ! p ! c \<in> set (levels b p)" by (simp add: levels_split [OF R])
  then have "?f \<noteq> None" using core_resting(6) [OF inv rest] i by (auto simp: find_order_None sid_at_def)
  then obtain q x where q: "?f = Some (q, x)" by auto
  obtain d where d: "resting b q d" "x = book b ! q ! d" "sid_at b q d = i" by (rule find_order_resting [OF q])
  have "p = q \<and> c = d" by (rule resting_unique [OF inv rest d(1)]) (simp add: i d(3))
  with q d(2) show ?thesis by simp
qed

lemma find_order_free:
  assumes inv: "core_inv n b" and free: "LUT_SIZE \<le> i \<or> LUT b i = (NPOS, NPOS)"
  shows "find_order (max_price_possible b) i (levels b) = None"
proof (rule ccontr)
  assume "find_order (max_price_possible b) i (levels b) \<noteq> None"
  then obtain p x where f: "find_order (max_price_possible b) i (levels b) = Some (p, x)" by auto
  obtain c where c: "resting b p c" "sid_at b p c = i" by (rule find_order_resting [OF f])
  have "i < LUT_SIZE" "LUT b i = (p, c)" "p < 2 ^ 31" using core_resting [OF inv c(1)] c(2) by simp_all
  with free NPOS_big show False by simp
qed

text \<open>Every id is either free or that of exactly one live order.\<close>

lemma id_cases:
  assumes inv: "core_inv n b"
  obtains (free) "LUT_SIZE \<le> i \<or> LUT b i = (NPOS, NPOS)" "find_order (max_price_possible b) i (levels b) = None"
  | (used) p c where "i < LUT_SIZE" "LUT b i = (p, c)" "resting b p c" "sid_at b p c = i"
      "find_order (max_price_possible b) i (levels b) = Some (p, book b ! p ! c)"
proof (cases "LUT_SIZE \<le> i \<or> LUT b i = (NPOS, NPOS)")
  case True
  show thesis by (rule free [OF True find_order_free [OF inv True]])
next
  case False
  then obtain p c where pc: "LUT b i = (p, c)" "resting b p c" "sid_at b p c = i"
    using core_lut [OF inv, of i] by auto
  show thesis by (rule used [OF _ pc find_order_eq [OF inv pc(2,3)]]) (use False in simp)
qed

lemma peeked_eq:
  assumes inv: "lob_inv n b"
  shows "peeked b i = Inr (find_order (max_price_possible b) (unat i) (levels b))"
  using lob_invD(1) [OF inv]
proof (cases rule: id_cases [where i = "unat i"])
  case free
  then show ?thesis by (auto simp: peeked_def peekOrder_def)
next
  case (used p c)
  note R = restingD [OF used(3)] and P = core_resting(4,5) [OF lob_invD(1) [OF inv] used(3)]
  have "p \<noteq> NPOS" "c \<noteq> NPOS" using P NPOS_big by auto
  then have "peekOrder b i = Inr (Some (p, c))" using used(1,2) R(1,2) by (simp add: peekOrder_def)
  with used(5) show ?thesis by (simp add: peeked_def)
qed

subsection \<open>The operations\<close>

text \<open>One operation: the same fault, or books that still stand for the same orders.\<close>

definition agrees :: "nat \<Rightarrow> LOB \<Rightarrow> LOB result \<Rightarrow> (nat \<Rightarrow> LOBOrder list) result \<Rightarrow> bool" where
  "agrees n b r s =
     (case r of
        Inl e \<Rightarrow> s = Inl e
      | Inr b' \<Rightarrow> s = Inr (levels b') \<and> lob_inv (Suc n) b' \<and> isBuy b' = isBuy b \<and>
          max_price_possible b' = max_price_possible b)"

lemma agrees_simps [simp]:
  "agrees n b (Inl e) s \<longleftrightarrow> s = Inl e"
  "agrees n b (Inr b') s \<longleftrightarrow> s = Inr (levels b') \<and> lob_inv (Suc n) b' \<and> isBuy b' = isBuy b \<and>
     max_price_possible b' = max_price_possible b"
  by (simp_all add: agrees_def)

lemma add_agrees:
  assumes inv: "lob_inv n b" and n: "Suc n < 2 ^ 31" and ok: "op_ok (max_price_possible b) (levels b) (Add x)"
  shows "agrees n b (createOrder b x) (search_op (max_price_possible b) (levels b) (Add x))"
proof (cases "price_index (price x)")
  case (Inl e)
  then show ?thesis by (simp add: createOrder_def)
next
  case (Inr p)
  have sh: "length (book b) = max_price_possible b" "length (active_counts b) = max_price_possible b"
    using lob_invD(3) [OF inv] by (simp_all add: shape_ok_def)
  show ?thesis
  proof (cases "p < max_price_possible b \<and> unat (system_id x) < LUT_SIZE")
    case False
    with Inr sh show ?thesis by (auto simp: createOrder_def Let_def)
  next
    case True
    have lv: "live x" and none: "find_order (max_price_possible b) (unat (system_id x)) (levels b) = None"
      using ok by (simp_all add: op_ok_def)
    have fr: "LUT b (unat (system_id x)) = (NPOS, NPOS)"
      by (rule find_order_fresh [OF inv refl conjunct2 [OF True] none])
    obtain b' where "createOrder b x = Inr b'" "lob_inv (Suc n) b'"
      "levels b' = (levels b)(p := levels b p @ [x])" "isBuy b' = isBuy b"
      "max_price_possible b' = max_price_possible b"
      by (rule createOrder_inv [OF inv Inr conjunct1 [OF True] lv refl conjunct2 [OF True] fr n])
    with True Inr show ?thesis by simp
  qed
qed

lemma size_of_negative: "k < 2 ^ 32 \<Longrightarrow> 10000000 \<le> size_of_int (int k - 2 ^ 32)"
proof -
  assume "k < 2 ^ 32"
  then have "(int k - 2 ^ 32 + 2 ^ 64) mod 2 ^ 64 = int k - 2 ^ 32 + 2 ^ 64"
    by (intro mod_pos_pos_trivial) simp_all
  then have "(int k - 2 ^ 32) mod 2 ^ 64 = int k - 2 ^ 32 + 2 ^ 64" by (simp only: mod_add_self2)
  then show ?thesis by (simp add: size_of_int_def)
qed

lemma deleteOrder_free:
  assumes "k \<le> LUT_SIZE" and "LUT_SIZE \<le> k \<or> LUT b k = (NPOS, NPOS)" and "length (book b) < NPOS"
  shows "deleteOrder b (int k) = Inl OutOfBounds"
proof -
  have k: "size_of_int (int k) = k" using assms(1) by (simp add: LUT_SIZE_def)
  show ?thesis
  proof (cases "LUT_SIZE \<le> k")
    case True
    then show ?thesis using k assms(1) by (simp add: deleteOrder_def)
  next
    case False
    then show ?thesis using k assms by (simp add: deleteOrder_def Let_def)
  qed
qed

lemma cancel_agrees:
  assumes inv: "lob_inv n b" and n: "Suc n < 2 ^ 31"
  shows "agrees n b (deleteOrder b (int_of_size (unat i))) (search_op (max_price_possible b) (levels b) (Cancel i))"
proof -
  note core = lob_invD(1) [OF inv]
  have len: "length (book b) < NPOS" using lob_invD(3) [OF inv] NPOS_big by (auto simp: shape_ok_def)
  have up: "lob_inv n b' \<Longrightarrow> lob_inv (Suc n) b'" for b' using n by (auto simp: lob_inv_defs)
  consider "LUT_SIZE < unat i" "unat i < 2 ^ 31" | "2 ^ 31 \<le> unat i" | "unat i \<le> LUT_SIZE" by linarith
  then show ?thesis
  proof cases
    case 1
    have "int LUT_SIZE < int (unat i)" using 1(1) by (simp only: of_nat_less_iff)
    then have "deleteOrder b (int_of_size (unat i)) = Inr b"
      unfolding int_of_size_small [OF 1(2)] deleteOrder_def by (rule if_P)
    with 1 inv up show ?thesis by simp
  next
    case 2
    let ?k = "int (unat i) - 2 ^ 32"
    have small: "unat i < 2 ^ 32" using unsigned_less [of i, where ?'a = nat] by simp
    then have neg: "int_of_size (unat i) = ?k" using 2 by (simp add: int_of_size_def)
    have "LUT_SIZE \<le> size_of_int ?k"
      using size_of_negative [of "unat i"] small by (simp only: LUT_SIZE_def)
    moreover have "\<not> int LUT_SIZE < ?k" using small by (simp only: of_nat_less_iff [symmetric, where 'a = int]) simp
    ultimately have "deleteOrder b (int_of_size (unat i)) = Inl OutOfBounds" unfolding neg by (simp add: deleteOrder_def)
    moreover have "find_order (max_price_possible b) (unat i) (levels b) = None"
      by (rule find_order_free [OF core]) (use 2 in \<open>simp add: LUT_SIZE_def\<close>)
    ultimately show ?thesis using 2 by simp
  next
    case 3
    then have small: "unat i < 2 ^ 31" "unat i < 2 ^ 64" by (simp_all add: LUT_SIZE_def)
    note i = int_of_size_small [OF small(1)]
    from core show ?thesis
    proof (cases rule: id_cases [where i = "unat i"])
      case free
      from deleteOrder_free [OF 3 free(1) len] free(2) 3 show ?thesis unfolding i(1) by simp
    next
      case (used p c)
      obtain b' where "deleteOrder b (int (unat i)) = Inr b'" "lob_inv n b'"
        "levels b' = (\<lambda>q. remove_id (unat i) (levels b q))" "isBuy b' = isBuy b"
        "max_price_possible b' = max_price_possible b"
        by (rule deleteOrder_resting [OF inv used(3) used(4) [symmetric]])
      with used(5) 3 up show ?thesis unfolding i(1) by simp
    qed
  qed
qed

lemma resize_agrees:
  assumes inv: "lob_inv n b" and n: "Suc n < 2 ^ 31" and ok: "op_ok (max_price_possible b) (levels b) (Resize x)"
  shows "agrees n b (UpdateOrderQuantity b x) (search_op (max_price_possible b) (levels b) (Resize x))"
proof -
  note core = lob_invD(1) [OF inv]
  have up: "lob_inv n b' \<Longrightarrow> lob_inv (Suc n) b'" for b' using n by (auto simp: lob_inv_defs)
  from core show ?thesis
  proof (cases rule: id_cases [where i = "unat (system_id x)"])
    case free
    then have "UpdateOrderQuantity b x = Inr b" by (intro UpdateOrderQuantity_unknown) blast
    with free(2) inv up show ?thesis by simp
  next
    case (used p c)
    let ?y = "book b ! p ! c"
    note sid = used(4) [symmetric]
    have lv: "quantity x \<noteq> 0" and px: "price_index (price x) = Inr p"
      using ok used(5) by (simp_all add: op_ok_def live_def)
    consider "quantity x < quantity ?y" | "quantity x = quantity ?y" | "quantity ?y < quantity x"
      by (rule linorder_cases)
    then show ?thesis
    proof cases
      case 1
      obtain b' where "UpdateOrderQuantity b x = Inr b'" "lob_inv n b'"
        "levels b' = (\<lambda>q. requantify (sid_at b p c) (quantity x) (levels b q))"
        "isBuy b' = isBuy b" "max_price_possible b' = max_price_possible b"
        by (rule update_decrease [OF inv used(3) sid 1 lv])
      with 1 up used(4,5) show ?thesis by auto
    next
      case 2
      then have "UpdateOrderQuantity b x = Inr b" by (simp add: UpdateOrderQuantity_eq [OF core used(3) sid])
      with 2 inv up used(5) show ?thesis by simp
    next
      case 3
      then have not: "quantity x \<noteq> quantity ?y" "\<not> quantity x < quantity ?y" by auto
      obtain b' where "UpdateOrderQuantity b x = Inr b'" "lob_inv (Suc n) b'"
        "levels b' = (\<lambda>q. if q = p then remove_id (sid_at b p c) (levels b p) @ [x] else levels b q)"
        "isBuy b' = isBuy b" "max_price_possible b' = max_price_possible b"
        by (rule update_increase [OF inv used(3) sid 3 px n])
      with not used(4,5) show ?thesis by (auto simp: fun_eq_iff)
    qed
  qed
qed

lemma step_agrees:
  assumes "lob_inv n b" and "Suc n < 2 ^ 31" and "op_ok (max_price_possible b) (levels b) x"
  shows "agrees n b (book_step b x) (search_op (max_price_possible b) (levels b) x)"
  using add_agrees [OF assms(1,2)] cancel_agrees [OF assms(1,2)] resize_agrees [OF assms(1,2)] assms(3)
  by (cases x) simp_all

lemma steps_agree:
  assumes "lob_inv n b" and "n + length xs < 2 ^ 31" and "ops_ok (max_price_possible b) (levels b) xs"
  shows "case book_steps b xs of
      Inl e \<Rightarrow> search_ops (max_price_possible b) (levels b) xs = Inl e
    | Inr b' \<Rightarrow> search_ops (max_price_possible b) (levels b) xs = Inr (levels b') \<and> lob_inv (n + length xs) b' \<and>
        isBuy b' = isBuy b \<and> max_price_possible b' = max_price_possible b"
  using assms
proof (induction xs arbitrary: n b)
  case (Cons x xs)
  have ok: "op_ok (max_price_possible b) (levels b) x" using Cons.prems(3) by simp
  have A: "agrees n b (book_step b x) (search_op (max_price_possible b) (levels b) x)"
    by (rule step_agrees [OF Cons.prems(1) _ ok]) (use Cons.prems(2) in simp)
  show ?case
  proof (cases "book_step b x")
    case (Inl e)
    with A show ?thesis by simp
  next
    case (Inr b1)
    with A have b1: "search_op (max_price_possible b) (levels b) x = Inr (levels b1)" "lob_inv (Suc n) b1"
      "isBuy b1 = isBuy b" "max_price_possible b1 = max_price_possible b" by simp_all
    have "ops_ok (max_price_possible b1) (levels b1) xs" using Cons.prems(3) b1(1,4) by simp
    note IH = Cons.IH [OF b1(2) _ this]
    have "Suc n + length xs < 2 ^ 31" using Cons.prems(2) by simp
    with IH b1 Inr show ?thesis by (simp split: sum.splits)
  qed
qed simp

subsection \<open>The property\<close>

text \<open>
  C8. The indexes of the book are an optimisation and nothing else: run on any list of operations,
  the book of the source and the book that searches its live orders either fail with the same fault
  or hold the same orders at every level; then the best price is the one found by a search of the
  levels, what the lookup table finds under an id is what a search of all orders finds, and the
  counters are the lengths of the levels.
\<close>
theorem book_equals_search:
  assumes "lob_inv n b" and "ops_ok (max_price_possible b) (levels b) xs" and "n + length xs < 2 ^ 31"
  shows "map_sum id levels (book_steps b xs) = search_ops (max_price_possible b) (levels b) xs \<and>
    (\<forall>b'. book_steps b xs = Inr b' \<longrightarrow>
      get_optimal_price b' = search_best (isBuy b) (max_price_possible b) (levels b') \<and>
      (\<forall>i. peeked b' i = Inr (find_order (max_price_possible b) (unat i) (levels b'))) \<and>
      (\<forall>p < max_price_possible b. active_counts b' ! p = int (length (levels b' p))))"
proof (cases "book_steps b xs")
  case (Inl e)
  with steps_agree [OF assms(1,3,2)] show ?thesis by simp
next
  case (Inr b1)
  with steps_agree [OF assms(1,3,2)]
  have b1: "search_ops (max_price_possible b) (levels b) xs = Inr (levels b1)" "lob_inv (n + length xs) b1"
    "isBuy b1 = isBuy b" "max_price_possible b1 = max_price_possible b" by simp_all
  have "active_counts b1 ! p = int (length (levels b1 p))" if "p < max_price_possible b" for p
    using that b1(4) lob_invD(1,3) [OF b1(2)] by (simp add: core_inv_def counts_ok_def shape_ok_def)
  with search_best_eq [OF b1(2)] peeked_eq [OF b1(2)] Inr b1 show ?thesis by simp
qed

text \<open>Two asks, the better of which is cancelled and then asked for again.\<close>

definition demo_ops :: "book_op list" where
  "demo_ops = [Add (demo_order 7 (CHR ''s'') (CHR ''c'') one 5), Add (demo_order 8 (CHR ''s'') (CHR ''c'') two 3), Cancel 7]"

lemma demo_ops_found:
  "find_order 30 (unat (7 :: u32)) (\<lambda>_. []) = None"
  "find_order 30 (unat (8 :: u32)) ((\<lambda>_. [])(10 := [demo_order 7 (CHR ''s'') (CHR ''c'') one 5])) = None"
  "find_order 30 (unat (7 :: u32)) ((\<lambda>_. [])(10 := [demo_order 7 (CHR ''s'') (CHR ''c'') one 5],
    20 := [demo_order 8 (CHR ''s'') (CHR ''c'') two 3])) \<noteq> None"
  unfolding find_order_None by (auto intro: exI [of _ 10])

lemma demo_ops_search:
  "ops_ok 30 (\<lambda>_. []) demo_ops" "\<exists>lv. search_ops 30 (\<lambda>_. []) demo_ops = Inr lv \<and> lv 10 = [] \<and> lv 20 \<noteq> []"
proof -
  obtain r where r: "find_order 30 (unat (7 :: u32)) ((\<lambda>_. [])(10 := [demo_order 7 (CHR ''s'') (CHR ''c'') one 5],
    20 := [demo_order 8 (CHR ''s'') (CHR ''c'') two 3])) = Some r" using demo_ops_found(3) by blast
  note found = demo_ops_found(1,2) [simplified] r [simplified]
  show "ops_ok 30 (\<lambda>_. []) demo_ops"
    by (simp add: demo_ops_def op_ok_def live_def found LUT_SIZE_def split: sum.splits option.splits)
  show "\<exists>lv. search_ops 30 (\<lambda>_. []) demo_ops = Inr lv \<and> lv 10 = [] \<and> lv 20 \<noteq> []"
    by (simp add: demo_ops_def found LUT_SIZE_def remove_id_def)
qed

theorem book_equals_search_witness:
  "\<exists>b. book_steps (LOB_new False 30) demo_ops = Inr b \<and> levels b 10 = [] \<and> levels b 20 \<noteq> [] \<and>
    get_optimal_price b = search_best False 30 (levels b) \<and> peeked b 7 = Inr (find_order 30 7 (levels b))"
proof -
  let ?b = "LOB_new False 30"
  have new: "lob_inv 0 ?b" "levels ?b = (\<lambda>_. [])" "max_price_possible ?b = 30" "isBuy ?b = False"
    using LOB_new_inv [of 30 0 False] by (simp_all add: fun_eq_iff) (simp_all add: LOB_new_def)
  have "ops_ok (max_price_possible ?b) (levels ?b) demo_ops" using demo_ops_search(1) new by simp
  from book_equals_search [OF new(1) this]
  have E: "map_sum id levels (book_steps ?b demo_ops) = search_ops 30 (\<lambda>_. []) demo_ops"
    "\<forall>b'. book_steps ?b demo_ops = Inr b' \<longrightarrow> get_optimal_price b' = search_best False 30 (levels b') \<and>
      (\<forall>i. peeked b' i = Inr (find_order 30 (unat i) (levels b')))"
    by (simp_all add: new) (simp_all add: demo_ops_def)
  obtain lv where lv: "search_ops 30 (\<lambda>_. []) demo_ops = Inr lv" "lv 10 = []" "lv 20 \<noteq> []" using demo_ops_search(2) by blast
  then obtain b where b: "book_steps ?b demo_ops = Inr b" "levels b = lv" using E(1) by (cases "book_steps ?b demo_ops") simp_all
  have "unat (7 :: u32) = 7" by simp
  with E(2) b lv(2,3) show ?thesis by metis
qed

end
