(* ===== verification/MatchProps.thy ===== *)
theory MatchProps
  imports MatchingProofs BookProps
begin

text \<open>
  What one run of \<open>aggresiveMatch\<close> promises: it computes the walk of the specification, it returns
  except in one case, no quantity appears or vanishes, and executions follow price and time
  priority.
\<close>

subsection \<open>The executions of a walk\<close>

lemma walk_execs_levels: "e \<in> set (walk_execs ps q lv) \<Longrightarrow> at_level e \<in> set ps"
  by (induction ps q lv rule: walk_execs.induct) (auto dest: fill_execs_level)

lemma walk_execs_sorted:
  assumes "sorted_wrt R ps" and "\<And>p. R' p p" and "\<And>p r. R p r \<Longrightarrow> R' p r"
  shows "sorted_wrt (\<lambda>e f. R' (at_level e) (at_level f)) (walk_execs ps q lv)"
  using assms(1)
proof (induction ps q lv rule: walk_execs.induct)
  case (2 p ps q lv)
  have "sorted_wrt (\<lambda>e f. R' (at_level e) (at_level f)) (fill_execs p q (lv p))"
    by (rule sorted_wrt_mono_rel [of _ "\<lambda>_ _. True"])
      (auto simp: assms(2) sorted_wrt_iff_nth_less dest!: fill_execs_level)
  moreover have "R' (at_level e) (at_level f)"
    if "e \<in> set (fill_execs p q (lv p))"
      "f \<in> set (walk_execs ps (snd (fill q (lv p))) (lv(p := fst (fill q (lv p)))))" for e f
    using fill_execs_level [OF that(1)] walk_execs_levels [OF that(2)] "2.prems" assms(3) by simp
  ultimately show ?case using 2 by (simp add: sorted_wrt_append fun_upd_def)
qed simp

lemma walk_execs_makers:
  assumes "distinct ps"
  shows "\<exists>k. map maker (filter (\<lambda>e. at_level e = r) (walk_execs ps q lv)) = take k (lv r)"
  using assms
proof (induction ps q lv rule: walk_execs.induct)
  case (2 p ps q lv)
  let ?es = "fill_execs p q (lv p)"
  let ?fs = "walk_execs ps (snd (fill q (lv p))) (lv(p := fst (fill q (lv p))))"
  show ?case
  proof (cases "r = p")
    case True
    have "filter (\<lambda>e. at_level e = r) ?es = ?es"
      using True by (auto simp: filter_id_conv dest: fill_execs_level)
    moreover have "filter (\<lambda>e. at_level e = r) ?fs = []"
      using True "2.prems" by (auto simp: filter_empty_conv dest: walk_execs_levels)
    ultimately have "map maker (filter (\<lambda>e. at_level e = r) (?es @ ?fs)) = take (length ?es) (lv r)"
      using True by (simp add: fill_execs_makers)
    then show ?thesis by auto
  next
    case False
    have "filter (\<lambda>e. at_level e = r) ?es = []"
      using False by (auto simp: filter_empty_conv dest: fill_execs_level)
    with 2 False show ?thesis by (simp add: fun_upd_def)
  qed
qed simp

lemma fill_execs_amounts:
  "e \<in> set (fill_execs p q os) \<Longrightarrow>
    maker_left e = quantity (maker e) - traded e \<and> traded e \<le> quantity (maker e) \<and>
    (maker_left e = 0 \<or> taker_left e = 0)"
  by (induction p q os rule: fill_execs.induct) (auto simp: Let_def min_def split: if_splits)

lemma walk_execs_amounts:
  "e \<in> set (walk_execs ps q lv) \<Longrightarrow>
    maker_left e = quantity (maker e) - traded e \<and> traded e \<le> quantity (maker e) \<and>
    (maker_left e = 0 \<or> taker_left e = 0)"
  by (induction ps q lv rule: walk_execs.induct) (auto dest: fill_execs_amounts)

lemma walk_execs_sum:
  "match_walk ps q lv = (lv', q') \<Longrightarrow>
    sum_list (map (unat \<circ> traded) (walk_execs ps q lv)) + unat q' = unat q"
proof (induction ps q lv rule: walk_execs.induct)
  case (2 p ps q lv)
  obtain os k where f: "fill q (lv p) = (os, k)" by fastforce
  with 2 fill_execs_sum [OF f, of p] show ?case by (simp add: fun_upd_def comp_def)
qed simp

lemma path_sorted: "sorted_wrt (if b then (<) else (>)) (path b mx limit)"
  by (simp add: path_def sorted_wrt_rev)

lemma match_walk_total:
  assumes "match_walk (path b mx pr) q lv = (lv', q')"
  shows "(\<Sum>p < mx. qty_sum (lv p)) + unat q' = (\<Sum>p < mx. qty_sum (lv' p)) + unat q"
proof -
  let ?P = "set (path b mx pr)"
  have sub: "?P \<subseteq> {..<mx}" by (auto simp: set_path)
  have split: "(\<Sum>p < mx. f p) = (\<Sum>p\<leftarrow>path b mx pr. f p) + (\<Sum>p \<in> {..<mx} - ?P. f p)" for f :: "nat \<Rightarrow> nat"
    using sum.subset_diff [OF sub, of f] by (simp add: sum_list_distinct_conv_sum_set)
  have "(\<Sum>p \<in> {..<mx} - ?P. qty_sum (lv' p)) = (\<Sum>p \<in> {..<mx} - ?P. qty_sum (lv p))"
    using match_walk_frame [OF assms] by (intro sum.cong) simp_all
  with match_walk_conserves [OF assms] show ?thesis unfolding split by simp
qed

subsection \<open>One run\<close>

text \<open>The hypotheses of a run: the other side's book is sound and the price has a level.\<close>

definition matchable :: "nat \<Rightarrow> bool \<Rightarrow> ME \<Rightarrow> LOBOrder \<Rightarrow> nat \<Rightarrow> bool" where
  "matchable n b s order pr \<longleftrightarrow>
     lob_inv n (opp b s) \<and> isBuy (opp b s) = (\<not> b) \<and> price_index (price order) = Inr pr"

lemma run_refines:
  assumes "matchable n b s order pr" and "\<not> spins b pr (opp b s) (quantity order)"
    and "match_walk (path b (max_price_possible (opp b s)) pr) (quantity order) (levels (opp b s)) = (lv', q')"
  obtains s' where "aggresiveMatch H b s order = Some (Inr (s', order\<lparr>quantity := q'\<rparr>))"
    and "matched H b order (walk_execs (path b (max_price_possible (opp b s)) pr) (quantity order)
           (levels (opp b s))) s s'"
    and "lob_inv n (opp b s')" and "levels (opp b s') = lv'"
  using aggresiveMatch_refines [OF _ _ refl _ assms(2,3), of n] assms(1) unfolding matchable_def by blast

lemma run_result:
  assumes ok: "matchable n b s order pr"
    and run: "aggresiveMatch H b s order = Some (Inr (s', ord'))"
  obtains q' where "ord' = order\<lparr>quantity := q'\<rparr>"
    and "match_walk (path b (max_price_possible (opp b s)) pr) (quantity order) (levels (opp b s)) =
      (levels (opp b s'), q')"
    and "matched H b order (walk_execs (path b (max_price_possible (opp b s)) pr) (quantity order)
           (levels (opp b s))) s s'"
proof -
  have ends: "\<not> spins b pr (opp b s) (quantity order)"
    using aggresiveMatch_spins [of n b s order pr H] ok run by (auto simp: matchable_def)
  obtain lv' q' where w:
    "match_walk (path b (max_price_possible (opp b s)) pr) (quantity order) (levels (opp b s)) = (lv', q')"
    by fastforce
  obtain sa where "aggresiveMatch H b s order = Some (Inr (sa, order\<lparr>quantity := q'\<rparr>))"
    "matched H b order (walk_execs (path b (max_price_possible (opp b s)) pr) (quantity order)
       (levels (opp b s))) s sa" "levels (opp b sa) = lv'"
    by (rule run_refines [OF ok ends w])
  with run w that [of q'] show thesis by simp
qed

text \<open>
  C3. \<open>aggresiveMatch\<close> computes the matching of the specification: when it can end, it returns the
  incoming order with the quantity the walk over the levels leaves, the levels of the other book
  are those of the walk, the own book is untouched and the invariant holds; one log element per
  execution is offered to the logger and the acknowledgements of the trades of trader 1 to the
  gateway, in the order of the executions.
\<close>
theorem matching_refines_walk:
  assumes "matchable n b s order pr" and "\<not> spins b pr (opp b s) (quantity order)"
    and "match_walk (path b (max_price_possible (opp b s)) pr) (quantity order) (levels (opp b s)) = (lv', q')"
  shows "\<exists>s' es. aggresiveMatch H b s order = Some (Inr (s', order\<lparr>quantity := q'\<rparr>)) \<and>
    levels (opp b s') = lv' \<and> own b s' = own b s \<and> lob_inv n (opp b s') \<and>
    es = walk_execs (path b (max_price_possible (opp b s)) pr) (quantity order) (levels (opp b s)) \<and>
    sends (matchLog s) (matchLog s') (exec_log H (clk s) order es) \<and>
    sends (LobAck s) (LobAck s') (exec_acks order es)"
proof -
  let ?es = "walk_execs (path b (max_price_possible (opp b s)) pr) (quantity order) (levels (opp b s))"
  obtain s' where r: "aggresiveMatch H b s order = Some (Inr (s', order\<lparr>quantity := q'\<rparr>))"
    "matched H b order ?es s s'" "lob_inv n (opp b s')" "levels (opp b s') = lv'"
    by (rule run_refines [OF assms])
  have "own b s' = own b s" "sends (matchLog s) (matchLog s') (exec_log H (clk s) order ?es)"
    "sends (LobAck s) (LobAck s') (exec_acks order ?es)"
    using r(2) by (simp_all only: matched_def)
  with r(1,3,4) show ?thesis by (intro exI [of _ s'] exI [of _ ?es] conjI refl)
qed

text \<open>
  C5. Let the other book be sound (\<open>lob_inv\<close>, which excludes live orders of quantity 0) and the price of the
  incoming order be that of a level.  Then \<open>aggresiveMatch\<close> does not return exactly when all of these
  hold: the order sells, its price is the level 0, the list of level 0 of the buy book is not
  empty (it has held an order at some time, live or not), and the walk over the live buy orders
  leaves a part of the order.  (The best-price pointer of an empty buy book is 0, which is taken
  for a level to trade with.)  With live orders of quantity 0 there is another way not to return.
\<close>
theorem matching_terminates_iff:
  assumes "matchable n b s order pr"
  shows "aggresiveMatch H b s order = None \<longleftrightarrow>
    \<not> b \<and> pr = 0 \<and> book (opp b s) ! 0 \<noteq> [] \<and>
    snd (match_walk (path b (max_price_possible (opp b s)) pr) (quantity order) (levels (opp b s))) \<noteq> 0"
proof -
  have "aggresiveMatch H b s order \<noteq> None" if ends: "\<not> spins b pr (opp b s) (quantity order)"
  proof -
    obtain lv' q' where w:
      "match_walk (path b (max_price_possible (opp b s)) pr) (quantity order) (levels (opp b s)) = (lv', q')"
      by fastforce
    obtain s' where "aggresiveMatch H b s order = Some (Inr (s', order\<lparr>quantity := q'\<rparr>))"
      by (rule run_refines [OF assms ends w])
    then show ?thesis by simp
  qed
  moreover have "aggresiveMatch H b s order = None" if "spins b pr (opp b s) (quantity order)"
    by (rule aggresiveMatch_spins [OF _ _ _ that, of n]) (use assms in \<open>simp_all add: matchable_def\<close>)
  ultimately show ?thesis unfolding spins_def by blast
qed

text \<open>
  C12. No quantity appears or vanishes in matching: what the incoming order loses is what the live
  orders of the other book lose, and it is the sum of the executed quantities; nothing of the
  order but its quantity changes.
\<close>
theorem matching_conserves_quantity:
  assumes "matchable n b s order pr" and "aggresiveMatch H b s order = Some (Inr (s', ord'))"
  shows "(\<Sum>p < max_price_possible (opp b s). qty_sum (levels (opp b s) p)) + unat (quantity ord') =
      (\<Sum>p < max_price_possible (opp b s). qty_sum (levels (opp b s') p)) + unat (quantity order) \<and>
    ord' = order\<lparr>quantity := quantity ord'\<rparr> \<and>
    (\<exists>es. matched H b order es s s' \<and>
      sum_list (map (unat \<circ> traded) es) + unat (quantity ord') = unat (quantity order))"
proof -
  obtain q' where r: "ord' = order\<lparr>quantity := q'\<rparr>"
    "match_walk (path b (max_price_possible (opp b s)) pr) (quantity order) (levels (opp b s)) =
      (levels (opp b s'), q')"
    "matched H b order (walk_execs (path b (max_price_possible (opp b s)) pr) (quantity order)
       (levels (opp b s))) s s'"
    by (rule run_result [OF assms])
  with match_walk_total [OF r(2)] walk_execs_sum [OF r(2)] show ?thesis by auto
qed

text \<open>
  C7. Price and time priority: the executions go from the best level of the other book to worse
  ones and never past the limit of the order; at each level the orders traded with are the oldest
  ones, in the order they came; an order is left partly filled only when the incoming order is
  used up; and when it is not, no level within its limit has an order left.
\<close>
theorem matching_price_time_priority:
  assumes "matchable n b s order pr" and "aggresiveMatch H b s order = Some (Inr (s', ord'))"
  shows "\<exists>es. matched H b order es s s' \<and>
    sorted_wrt (\<lambda>e f. if b then at_level e \<le> at_level f else at_level f \<le> at_level e) es \<and>
    (\<forall>e \<in> set es. (if b then at_level e \<le> pr else pr \<le> at_level e) \<and>
       maker_left e = quantity (maker e) - traded e \<and> (maker_left e = 0 \<or> taker_left e = 0)) \<and>
    (\<forall>p. \<exists>k. map maker (filter (\<lambda>e. at_level e = p) es) = take k (levels (opp b s) p)) \<and>
    (quantity ord' \<noteq> 0 \<longrightarrow>
       (\<forall>p < max_price_possible (opp b s). (if b then p \<le> pr else pr \<le> p) \<longrightarrow> levels (opp b s') p = []))"
proof -
  let ?mx = "max_price_possible (opp b s)"
  let ?es = "walk_execs (path b ?mx pr) (quantity order) (levels (opp b s))"
  obtain q' where r: "ord' = order\<lparr>quantity := q'\<rparr>"
    "match_walk (path b ?mx pr) (quantity order) (levels (opp b s)) = (levels (opp b s'), q')"
    "matched H b order ?es s s'"
    by (rule run_result [OF assms])
  have "sorted_wrt (\<lambda>e f. if b then at_level e \<le> at_level f else at_level f \<le> at_level e) ?es"
    by (rule walk_execs_sorted [OF path_sorted [where b = b]]) (auto split: if_splits)
  moreover have "(if b then at_level e \<le> pr else pr \<le> at_level e) \<and>
      maker_left e = quantity (maker e) - traded e \<and> (maker_left e = 0 \<or> taker_left e = 0)"
    if "e \<in> set ?es" for e
    using walk_execs_levels [OF that] walk_execs_amounts [OF that] by (auto simp: set_path)
  moreover have "\<exists>k. map maker (filter (\<lambda>e. at_level e = p) ?es) = take k (levels (opp b s) p)" for p
    by (rule walk_execs_makers) simp
  moreover have "levels (opp b s') p = []"
    if "quantity ord' \<noteq> 0" "p < ?mx" "if b then p \<le> pr else pr \<le> p" for p
    by (rule match_walk_rest [OF r(2)]) (use that r(1) in \<open>auto simp: set_path\<close>)
  ultimately show ?thesis using r(3) by blast
qed

subsection \<open>A run\<close>

text \<open>A buy order for 3 lots at 1.0 meets a resting sell order of 5 lots.\<close>

definition demo_hw :: hw where
  "demo_hw = \<lparr>tsc = word_of_nat, ack_env = (\<lambda>_. 0), bcast_env = (\<lambda>_. 0), log_env = (\<lambda>_. 0)\<rparr>"

lemma demo_run:
  obtains b s s' where "createOrder (LOB_new False 30) (demo_order 7 (CHR ''s'') (CHR ''c'') one 5) = Inr b"
    and "s = (ME_new 30 8)\<lparr>SellOrderBook := b\<rparr>"
    and "matchable 1 True s (demo_order 8 (CHR ''b'') (CHR ''c'') one 3) 10"
    and "\<not> spins True 10 (opp True s) 3" and "opp True s = b" and "max_price_possible b = 30"
    and "\<forall>p. levels b p = (if p = 10 then [demo_order 7 (CHR ''s'') (CHR ''c'') one 5] else [])"
    and "snd (match_walk (path True 30 10) 3 (levels b)) = 0"
    and "aggresiveMatch demo_hw True s (demo_order 8 (CHR ''b'') (CHR ''c'') one 3) =
      Some (Inr (s', demo_order 8 (CHR ''b'') (CHR ''c'') one 0))"
proof -
  let ?x = "demo_order 7 (CHR ''s'') (CHR ''c'') one 5" and ?o = "demo_order 8 (CHR ''b'') (CHR ''c'') one 3"
  obtain b where b: "createOrder (LOB_new False 30) ?x = Inr b" "lob_inv 1 b" "levels b 10 = [?x]"
    "\<forall>q. q \<noteq> 10 \<longrightarrow> levels b q = []" "max_price_possible b = 30" "isBuy b = False"
    by (rule demo_book)
  let ?s = "(ME_new 30 8)\<lparr>SellOrderBook := b\<rparr>"
  have opp: "opp True ?s = b" by (simp add: opp_def)
  have lv: "\<forall>p. levels b p = (if p = 10 then [?x] else [])" using b(3,4) by simp
  have ok: "matchable 1 True ?s ?o 10" using b(2,6) by (simp add: matchable_def opp)
  have ends: "\<not> spins True 10 (opp True ?s) 3" by (simp add: spins_def)
  have path: "path True 30 10 = [0..<10] @ [10]" by (simp add: path_def upt_rec)
  have "match_walk [0..<10] 3 (levels b) = (levels b, 3)"
    by (rule match_walk_empty) (simp add: lv)
  then have w: "match_walk (path True 30 10) 3 (levels b) =
      ((levels b)(10 := [demo_order 7 (CHR ''s'') (CHR ''c'') one 2]), 0)"
    unfolding path match_walk_append by (simp add: lv)
  have "match_walk (path True (max_price_possible (opp True ?s)) 10) (quantity ?o) (levels (opp True ?s)) =
      ((levels b)(10 := [demo_order 7 (CHR ''s'') (CHR ''c'') one 2]), 0)"
    using w by (simp add: opp b(5))
  moreover have "\<not> spins True 10 (opp True ?s) (quantity ?o)" using ends by simp
  ultimately obtain s' where
    "aggresiveMatch demo_hw True ?s ?o = Some (Inr (s', ?o\<lparr>quantity := 0\<rparr>))"
    using run_refines [OF ok] by metis
  then show thesis using that [OF b(1) refl ok ends opp b(5) lv] w by simp
qed

theorem matching_refines_walk_witness:
  "\<exists>b s s'. createOrder (LOB_new False 30) (demo_order 7 (CHR ''s'') (CHR ''c'') one 5) = Inr b \<and>
    s = (ME_new 30 8)\<lparr>SellOrderBook := b\<rparr> \<and>
    aggresiveMatch demo_hw True s (demo_order 8 (CHR ''b'') (CHR ''c'') one 3) =
      Some (Inr (s', demo_order 8 (CHR ''b'') (CHR ''c'') one 0)) \<and> own True s' = own True s"
proof -
  let ?o = "demo_order 8 (CHR ''b'') (CHR ''c'') one 3"
  obtain b s where d: "createOrder (LOB_new False 30) (demo_order 7 (CHR ''s'') (CHR ''c'') one 5) = Inr b"
    "s = (ME_new 30 8)\<lparr>SellOrderBook := b\<rparr>" "matchable 1 True s ?o 10" "\<not> spins True 10 (opp True s) 3"
    "opp True s = b" "max_price_possible b = 30" "snd (match_walk (path True 30 10) 3 (levels b)) = 0"
    by (rule demo_run)
  obtain lv where w: "match_walk (path True 30 10) 3 (levels b) = (lv, 0)"
    using d(7) by (metis surjective_pairing)
  have "\<exists>s' es. aggresiveMatch demo_hw True s ?o = Some (Inr (s', ?o\<lparr>quantity := 0\<rparr>)) \<and>
      levels (opp True s') = lv \<and> own True s' = own True s \<and> lob_inv 1 (opp True s') \<and>
      es = walk_execs (path True (max_price_possible (opp True s)) 10) (quantity ?o) (levels (opp True s)) \<and>
      sends (matchLog s) (matchLog s') (exec_log demo_hw (clk s) ?o es) \<and>
      sends (LobAck s) (LobAck s') (exec_acks ?o es)"
    by (rule matching_refines_walk [OF d(3)]) (use d(4) w in \<open>simp_all add: d(5,6)\<close>)
  with d(1,2) show ?thesis by auto
qed

theorem matching_terminates_iff_witness:
  "\<exists>s. SellOrderBook s \<noteq> LOB_new False 30 \<and>
    aggresiveMatch demo_hw True s (demo_order 8 (CHR ''b'') (CHR ''c'') one 3) \<noteq> None"
proof -
  obtain b s where d: "s = (ME_new 30 8)\<lparr>SellOrderBook := b\<rparr>"
    "matchable 1 True s (demo_order 8 (CHR ''b'') (CHR ''c'') one 3) 10"
    "\<forall>p. levels b p = (if p = 10 then [demo_order 7 (CHR ''s'') (CHR ''c'') one 5] else [])"
    by (rule demo_run)
  have "levels (LOB_new False 30) 10 = []" by (rule LOB_new_inv(2) [where n = 0]) simp_all
  with d(3) [rule_format, of 10] have "b \<noteq> LOB_new False 30" by auto
  with d(1) matching_terminates_iff [OF d(2), of demo_hw] show ?thesis by (intro exI [of _ s]) simp
qed

theorem matching_conserves_quantity_witness:
  "\<exists>s s'. aggresiveMatch demo_hw True s (demo_order 8 (CHR ''b'') (CHR ''c'') one 3) =
      Some (Inr (s', demo_order 8 (CHR ''b'') (CHR ''c'') one 0)) \<and>
    (\<Sum>p < 30. qty_sum (levels (opp True s) p)) = 5 \<and> (\<Sum>p < 30. qty_sum (levels (opp True s') p)) = 2"
proof -
  obtain b s s' where d: "matchable 1 True s (demo_order 8 (CHR ''b'') (CHR ''c'') one 3) 10"
    "opp True s = b" "max_price_possible b = 30"
    "\<forall>p. levels b p = (if p = 10 then [demo_order 7 (CHR ''s'') (CHR ''c'') one 5] else [])"
    "aggresiveMatch demo_hw True s (demo_order 8 (CHR ''b'') (CHR ''c'') one 3) =
      Some (Inr (s', demo_order 8 (CHR ''b'') (CHR ''c'') one 0))"
    by (rule demo_run)
  have "qty_sum (levels b p) = (if p = 10 then 5 else 0)" for p by (simp add: d(4))
  then have "(\<Sum>p < 30. qty_sum (levels b p)) = 5" by simp
  with matching_conserves_quantity [OF d(1,5)] d(2,3,5) show ?thesis
    by (intro exI [of _ s] exI [of _ s']) simp
qed

theorem matching_price_time_priority_witness:
  "\<exists>s s' es. aggresiveMatch demo_hw True s (demo_order 8 (CHR ''b'') (CHR ''c'') one 3) =
      Some (Inr (s', demo_order 8 (CHR ''b'') (CHR ''c'') one 0)) \<and>
    matched demo_hw True (demo_order 8 (CHR ''b'') (CHR ''c'') one 3) es s s' \<and> (\<forall>e \<in> set es. at_level e \<le> 10)"
proof -
  obtain b s s' where d: "matchable 1 True s (demo_order 8 (CHR ''b'') (CHR ''c'') one 3) 10"
    "aggresiveMatch demo_hw True s (demo_order 8 (CHR ''b'') (CHR ''c'') one 3) =
      Some (Inr (s', demo_order 8 (CHR ''b'') (CHR ''c'') one 0))"
    by (rule demo_run)
  from matching_price_time_priority [OF d] d(2) show ?thesis
    by (intro exI [of _ s] exI [of _ s']) auto
qed

end
