(* ===== verification/EngineProps.thy ===== *)
theory EngineProps
  imports Market MatchProps
begin

text \<open>
  What the engine promises (\<open>matching/matching.cpp\<close>): a queue of requests leaves the market the
  requests make, the books never cross, and the effect of each kind of request on the books, the
  log, the acknowledgements and the broadcasts; and where it stops: an unknown id, a broadcast
  queue nobody reads, a quantity changed to 0.
\<close>

subsection \<open>A queue of requests\<close>

definition empty_market :: market where
  "empty_market = \<lparr>bids = (\<lambda>_. []), asks = (\<lambda>_. [])\<rparr>"

definition new_engine :: "nat \<Rightarrow> nat \<Rightarrow> LOBOrder LFQueue \<Rightarrow> ME" where
  "new_engine mx qs q = (ME_new mx qs)\<lparr>LobOrderQueue := q\<rparr>"

text \<open>
  A run from the start: the requests are in the queue, each meets the engine's conditions when it
  is its turn, and the broadcast queue has room for two messages per request or is being read.
\<close>

definition run_ok :: "hw \<Rightarrow> nat \<Rightarrow> nat \<Rightarrow> LOBOrder LFQueue \<Rightarrow> bool" where
  "run_ok H mx qs q \<longleftrightarrow>
     0 < mx \<and> mx < 2 ^ 31 \<and> length (contents q) < 2 ^ 31 \<and> lfq_inv q \<and>
     requests_ok mx (contents q) empty_market \<and>
     (2 * length (contents q) < qs \<or> 1 < qs \<and> bcast_fair H)"

lemma new_engine_start:
  assumes "0 < mx" and "mx < 2 ^ 31" and "0 < qs" and "2 * k < qs \<or> 1 < qs \<and> bcast_fair H"
  shows "me_inv 0 mx (new_engine mx qs q)" and "market_of (new_engine mx qs q) = empty_market"
    and "bcast_ready H (2 * k) (new_engine mx qs q)" and "LobOrderQueue (new_engine mx qs q) = q"
    and "tickToTrade (new_engine mx qs q) = []" and "matchLog (new_engine mx qs q) = port_new qs LogElement_init"
proof -
  note N = ME_new_inv [OF assms(1-3)]
  have books: "own b (new_engine mx qs q) = own b (ME_new mx qs)" "opp b (new_engine mx qs q) = opp b (ME_new mx qs)" for b
    by (simp_all add: new_engine_def own_def opp_def)
  show "me_inv 0 mx (new_engine mx qs q)" by (rule me_inv_books [OF N(1) books])
  show "market_of (new_engine mx qs q) = empty_market"
    using N(2) by (simp add: new_engine_def market_of_def empty_market_def)
  show "bcast_ready H (2 * k) (new_engine mx qs q)"
    using N(3-5) assms(4) by (auto simp: bcast_ready_def new_engine_def)
qed (simp_all add: new_engine_def ME_new_def)

lemma new_engine_run:
  assumes "run_ok H mx qs q"
  obtains s' where "engine_turns H (length (contents q)) (new_engine mx qs q) = Some (Inr s')"
    and "me_inv (length (contents q)) mx s'"
    and "market_of s' = fold (m_request mx) (contents q) empty_market" and "contents (LobOrderQueue s') = []"
    and "length (tickToTrade s') = length (contents q)" and "log_grows UNIV (new_engine mx qs q) s'"
proof -
  have r: "0 < mx" "mx < 2 ^ 31" "length (contents q) < 2 ^ 31" "lfq_inv q"
    "requests_ok mx (contents q) empty_market" "2 * length (contents q) < qs \<or> 1 < qs \<and> bcast_fair H"
    using assms unfolding run_ok_def by blast+
  have qs: "0 < qs" using r(6) by auto
  note N = new_engine_start [OF r(1,2) qs r(6), of q]
  have "\<exists>s'. engine_turns H (length (contents q)) (new_engine mx qs q) = Some (Inr s') \<and>
      me_inv (0 + length (contents q)) mx s' \<and>
      market_of s' = fold (m_request mx) (contents q) (market_of (new_engine mx qs q)) \<and>
      contents (LobOrderQueue s') = [] \<and>
      length (tickToTrade s') = length (tickToTrade (new_engine mx qs q)) + length (contents q) \<and>
      log_grows UNIV (new_engine mx qs q) s'"
    by (rule engine_run [OF N(1) _ N(3)]) (use r N in simp_all)
  with that N(2,5) show thesis by auto
qed

text \<open>
  C1. The engine implements the market: started on empty books with any queue of requests that
  meet its conditions, it handles all of them without a fault and without hanging, in order; its
  books are then the market that the requests make one after the other, its queue is empty and it
  has taken one latency sample per request.
\<close>
theorem engine_refines_market:
  assumes "run_ok H mx qs q"
  shows "\<exists>s'. engine_turns H (length (contents q)) (new_engine mx qs q) = Some (Inr s') \<and>
    market_of s' = fold (m_request mx) (contents q) empty_market \<and> contents (LobOrderQueue s') = [] \<and>
    me_inv (length (contents q)) mx s' \<and> length (tickToTrade s') = length (contents q)"
proof -
  obtain s' where "engine_turns H (length (contents q)) (new_engine mx qs q) = Some (Inr s')"
    "me_inv (length (contents q)) mx s'" "market_of s' = fold (m_request mx) (contents q) empty_market"
    "contents (LobOrderQueue s') = []" "length (tickToTrade s') = length (contents q)"
    by (rule new_engine_run [OF assms])
  then show ?thesis by blast
qed

text \<open>
  C9. The book never stays crossed: after any such run every live bid is below every live ask, and
  the two best-price pointers are on the highest bid and the lowest ask.
\<close>
theorem engine_never_crossed:
  assumes "run_ok H mx qs q"
  shows "\<exists>s'. engine_turns H (length (contents q)) (new_engine mx qs q) = Some (Inr s') \<and>
    (\<forall>p r. levels (BuyOrderBook s') p \<noteq> [] \<longrightarrow> levels (SellOrderBook s') r \<noteq> [] \<longrightarrow>
       p < r \<and> p \<le> get_optimal_price (BuyOrderBook s') \<and>
       get_optimal_price (BuyOrderBook s') < get_optimal_price (SellOrderBook s') \<and>
       get_optimal_price (SellOrderBook s') \<le> r)"
proof -
  obtain s' where s': "engine_turns H (length (contents q)) (new_engine mx qs q) = Some (Inr s')"
    "me_inv (length (contents q)) mx s'"
    by (rule new_engine_run [OF assms])
  have B: "lob_inv (length (contents q)) (BuyOrderBook s')" "isBuy (BuyOrderBook s')"
    and S: "lob_inv (length (contents q)) (SellOrderBook s')" "\<not> isBuy (SellOrderBook s')"
    using me_invD(1,2) [OF s'(2), of True] me_invD(1,2) [OF s'(2), of False] by (simp_all add: own_def)
  have un: "uncrossed s'" by (rule me_invD(7) [OF s'(2)])
  have "p < r \<and> p \<le> get_optimal_price (BuyOrderBook s') \<and>
       get_optimal_price (BuyOrderBook s') < get_optimal_price (SellOrderBook s') \<and>
       get_optimal_price (SellOrderBook s') \<le> r"
    if l: "levels (BuyOrderBook s') p \<noteq> []" "levels (SellOrderBook s') r \<noteq> []" for p r
  proof -
    have "levels (BuyOrderBook s') (get_optimal_price (BuyOrderBook s')) \<noteq> []" "p \<le> get_optimal_price (BuyOrderBook s')"
      using best_level [OF B(1) l(1)] B(2) by (simp_all add: better_def)
    moreover have "levels (SellOrderBook s') (get_optimal_price (SellOrderBook s')) \<noteq> []"
      "get_optimal_price (SellOrderBook s') \<le> r"
      using best_level [OF S(1) l(2)] S(2) by (simp_all add: better_def)
    ultimately show ?thesis using un l unfolding uncrossed_def by blast
  qed
  with s'(1) show ?thesis by blast
qed

text \<open>A sell order of 5 lots at 1.0, then a buy order of 3 lots at 2.0.\<close>

definition demo_requests :: "LOBOrder list" where
  "demo_requests = [demo_order 7 (CHR ''s'') (CHR ''c'') one 5, demo_order 8 (CHR ''b'') (CHR ''c'') two 3]"

definition demo_queue :: "LOBOrder LFQueue" where
  "demo_queue = \<lparr>store = demo_requests @ [LOBOrder_init], next_write_index = 2, next_read_index = 0\<rparr>"

lemma demo_queue_contents: "contents demo_queue = demo_requests" "lfq_inv demo_queue"
  by (simp_all add: contents_def demo_queue_def demo_requests_def lfq_size_def lfq_inv_def upt_rec)

lemma demo_first:
  "m_request 30 (demo_order 7 (CHR ''s'') (CHR ''c'') one 5) empty_market =
    empty_market\<lparr>asks := (\<lambda>_. [])(10 := [demo_order 7 (CHR ''s'') (CHR ''c'') one 5])\<rparr>"
proof -
  have "match_walk (path False 30 10) 5 (\<lambda>_. []) = (\<lambda>_. [], 5)"
    by (rule match_walk_empty) simp
  then show ?thesis
    by (simp add: m_request_def is_bid_def m_create_def empty_market_def side_def set_side_def)
qed

lemma demo_run_ok: "run_ok demo_hw 30 8 demo_queue"
proof -
  have "find_order 30 i (\<lambda>_. []) = None" for i by (simp add: find_order_None)
  then have "requests_ok 30 demo_requests empty_market"
    by (simp add: demo_requests_def demo_first)
      (simp add: request_ok_def is_bid_def empty_market_def side_def price_ok_def LUT_SIZE_def)
  then show ?thesis by (simp add: run_ok_def demo_queue_contents demo_requests_def)
qed

lemma demo_length: "length (contents demo_queue) = 2" "length demo_requests = 2"
  by (simp_all add: demo_queue_contents demo_requests_def del: length_contents)

theorem engine_refines_market_witness:
  "\<exists>s'. engine_turns demo_hw 2 (new_engine 30 8 demo_queue) = Some (Inr s') \<and>
    market_of s' = fold (m_request 30) demo_requests empty_market"
  using engine_refines_market [OF demo_run_ok] unfolding demo_queue_contents demo_length by blast

theorem engine_never_crossed_witness:
  "\<exists>s'. engine_turns demo_hw 2 (new_engine 30 8 demo_queue) = Some (Inr s') \<and>
    (levels (BuyOrderBook s') 20 \<noteq> [] \<longrightarrow> levels (SellOrderBook s') 10 = [])"
proof -
  obtain s' where s': "engine_turns demo_hw 2 (new_engine 30 8 demo_queue) = Some (Inr s')"
    "\<forall>p r. levels (BuyOrderBook s') p \<noteq> [] \<longrightarrow> levels (SellOrderBook s') r \<noteq> [] \<longrightarrow> p < r"
    using engine_never_crossed [OF demo_run_ok] unfolding demo_length by blast
  have "\<not> 20 < (10::nat)" by simp
  with s' show ?thesis by blast
qed

subsection \<open>One request\<close>

text \<open>An engine that holds the sell order of 5 lots at 1.0, for the examples.\<close>

lemma demo_engine:
  obtains b where "createOrder (LOB_new False 30) (demo_order 7 (CHR ''s'') (CHR ''c'') one 5) = Inr b"
    and "me_inv 1 30 ((ME_new 30 8)\<lparr>SellOrderBook := b\<rparr>)"
    and "bcast_ready demo_hw 7 ((ME_new 30 8)\<lparr>SellOrderBook := b\<rparr>)"
    and "resting b 10 0" and "sid_at b 10 0 = 7" and "levels b 10 = [demo_order 7 (CHR ''s'') (CHR ''c'') one 5]"
    and "book b ! 10 ! 0 = demo_order 7 (CHR ''s'') (CHR ''c'') one 5" and "best_price b = 10"
    and "\<forall>q. q \<noteq> 10 \<longrightarrow> levels b q = []" and "LUT b 9 = (NPOS, NPOS)" and "max_price_possible b = 30"
    and "lob_inv 1 b" and "isBuy b = False"
proof -
  obtain b where b: "createOrder (LOB_new False 30) (demo_order 7 (CHR ''s'') (CHR ''c'') one 5) = Inr b"
    "lob_inv 1 b" "resting b 10 0" "sid_at b 10 0 = 7" "book b ! 10 ! 0 = demo_order 7 (CHR ''s'') (CHR ''c'') one 5"
    "levels b 10 = [demo_order 7 (CHR ''s'') (CHR ''c'') one 5]" "\<forall>q. q \<noteq> 10 \<longrightarrow> levels b q = []"
    "best_price b = 10" "max_price_possible b = 30" "isBuy b = False"
    by (rule demo_book)
  let ?s = "(ME_new 30 8)\<lparr>SellOrderBook := b\<rparr>"
  have buy: "own True ?s = LOB_new True 30" and sell: "own False ?s = b"
    by (simp_all add: own_def ME_new_def)
  have new: "lob_inv 1 (LOB_new True 30)" "\<And>p. levels (LOB_new True 30) p = []"
    by (rule LOB_new_inv(1), simp_all) (rule LOB_new_inv(2) [where n = 0], simp_all)
  have "uncrossed ?s" by (simp add: uncrossed_def ME_new_def new(2))
  moreover have "lob_inv 1 (own c ?s) \<and> isBuy (own c ?s) = c \<and> max_price_possible (own c ?s) = 30" for c
    using b(2,9,10) new(1) by (cases c) (simp_all add: buy sell, simp_all add: LOB_new_def)
  ultimately have inv: "me_inv 1 30 ?s" by (simp add: me_inv_def)
  have "bcast_ready demo_hw 7 ?s"
    using ME_new_inv(3-5) [of 30 8] by (simp add: bcast_ready_def)
  moreover have "LUT b 9 = (NPOS, NPOS)"
    using b(1) by (auto simp: createOrder_def LOB_new_def Let_def split: if_splits)
  ultimately show thesis using that [OF b(1) inv] b by blast
qed

text \<open>
  C10. A new order: when its id is free and its price is a level, \<open>create_order\<close> trades what it can,
  puts what is left at the end of its level in its own book, keeps the invariant of the engine,
  and offers exactly these messages, in this order: one log element and the acknowledgements per
  execution, then for a rest one log element, one acknowledgement of type N for trader 1 and one
  broadcast of type N; the order it gives back has the quantity that is left.
\<close>
theorem create_order_effect:
  assumes inv: "me_inv n mx s" and n: "Suc n < 2 ^ 31" and ready: "bcast_ready H (Suc k) s"
    and ok: "price_ok mx b order" and id: "unat (system_id order) < LUT_SIZE"
    and new: "LUT (own b s) (unat (system_id order)) = (NPOS, NPOS)"
  shows "\<exists>t s' pr lv' q' es. create_order H order b s = Some (Inr (t, order\<lparr>quantity := q'\<rparr>, s')) \<and>
    me_inv (Suc n) mx s' \<and> price_index (price order) = Inr pr \<and>
    match_walk (path b mx pr) (quantity order) (levels (opp b s)) = (lv', q') \<and>
    es = walk_execs (path b mx pr) (quantity order) (levels (opp b s)) \<and> levels (opp b s') = lv' \<and>
    levels (own b s') = (if q' = 0 then levels (own b s)
      else (levels (own b s))(pr := levels (own b s) pr @ [order\<lparr>quantity := q'\<rparr>])) \<and>
    outputs s s'
      (exec_log H (clk s) order es @ (if q' = 0 then [] else
        [\<lparr>log_id = LOB_CREATE_ORDER, timestamp = tsc H (clk s + length es),
          log_data = VLOBOrder (order\<lparr>quantity := q'\<rparr>)\<rparr>]))
      (exec_acks order es @ (if q' = 0 then [] else own_acks (order\<lparr>quantity := q'\<rparr>) pr (CHR ''N'')))
      (if q' = 0 then [] else [bcast_of (order\<lparr>quantity := q'\<rparr>) (CHR ''N'') b])"
proof -
  note I = me_invD [OF inv]
  obtain pr where pr: "price_index (price order) = Inr pr" "pr < mx" "b \<or> 0 < pr"
    by (rule price_ok_index [OF ok])
  have ends: "\<not> spins b pr (opp b s) (quantity order)" using pr(3) by (auto simp: spins_def)
  obtain lv' q' where w: "match_walk (path b mx pr) (quantity order) (levels (opp b s)) = (lv', q')"
    by fastforce
  obtain t s' where s': "create_order H order b s = Some (Inr (t, order\<lparr>quantity := q'\<rparr>, s'))"
    "me_inv (Suc n) mx s'" "created H order pr b s q' lv' s'"
    by (rule create_order_correct [OF inv n pr(1,2) id new ends w ready])
  note C = s'(3) [unfolded created_def Let_def I(6)]
  show ?thesis
    by (intro exI conjI, rule s'(1), rule s'(2), rule pr(1), rule w, rule refl) (use C in blast)+
qed

theorem create_order_effect_witness:
  "\<exists>b t s' q'. createOrder (LOB_new False 30) (demo_order 7 (CHR ''s'') (CHR ''c'') one 5) = Inr b \<and>
    create_order demo_hw (demo_order 9 (CHR ''b'') (CHR ''c'') two 3) True ((ME_new 30 8)\<lparr>SellOrderBook := b\<rparr>) =
      Some (Inr (t, demo_order 9 (CHR ''b'') (CHR ''c'') two q', s')) \<and> me_inv 2 30 s'"
proof -
  let ?o = "demo_order 9 (CHR ''b'') (CHR ''c'') two 3"
  obtain b where b: "createOrder (LOB_new False 30) (demo_order 7 (CHR ''s'') (CHR ''c'') one 5) = Inr b"
    "me_inv 1 30 ((ME_new 30 8)\<lparr>SellOrderBook := b\<rparr>)" "bcast_ready demo_hw 7 ((ME_new 30 8)\<lparr>SellOrderBook := b\<rparr>)"
    by (rule demo_engine)
  have ready: "bcast_ready demo_hw (Suc 6) ((ME_new 30 8)\<lparr>SellOrderBook := b\<rparr>)" using b(3) by simp
  have "price_ok 30 True ?o" by (simp add: price_ok_def)
  moreover have "unat (system_id ?o) < LUT_SIZE" by (simp add: LUT_SIZE_def)
  moreover have "LUT (own True ((ME_new 30 8)\<lparr>SellOrderBook := b\<rparr>)) (unat (system_id ?o)) = (NPOS, NPOS)"
    by (simp add: own_def ME_new_def LOB_new_def)
  ultimately have "\<exists>t s' q'. create_order demo_hw ?o True ((ME_new 30 8)\<lparr>SellOrderBook := b\<rparr>) =
      Some (Inr (t, ?o\<lparr>quantity := q'\<rparr>, s')) \<and> me_inv (Suc 1) 30 s'"
    using create_order_effect [OF b(2) _ ready, of True ?o] by auto
  with b(1) show ?thesis by (auto simp: numeral_2_eq_2)
qed

text \<open>
  C27. A cancellation: the order with the id leaves its level and everything else stays, the
  invariant holds, and one log element, one acknowledgement of type D for trader 1 and one broadcast
  of type D go out; the same cancellation a second time is a fault.
\<close>
theorem cancel_effect:
  assumes inv: "me_inv n mx s" and ready: "bcast_ready H (Suc k) s" and id: "unat (system_id order) < LUT_SIZE"
    and known: "LUT (own b s) (unat (system_id order)) \<noteq> (NPOS, NPOS)" and px: "price_index (price order) = Inr pr"
  shows "\<exists>t s'. deleteOrder_ME H (Local order) b s = Some (Inr (t, s')) \<and> me_inv n mx s' \<and>
    opp b s' = opp b s \<and> levels (own b s') = (\<lambda>q. remove_id (unat (system_id order)) (levels (own b s) q)) \<and>
    outputs s s' [\<lparr>log_id = LOB_DELETE_ORDER, timestamp = tsc H (clk s), log_data = VLOBOrder order\<rparr>]
      (own_acks order pr (CHR ''D'')) [bcast_of order (CHR ''D'') b] \<and>
    deleteOrder_ME H (Local order) b s' = Some (Inl OutOfBounds)"
proof -
  let ?i = "unat (system_id order)"
  obtain p c where c: "resting (own b s) p c" "sid_at (own b s) p c = ?i"
    by (rule core_lut [OF lob_invD(1) [OF me_invD(1) [OF inv]] id known])
  obtain t s' where s': "deleteOrder_ME H (Local order) b s = Some (Inr (t, s'))" "me_inv n mx s'"
    "deleted H (deleted_order b s (Local order)) pr (sid_at (own b s) p c) b s s'"
    by (rule deleteOrder_ME_correct [OF inv c(1) _ _ _ ready, of "Local order" pr])
      (simp_all add: deref_def c(2) px)
  note D = s'(3) [unfolded deleted_def c(2) deleted_order_def order_ref.case]
  have "LUT (own b s') ?i = (NPOS, NPOS)" using D by simp
  then have "deleteOrder_ME H (Local order) b s' = Some (Inl OutOfBounds)"
    by (rule deleteOrder_ME_unknown [OF s'(2) id])
  with s' D show ?thesis by blast
qed

theorem cancel_effect_witness:
  "\<exists>b t s'. createOrder (LOB_new False 30) (demo_order 7 (CHR ''s'') (CHR ''c'') one 5) = Inr b \<and>
    deleteOrder_ME demo_hw (Local (demo_order 7 (CHR ''s'') (CHR ''d'') one 0)) False
      ((ME_new 30 8)\<lparr>SellOrderBook := b\<rparr>) = Some (Inr (t, s')) \<and> levels (SellOrderBook s') 10 = []"
proof -
  let ?o = "demo_order 7 (CHR ''s'') (CHR ''d'') one 0"
  obtain b where b: "createOrder (LOB_new False 30) (demo_order 7 (CHR ''s'') (CHR ''c'') one 5) = Inr b"
    "me_inv 1 30 ((ME_new 30 8)\<lparr>SellOrderBook := b\<rparr>)" "bcast_ready demo_hw 7 ((ME_new 30 8)\<lparr>SellOrderBook := b\<rparr>)"
    "resting b 10 0" "sid_at b 10 0 = 7" "levels b 10 = [demo_order 7 (CHR ''s'') (CHR ''c'') one 5]" "lob_inv 1 b"
    by (rule demo_engine)
  have ready: "bcast_ready demo_hw (Suc 6) ((ME_new 30 8)\<lparr>SellOrderBook := b\<rparr>)" using b(3) by simp
  have own: "own False ((ME_new 30 8)\<lparr>SellOrderBook := b\<rparr>) = b" by (simp add: own_def)
  have "LUT b 7 = (10, 0)" using core_resting(2) [OF lob_invD(1) [OF b(7)] b(4)] b(5) by simp
  then have "\<exists>t s'. deleteOrder_ME demo_hw (Local ?o) False ((ME_new 30 8)\<lparr>SellOrderBook := b\<rparr>) = Some (Inr (t, s')) \<and>
      levels (own False s') = (\<lambda>q. remove_id 7 (levels b q))"
    using cancel_effect [OF b(2) ready, of ?o False 10] NPOS_big by (auto simp: own LUT_SIZE_def)
  with b(1,6) show ?thesis by (auto simp: own_def remove_id_def)
qed

lemma readOrder_unknown:
  assumes inv: "me_inv n mx s" and queue: "lfq_inv (LobOrderQueue s)" "contents (LobOrderQueue s) = order # rest"
    and id: "unat (system_id order) < LUT_SIZE"
    and unknown: "LUT (own (is_bid order) s) (unat (system_id order)) = (NPOS, NPOS)"
  shows "req_type order = CHR ''d'' \<Longrightarrow> readOrder H s = Some (Inl OutOfBounds)"
    and "req_type order = CHR ''u'' \<Longrightarrow> \<exists>s'. readOrder H s = Some (Inr s') \<and> market_of s' = market_of s \<and>
       BroadCastQ s' = BroadCastQ s \<and> LobAck s' = LobAck s \<and> contents (LobOrderQueue s') = rest"
proof -
  have "getNextToRead (LobOrderQueue s) \<noteq> None"
    using empty_iff_contents [OF queue(1)] queue(2) by simp
  then obtain i where i: "getNextToRead (LobOrderQueue s) = Some i" by blast
  obtain q where q: "updateReadIndex (write_slot i order (LobOrderQueue s)) = Inr q"
    "contents (LobOrderQueue s) = read_slot i (LobOrderQueue s) # contents q"
    by (rule consume_contents [OF queue(1) i])
  have order: "order = read_slot i (LobOrderQueue s)" and rest: "contents q = rest" using q(2) queue(2) by simp_all
  let ?r = "received H order s"
  have same: "own b ?r = own b s" "opp b ?r = opp b s" for b by (simp_all add: frame_simps)
  have inv_r: "me_inv n mx ?r" by (rule me_inv_books [OF inv same])
  have lut: "LUT (own (is_bid order) ?r) (unat (system_id order)) = (NPOS, NPOS)" using unknown same by simp
  note run = readOrder_dispatch [OF i order]
  show "readOrder H s = Some (Inl OutOfBounds)" if "req_type order = CHR ''d''"
    using deleteOrder_ME_unknown [OF inv_r id lut] that
    by (simp add: run dispatch_def is_bid_def)
  show "\<exists>s'. readOrder H s = Some (Inr s') \<and> market_of s' = market_of s \<and>
      BroadCastQ s' = BroadCastQ s \<and> LobAck s' = LobAck s \<and> contents (LobOrderQueue s') = rest"
    if "req_type order = CHR ''u''"
  proof -
    have "dispatch H order ?r = Some (Inr (0, order, ?r))"
      using that lut updateOrder_unknown [of order "is_bid order" ?r H] by (simp add: dispatch_def is_bid_def)
    then have "\<exists>xs ys. readOrder H s = Some (Inr (?r\<lparr>LobOrderQueue := q, matchingProcessingTime := xs, tickToTrade := ys\<rparr>))"
      using q(1) by (simp add: run frame_simps) (intro exI, rule refl)
    then obtain xs ys where
      "readOrder H s = Some (Inr (?r\<lparr>LobOrderQueue := q, matchingProcessingTime := xs, tickToTrade := ys\<rparr>))"
      by blast
    moreover have "market_of ?r = market_of s" by (rule market_of_same [OF same])
    ultimately show ?thesis using rest by (simp add: market_of_def frame_simps)
  qed
qed

text \<open>
  Requests for an id that is not in the book: an update is dropped without a message to anyone
  but the log of its receipt, and the books stay as they are; a cancellation indexes the book with
  the table's unused entry, a fault that ends the engine.
\<close>
theorem unknown_id_requests:
  assumes inv: "me_inv n mx s" and queue: "lfq_inv (LobOrderQueue s)" "contents (LobOrderQueue s) = order # rest"
    and id: "unat (system_id order) < LUT_SIZE"
    and unknown: "LUT (own (is_bid order) s) (unat (system_id order)) = (NPOS, NPOS)"
  shows "(req_type order = CHR ''d'' \<longrightarrow> readOrder H s = Some (Inl OutOfBounds)) \<and>
    (req_type order = CHR ''u'' \<longrightarrow> (\<exists>s'. readOrder H s = Some (Inr s') \<and> market_of s' = market_of s \<and>
       BroadCastQ s' = BroadCastQ s \<and> LobAck s' = LobAck s \<and> contents (LobOrderQueue s') = rest))"
  using readOrder_unknown [OF assms] by blast

definition demo_unknown :: "char \<Rightarrow> LOBOrder LFQueue" where
  "demo_unknown req = \<lparr>store = [demo_order 9 (CHR ''s'') req one 4, LOBOrder_init],
     next_write_index = 1, next_read_index = 0\<rparr>"

theorem unknown_id_requests_witness:
  "readOrder demo_hw (new_engine 30 8 (demo_unknown (CHR ''d''))) = Some (Inl OutOfBounds)"
proof -
  let ?o = "demo_order 9 (CHR ''s'') (CHR ''d'') one 4" and ?s = "new_engine 30 8 (demo_unknown (CHR ''d''))"
  have "me_inv 0 30 ?s" by (rule new_engine_start [where H = demo_hw and k = 0]) simp_all
  moreover have "lfq_inv (LobOrderQueue ?s)" "contents (LobOrderQueue ?s) = [?o]"
    by (simp_all add: new_engine_def demo_unknown_def lfq_inv_def contents_def lfq_size_def upt_rec)
  moreover have "unat (system_id ?o) < LUT_SIZE" "LUT (own (is_bid ?o) ?s) (unat (system_id ?o)) = (NPOS, NPOS)"
    by (simp_all add: LUT_SIZE_def new_engine_def own_def ME_new_def LOB_new_def)
  ultimately show ?thesis using unknown_id_requests [of 0 30 ?s ?o "[]" demo_hw] by simp
qed

subsection \<open>The broadcast queue\<close>

text \<open>
  C29. A broadcast is delivered: when the queue has room for it, or its reader comes back again and
  again, \<open>changeInQuantity\<close> returns, and the message is the next one in the queue.
\<close>
theorem broadcast_returns:
  assumes "bcast_ready H (Suc k) s"
  shows "\<exists>s'. changeInQuantity H sid pr qty rtype otype s = Some (Inr s') \<and> bcast_ready H k s' \<and>
    published (BroadCastQ s') = published (BroadCastQ s) @
      [\<lparr>bc_system_id = sid, bc_price = pr, bc_quantity = qty, bc_side = otype, bc_type = rtype\<rparr>]"
proof -
  obtain s' where "bcast_spin H \<lparr>bc_system_id = sid, bc_price = pr, bc_quantity = qty, bc_side = otype,
      bc_type = rtype\<rparr> s = Some s'"
    "told s s' [\<lparr>bc_system_id = sid, bc_price = pr, bc_quantity = qty, bc_side = otype, bc_type = rtype\<rparr>]"
    "bcast_ready H k s'"
    using bcast_spin_returns [OF assms] by blast
  then show ?thesis by (simp add: changeInQuantity_def told_def)
qed

theorem broadcast_returns_witness:
  "\<exists>s'. changeInQuantity demo_hw 7 one 5 (CHR ''N'') (CHR ''S'') (ME_new 30 8) = Some (Inr s') \<and>
    length (published (BroadCastQ s')) = 1"
proof -
  have "bcast_ready demo_hw (Suc 0) (ME_new 30 8)"
    using ME_new_inv(3-5) [of 30 8] by (simp add: bcast_ready_def)
  from broadcast_returns [OF this, of 7 one 5 "CHR ''N''" "CHR ''S''"] show ?thesis using ME_new_inv(4) [of 30 8] by auto
qed

text \<open>
  The engine hangs on a full broadcast queue that nobody reads: \<open>create_order\<close> does not return
  once an order is left to rest and to be announced.
\<close>
theorem broadcast_blocks_engine:
  assumes inv: "me_inv n mx s" and n: "Suc n < 2 ^ 31" and ok: "price_ok mx b order"
    and id: "unat (system_id order) < LUT_SIZE" and new: "LUT (own b s) (unat (system_id order)) = (NPOS, NPOS)"
    and alone: "levels (opp b s) = (\<lambda>_. [])" and q: "quantity order \<noteq> 0"
    and port: "port_inv (BroadCastQ s)" "lfq_size (chan (BroadCastQ s)) = port_cap (BroadCastQ s)"
    and gone: "\<forall>k. bcast_env H k = 0"
  shows "create_order H order b s = None"
proof -
  note I = me_invD [OF inv]
  obtain pr where pr: "price_index (price order) = Inr pr" "pr < mx" "b \<or> 0 < pr"
    by (rule price_ok_index [OF ok])
  have ends: "\<not> spins b pr (opp b s) (quantity order)" using pr(3) by (auto simp: spins_def)
  have m: "matchable n b s order pr" using I pr(1) by (simp add: matchable_def)
  have w: "match_walk (path b (max_price_possible (opp b s)) pr) (quantity order) (levels (opp b s)) =
      (levels (opp b s), quantity order)"
    by (rule match_walk_empty) (simp add: alone)
  obtain s1 where "aggresiveMatch H b s order = Some (Inr (s1, order\<lparr>quantity := quantity order\<rparr>))"
    and s1: "matched H b order (walk_execs (path b (max_price_possible (opp b s)) pr) (quantity order)
       (levels (opp b s))) s s1"
    by (rule run_refines [OF m ends w])
  then have run: "aggresiveMatch H b s order = Some (Inr (s1, order))" by simp
  have own1: "own b s1 = own b s" and bq: "BroadCastQ s1 = BroadCastQ s"
    using s1 by (simp_all only: matched_def)
  have live: "live order" using q by (simp add: live_def)
  obtain bk where bk: "createOrder (own b s) order = Inr bk"
    using createOrder_inv [OF I(1) pr(1) _ live refl id new n] pr(2) I(3) by metis
  have blocked: "bcast_spin H x s2 = None" if "BroadCastQ s2 = BroadCastQ s" for x s2
    by (rule bcast_spin_blocked) (use that port gone in simp_all)
  show ?thesis
    using q by (simp add: create_order_def run own1 bk now_cycle_def changeInQuantity_def blocked frame_simps bq)
qed

theorem broadcast_blocks_engine_witness:
  "create_order demo_hw (demo_order 9 (CHR ''b'') (CHR ''c'') two 3) True (ME_new 30 1) = None"
proof -
  have "me_inv 0 30 (ME_new 30 1)" "port_inv (BroadCastQ (ME_new 30 1))"
    by (rule ME_new_inv; simp)+
  moreover have "levels (opp True (ME_new 30 1)) = (\<lambda>_. [])"
    using LOB_new_inv(2) [of 30 0 False] by (auto simp: opp_def ME_new_def)
  moreover have "lfq_size (chan (BroadCastQ (ME_new 30 1))) = port_cap (BroadCastQ (ME_new 30 1))"
    by (simp add: ME_new_def port_new_def port_cap_def LFQueue_new_def lfq_size_def)
  moreover have "LUT (own True (ME_new 30 1)) 9 = (NPOS, NPOS)" by (simp add: own_def ME_new_def LOB_new_def)
  ultimately show ?thesis
    by (intro broadcast_blocks_engine [of 0 30]) (simp_all add: price_ok_def LUT_SIZE_def demo_hw_def)
qed

subsection \<open>A quantity of 0\<close>

text \<open>
  C28. When the only live order at the best level of a book is updated to the quantity 0, every
  later order of the other side that can trade with that level hangs the engine.
\<close>
theorem zero_update_hangs_matching:
  assumes inv: "lob_inv n (own b s)" and side: "isBuy (own b s) = b" and rest: "resting (own b s) p c"
    and best: "p = get_optimal_price (own b s)" and alone: "levels (own b s) p = [book (own b s) ! p ! c]"
    and id: "unat (system_id x) = sid_at (own b s) p c" and z: "quantity x = 0"
    and q: "quantity order \<noteq> 0" and pr: "price_index (price order) = Inr pr"
    and cross: "if b then pr \<le> p else p \<le> pr"
  shows "\<exists>bk. UpdateOrderQuantity (own b s) x = Inr bk \<and> aggresiveMatch H (\<not> b) (set_own b bk s) order = None"
proof -
  let ?b = "own b s"
  note core = lob_invD(1) [OF inv] and R = restingD [OF rest]
  let ?k = "set_quantity ?b p c 0"
  have up: "UpdateOrderQuantity ?b x = Inr ?k"
    using R(3) z by (simp add: UpdateOrderQuantity_eq [OF core rest id] live_def word_gt_0)
  have opp: "opp (\<not> b) (set_own b ?k s) = ?k" by (simp add: opp_own frame_simps)
  have best': "best_price ?b = p" using best by (simp add: get_optimal_price_def)
  have "levels ?k p = remove_id (sid_at ?b p c) (levels ?b p)"
    by (simp add: remove_id_levels [OF core rest])
  then have dead: "levels ?k p = []" by (simp add: alone remove_id_def sid_at_def)
  have bk: "book ?k ! p \<noteq> []"
    using R by (auto simp: set_quantity_book)
  have nx: "\<not> (if \<not> b then pr < p else p < pr)" using cross by (auto split: if_splits)
  have "aggresiveMatch H (\<not> b) (set_own b ?k s) order = None"
    by (rule aggresiveMatch_stuck [OF q pr, where is_buy = "\<not> b" and s = "set_own b ?k s", unfolded opp])
      (use nx R(1) core_resting(6) [OF core rest] dead bk in \<open>simp_all only: set_quantity_fields best' not_False_eq_True\<close>)
  with up show ?thesis by blast
qed

theorem zero_update_hangs_matching_witness:
  "\<exists>b bk. createOrder (LOB_new False 30) (demo_order 7 (CHR ''s'') (CHR ''c'') one 5) = Inr b \<and>
    UpdateOrderQuantity b (demo_order 7 (CHR ''s'') (CHR ''u'') one 0) = Inr bk \<and>
    aggresiveMatch demo_hw True ((ME_new 30 8)\<lparr>SellOrderBook := bk\<rparr>) (demo_order 9 (CHR ''b'') (CHR ''c'') two 3) = None"
proof -
  obtain b where b: "createOrder (LOB_new False 30) (demo_order 7 (CHR ''s'') (CHR ''c'') one 5) = Inr b"
    "resting b 10 0" "sid_at b 10 0 = 7" "levels b 10 = [demo_order 7 (CHR ''s'') (CHR ''c'') one 5]"
    "book b ! 10 ! 0 = demo_order 7 (CHR ''s'') (CHR ''c'') one 5" "best_price b = 10" "lob_inv 1 b" "isBuy b = False"
    by (rule demo_engine)
  let ?s = "(ME_new 30 8)\<lparr>SellOrderBook := b\<rparr>"
  have own: "own False ?s = b" by (simp add: own_def)
  have "\<exists>bk. UpdateOrderQuantity (own False ?s) (demo_order 7 (CHR ''s'') (CHR ''u'') one 0) = Inr bk \<and>
      aggresiveMatch demo_hw (\<not> False) (set_own False bk ?s) (demo_order 9 (CHR ''b'') (CHR ''c'') two 3) = None"
    by (rule zero_update_hangs_matching [where n = 1 and p = 10 and c = 0 and pr = 20])
      (simp_all add: own b b(7) [unfolded One_nat_def] get_optimal_price_def)
  with b(1) show ?thesis by (auto simp: own set_own_def)
qed

end
