(* ===== verification/Gateway.thy ===== *)
theory Gateway
  imports Messages LFQueue
begin

text \<open>
  \<open>order_gateway/order_gateway.cpp\<close>: the order gateway.  It takes user orders from two queues,
  gives each a system id, forwards it to the matching engine, and turns the engine's
  acknowledgements back into user acknowledgements.

  \<open>gw_hw\<close> is what the gateway cannot compute: the time stamp counter, how far the readers of its
  three outgoing queues have come at each access, and \<open>seen_quantity\<close>: the log line for a
  forwarded order is made by reading the slot again after it was published, when the engine
  may already have traded part of the order, so the quantity in that log line is whatever the
  engine has left of it.

  \<open>unordered_map<long long, int>\<close> is a finite map and \<open>vector<long long>\<close> a function with
  \<open>gw_size\<close> entries; an order id is kept as its 64 bits.  \<open>next_system_id\<close> is an \<open>int\<close> that can
  not leave the range of \<open>LUT\<close> without a fault, so it is a \<open>nat\<close>.  \<open>orders_received\<close> and
  \<open>LOB__orders_sent\<close> are never used by the source and are left out.
\<close>

record gw_hw =
  gtsc :: "nat \<Rightarrow> u64"
  lob_env :: "nat \<Rightarrow> nat"
  uack_env :: "nat \<Rightarrow> nat"
  glog_env :: "nat \<Rightarrow> nat"
  seen_quantity :: "nat \<Rightarrow> u32 \<Rightarrow> u32"

record OrderGateway =
  gw_LobOrderQueue :: "LOBOrder port"
  gw_LobAckQueue :: "LOBAck LFQueue"
  gw_SniperOrderQueue :: "UserOrder LFQueue"
  gw_SniperOrderAck :: "UserAck port"
  gw_MMorderQueue :: "UserOrder LFQueue"
  gw_Logger :: "LogElement port"
  gw_map :: "u64 \<rightharpoonup> nat"
  gw_LUT :: "nat \<Rightarrow> u64"
  gw_next_system_id :: nat
  gw_order_gateway_time :: "u64 list"
  gclk :: nat
  gacc :: nat

definition gw_size :: nat where
  "gw_size = 1000005"

definition UserOrder_init :: UserOrder where
  "UserOrder_init = \<lparr>uo_arrived_cycle_count = 0, uo_order_id = 0, uo_trader_id = 0, uo_order_type = CHR 0x00,
     uo_req_type = CHR 0x00, uo_price = 0, uo_quantity = 0, uo_out_cycle_count = 0\<rparr>"

definition UserAck_init :: UserAck where
  "UserAck_init = \<lparr>ua_order_id = 0, ua_price = 0, ua_quantity = 0, ua_side = CHR 0x00, ua_status = CHR 0x00\<rparr>"

definition OrderGateway_new :: "nat \<Rightarrow> OrderGateway" where
  "OrderGateway_new qsize =
     \<lparr>gw_LobOrderQueue = port_new qsize LOBOrder_init, gw_LobAckQueue = LFQueue_new qsize LOBAck_init,
      gw_SniperOrderQueue = LFQueue_new qsize UserOrder_init, gw_SniperOrderAck = port_new qsize UserAck_init,
      gw_MMorderQueue = LFQueue_new qsize UserOrder_init, gw_Logger = port_new qsize LogElement_init,
      gw_map = Map.empty, gw_LUT = (\<lambda>_. 0), gw_next_system_id = 0, gw_order_gateway_time = [],
      gclk = 0, gacc = 0\<rparr>"

text \<open>\<open>-1\<close> as a \<open>long long\<close>.\<close>

definition no_order :: u64 where
  "no_order = - 1"

text \<open>The comparison \<open>sysId < LUT.size()\<close> converts a negative \<open>int\<close> to a huge \<open>size_t\<close>.\<close>

definition SystemToOrderId :: "OrderGateway \<Rightarrow> int \<Rightarrow> u64" where
  "SystemToOrderId g sysId =
     (if size_of_int sysId < gw_size then gw_LUT g (size_of_int sysId) else no_order)"

text \<open>\<open>std::unordered_map::insert\<close> keeps the entry of a key that is already there.\<close>

definition map_insert :: "('k \<rightharpoonup> 'v) \<Rightarrow> 'k \<Rightarrow> 'v \<Rightarrow> ('k \<rightharpoonup> 'v)" where
  "map_insert mp k v = (case mp k of None \<Rightarrow> mp(k \<mapsto> v) | Some _ \<Rightarrow> mp)"

definition AssignSystemId :: "OrderGateway \<Rightarrow> u64 \<Rightarrow> (nat \<times> OrderGateway) result" where
  "AssignSystemId g orderId =
     (let sysId = gw_next_system_id g
      in if gw_size \<le> sysId then Inl OutOfBounds
         else Inr (sysId, g\<lparr>gw_next_system_id := Suc sysId, gw_map := map_insert (gw_map g) orderId sysId,
                            gw_LUT := (gw_LUT g)(sysId := orderId)\<rparr>))"

definition GetSystemId :: "OrderGateway \<Rightarrow> u64 \<Rightarrow> int" where
  "GetSystemId g orderId = (case gw_map g orderId of Some i \<Rightarrow> int i | None \<Rightarrow> - 1)"

text \<open>
  The log pattern of the gateway.  \<open>gw_log_now\<close> reads the counter only when it got a slot.
\<close>

definition gw_log :: "gw_hw \<Rightarrow> u64 \<Rightarrow> u64 \<Rightarrow> log_variant \<Rightarrow> OrderGateway \<Rightarrow> OrderGateway" where
  "gw_log H lid t v g =
     g\<lparr>gw_Logger := snd (publish (glog_env H (gacc g)) \<lparr>log_id = lid, timestamp = t, log_data = v\<rparr> (gw_Logger g)),
       gacc := Suc (gacc g)\<rparr>"

definition gw_log_now :: "gw_hw \<Rightarrow> u64 \<Rightarrow> log_variant \<Rightarrow> OrderGateway \<Rightarrow> OrderGateway" where
  "gw_log_now H lid v g =
     (let (ok, p) = publish (glog_env H (gacc g))
            \<lparr>log_id = lid, timestamp = gtsc H (gclk g), log_data = v\<rparr> (gw_Logger g)
      in g\<lparr>gw_Logger := p, gacc := Suc (gacc g), gclk := (if ok then Suc (gclk g) else gclk g)\<rparr>)"

text \<open>The request the gateway writes for a user order.\<close>

definition lob_order_of :: "u64 \<Rightarrow> nat \<Rightarrow> u64 \<Rightarrow> UserOrder \<Rightarrow> LOBOrder" where
  "lob_order_of arrivalCycle sys_id out order =
     \<lparr>arrival_cycle_count = arrivalCycle, system_id = word_of_nat sys_id, price = uo_price order,
      quantity = ucast (uo_quantity order), trade_id = uo_trader_id order, order_type = uo_order_type order,
      req_type = uo_req_type order, out_cycle_count = out\<rparr>"

definition gatewayOrderProcess :: "gw_hw \<Rightarrow> UserOrder \<Rightarrow> OrderGateway \<Rightarrow> OrderGateway result" where
  "gatewayOrderProcess H order g =
     (let arrivalCycle = gtsc H (gclk g);
          g1 = gw_log H GATEWAY_RECEIVE_USER_ORDER arrivalCycle (VUserOrder order) (g\<lparr>gclk := Suc (gclk g)\<rparr>)
      in bindR (AssignSystemId g1 (uo_order_id order)) (\<lambda>(sys_id, g2).
        let ord = lob_order_of arrivalCycle sys_id (gtsc H (gclk g2)) order;
            (ok, p) = publish (lob_env H (gacc g2)) ord (gw_LobOrderQueue g2);
            g3 = g2\<lparr>gw_LobOrderQueue := p, gacc := Suc (gacc g2)\<rparr>
        in if \<not> ok then Inr g3
           else let endCycle = gtsc H (Suc (gclk g3));
                    g4 = g3\<lparr>gclk := gclk g3 + 2,
                            gw_order_gateway_time := gw_order_gateway_time g3 @ [endCycle - arrivalCycle]\<rparr>
                in Inr (gw_log_now H GATEWAY_SEND_TO_ME
                     (VLOBOrder (ord\<lparr>quantity := seen_quantity H (gacc g4) (quantity ord)\<rparr>)) g4)))"

text \<open>The three parts of one turn of the loop in \<open>run\<close>.\<close>

definition take_sniper :: "gw_hw \<Rightarrow> OrderGateway \<Rightarrow> OrderGateway result" where
  "take_sniper H g =
     (case getNextToRead (gw_SniperOrderQueue g) of
        None \<Rightarrow> Inr g
      | Some i \<Rightarrow>
          bindR (gatewayOrderProcess H (read_slot i (gw_SniperOrderQueue g)) g) (\<lambda>g'.
            bindR (updateReadIndex (gw_SniperOrderQueue g')) (\<lambda>q. Inr (g'\<lparr>gw_SniperOrderQueue := q\<rparr>))))"

definition take_mm :: "gw_hw \<Rightarrow> OrderGateway \<Rightarrow> OrderGateway result" where
  "take_mm H g =
     (case getNextToRead (gw_MMorderQueue g) of
        None \<Rightarrow> Inr g
      | Some i \<Rightarrow>
          bindR (gatewayOrderProcess H (read_slot i (gw_MMorderQueue g)) g) (\<lambda>g'.
            bindR (updateReadIndex (gw_MMorderQueue g')) (\<lambda>q. Inr (g'\<lparr>gw_MMorderQueue := q\<rparr>))))"

text \<open>\<open>UserAck::order_id\<close> has 32 bits, the order id 64; \<open>SystemToOrderId\<close> takes an \<open>int\<close>.\<close>

definition user_ack_of :: "OrderGateway \<Rightarrow> LOBAck \<Rightarrow> UserAck" where
  "user_ack_of g a =
     \<lparr>ua_order_id = ucast (SystemToOrderId g (int_of_size (unat (la_system_id a)))), ua_price = la_price a,
      ua_quantity = la_quantity a, ua_side = la_side a, ua_status = la_status a\<rparr>"

definition take_ack :: "gw_hw \<Rightarrow> OrderGateway \<Rightarrow> OrderGateway result" where
  "take_ack H g =
     (case getNextToRead (gw_LobAckQueue g) of
        None \<Rightarrow> Inr g
      | Some i \<Rightarrow>
          let readAck = read_slot i (gw_LobAckQueue g);
              g1 = gw_log_now H GATEWAY_RECEIVE_ME_ACK (VLOBAck readAck) g;
              ua = user_ack_of g1 readAck;
              (ok, p) = publish (uack_env H (gacc g1)) ua (gw_SniperOrderAck g1)
          in if \<not> ok then Inr (g1\<lparr>gw_SniperOrderAck := p, gacc := Suc (gacc g1)\<rparr>)
             else let g2 = gw_log_now H GATEWAY_SEND_USER_ACK (VUserAck ua) (g1\<lparr>gacc := Suc (gacc g1)\<rparr>);
                      g3 = g2\<lparr>gw_SniperOrderAck := p\<rparr>
                  in bindR (updateReadIndex (gw_LobAckQueue g3)) (\<lambda>q. Inr (g3\<lparr>gw_LobAckQueue := q\<rparr>)))"

definition gateway_turn :: "gw_hw \<Rightarrow> OrderGateway \<Rightarrow> OrderGateway result" where
  "gateway_turn H g = bindR (take_sniper H g) (\<lambda>g1. bindR (take_mm H g1) (take_ack H))"

fun gateway_turns :: "gw_hw \<Rightarrow> nat \<Rightarrow> OrderGateway \<Rightarrow> OrderGateway result" where
  "gateway_turns H 0 g = Inr g"
| "gateway_turns H (Suc k) g = bindR (gateway_turn H g) (gateway_turns H k)"

end
