(* ===== verification/GatewayProofs.thy ===== *)
theory GatewayProofs
  imports Gateway
begin

text \<open>
  The gateway's id tables and what it forwards: ids are consecutive and each leads back to its
  order; every user order is translated field by field; acknowledgements wait until the user's
  queue has room.
\<close>

subsection \<open>The id tables\<close>

text \<open>
  \<open>gw_LUT\<close> gives every id that was assigned its order id; \<open>gw_map\<close> gives every order id the
  first system id it was assigned.
\<close>

definition ids_ok :: "OrderGateway \<Rightarrow> bool" where
  "ids_ok g \<longleftrightarrow>
     gw_next_system_id g \<le> gw_size \<and>
     (\<forall>i < gw_next_system_id g. gw_map g (gw_LUT g i) \<noteq> None) \<and>
     (\<forall>k j. gw_map g k = Some j \<longrightarrow> j < gw_next_system_id g \<and> gw_LUT g j = k \<and> (\<forall>i < j. gw_LUT g i \<noteq> k))"

lemma ids_ok_new: "ids_ok (OrderGateway_new q)"
  by (simp add: ids_ok_def OrderGateway_new_def)

lemma AssignSystemId_ok:
  assumes ok: "ids_ok g" and room: "gw_next_system_id g < gw_size"
  obtains g' where "AssignSystemId g oid = Inr (gw_next_system_id g, g')" and "ids_ok g'"
    and "gw_next_system_id g' = Suc (gw_next_system_id g)"
    and "gw_LUT g' = (gw_LUT g)(gw_next_system_id g := oid)"
    and "gw_map g' = map_insert (gw_map g) oid (gw_next_system_id g)"
    and "g' = g\<lparr>gw_next_system_id := Suc (gw_next_system_id g), gw_map := gw_map g', gw_LUT := gw_LUT g'\<rparr>"
proof -
  let ?n = "gw_next_system_id g"
  let ?g = "g\<lparr>gw_next_system_id := Suc ?n, gw_map := map_insert (gw_map g) oid ?n, gw_LUT := (gw_LUT g)(?n := oid)\<rparr>"
  have assigned: "AssignSystemId g oid = Inr (?n, ?g)"
    using room by (simp add: AssignSystemId_def Let_def)
  have known: "j < ?n \<and> gw_LUT g j = k \<and> (\<forall>i < j. gw_LUT g i \<noteq> k)" if "gw_map g k = Some j" for k j
    using ok that by (simp add: ids_ok_def)
  have all: "gw_map g (gw_LUT g i) \<noteq> None" if "i < ?n" for i
    using ok that by (simp add: ids_ok_def)
  have "gw_map ?g (gw_LUT ?g i) \<noteq> None" if "i < Suc ?n" for i
    using that all by (auto simp: map_insert_def less_Suc_eq split: option.splits)
  moreover have "j < Suc ?n \<and> gw_LUT ?g j = k \<and> (\<forall>i < j. gw_LUT ?g i \<noteq> k)" if "gw_map ?g k = Some j" for k j
  proof (cases "gw_map g oid = None \<and> k = oid")
    case True
    with that have j: "j = ?n" by (simp add: map_insert_def)
    have "gw_LUT g i \<noteq> k" if "i < ?n" for i
    proof
      assume "gw_LUT g i = k"
      with all [OF that] True show False by simp
    qed
    with j True show ?thesis by simp
  next
    case False
    with that have "gw_map g k = Some j" by (auto simp: map_insert_def split: option.splits if_splits)
    with known [OF this] show ?thesis by auto
  qed
  ultimately have "ids_ok ?g" using room by (simp add: ids_ok_def)
  then show thesis using that [of ?g] assigned by simp
qed

lemma SystemToOrderId_nat:
  assumes "i < gw_size"
  shows "SystemToOrderId g (int i) = gw_LUT g i"
proof -
  have "i < 2 ^ 64" using assms by (simp add: gw_size_def)
  with assms show ?thesis by (simp add: SystemToOrderId_def)
qed

subsection \<open>Logging\<close>

lemma gw_log_fields [simp]:
  "gw_LobOrderQueue (gw_log H l t v g) = gw_LobOrderQueue g"
  "gw_LobAckQueue (gw_log H l t v g) = gw_LobAckQueue g"
  "gw_SniperOrderQueue (gw_log H l t v g) = gw_SniperOrderQueue g"
  "gw_SniperOrderAck (gw_log H l t v g) = gw_SniperOrderAck g"
  "gw_MMorderQueue (gw_log H l t v g) = gw_MMorderQueue g"
  "gw_map (gw_log H l t v g) = gw_map g" "gw_LUT (gw_log H l t v g) = gw_LUT g"
  "gw_next_system_id (gw_log H l t v g) = gw_next_system_id g"
  "gw_order_gateway_time (gw_log H l t v g) = gw_order_gateway_time g"
  by (simp_all add: gw_log_def)

lemma gw_log_now_fields [simp]:
  "gw_LobOrderQueue (gw_log_now H l v g) = gw_LobOrderQueue g"
  "gw_LobAckQueue (gw_log_now H l v g) = gw_LobAckQueue g"
  "gw_SniperOrderQueue (gw_log_now H l v g) = gw_SniperOrderQueue g"
  "gw_SniperOrderAck (gw_log_now H l v g) = gw_SniperOrderAck g"
  "gw_MMorderQueue (gw_log_now H l v g) = gw_MMorderQueue g"
  "gw_map (gw_log_now H l v g) = gw_map g" "gw_LUT (gw_log_now H l v g) = gw_LUT g"
  "gw_next_system_id (gw_log_now H l v g) = gw_next_system_id g"
  "gw_order_gateway_time (gw_log_now H l v g) = gw_order_gateway_time g"
  by (simp_all add: gw_log_now_def split_def Let_def)

lemma gw_log_sends:
  "sends (gw_Logger g) (gw_Logger (gw_log H l t v g)) [\<lparr>log_id = l, timestamp = t, log_data = v\<rparr>]"
  by (simp add: gw_log_def publish_sends)

lemma gw_log_now_sends:
  "sends (gw_Logger g) (gw_Logger (gw_log_now H l v g)) [\<lparr>log_id = l, timestamp = gtsc H (gclk g), log_data = v\<rparr>]"
  by (simp add: gw_log_now_def split_def Let_def publish_sends)

subsection \<open>Forwarding an order\<close>

text \<open>
  \<open>forwards i order ord\<close>: \<open>ord\<close> is the request for the user order \<open>order\<close> under the system id \<open>i\<close>.
\<close>

definition forwards :: "nat \<Rightarrow> UserOrder \<Rightarrow> LOBOrder \<Rightarrow> bool" where
  "forwards i order ord \<longleftrightarrow> (\<exists>a t. ord = lob_order_of a i t order)"

text \<open>What forwarding leaves alone.\<close>

definition same_inputs :: "OrderGateway \<Rightarrow> OrderGateway \<Rightarrow> bool" where
  "same_inputs g g' \<longleftrightarrow>
     gw_LobAckQueue g' = gw_LobAckQueue g \<and> gw_SniperOrderQueue g' = gw_SniperOrderQueue g \<and>
     gw_MMorderQueue g' = gw_MMorderQueue g \<and> gw_SniperOrderAck g' = gw_SniperOrderAck g"

lemma ids_ok_cong:
  "gw_next_system_id g' = gw_next_system_id g \<Longrightarrow> gw_map g' = gw_map g \<Longrightarrow> gw_LUT g' = gw_LUT g \<Longrightarrow>
    ids_ok g' = ids_ok g"
  by (simp add: ids_ok_def)

lemma gatewayOrderProcess_correct:
  assumes ok: "ids_ok g" and room: "gw_next_system_id g < gw_size"
  obtains g' ord where "gatewayOrderProcess H order g = Inr g'" and "ids_ok g'"
    and "gw_next_system_id g' = Suc (gw_next_system_id g)"
    and "gw_LUT g' = (gw_LUT g)(gw_next_system_id g := uo_order_id order)"
    and "gw_map g' = map_insert (gw_map g) (uo_order_id order) (gw_next_system_id g)"
    and "same_inputs g g'" and "forwards (gw_next_system_id g) order ord"
    and "sends (gw_LobOrderQueue g) (gw_LobOrderQueue g') [ord]"
    and "length (gw_order_gateway_time g') + length (published (gw_LobOrderQueue g)) =
      length (gw_order_gateway_time g) + length (published (gw_LobOrderQueue g')) \<or>
      \<not> port_inv (gw_LobOrderQueue g)"
proof -
  define g1 where "g1 = gw_log H GATEWAY_RECEIVE_USER_ORDER (gtsc H (gclk g)) (VUserOrder order) (g\<lparr>gclk := Suc (gclk g)\<rparr>)"
  have ok1: "ids_ok g1" using ok by (simp add: g1_def ids_ok_def)
  have room1: "gw_next_system_id g1 < gw_size" using room by (simp add: g1_def)
  obtain g2 where g2: "AssignSystemId g1 (uo_order_id order) = Inr (gw_next_system_id g1, g2)" "ids_ok g2"
    "gw_next_system_id g2 = Suc (gw_next_system_id g1)"
    "gw_LUT g2 = (gw_LUT g1)(gw_next_system_id g1 := uo_order_id order)"
    "gw_map g2 = map_insert (gw_map g1) (uo_order_id order) (gw_next_system_id g1)"
    "g2 = g1\<lparr>gw_next_system_id := Suc (gw_next_system_id g1), gw_map := gw_map g2, gw_LUT := gw_LUT g2\<rparr>"
    by (rule AssignSystemId_ok [OF ok1 room1])
  have other: "gw_LobOrderQueue g2 = gw_LobOrderQueue g" "same_inputs g g2"
    "gw_order_gateway_time g2 = gw_order_gateway_time g"
    by (subst g2(6), simp add: g1_def same_inputs_def)+
  let ?ord = "lob_order_of (gtsc H (gclk g)) (gw_next_system_id g1) (gtsc H (gclk g2)) order"
  obtain b p where p: "publish (lob_env H (gacc g2)) ?ord (gw_LobOrderQueue g2) = (b, p)" by fastforce
  have sent: "sends (gw_LobOrderQueue g) p [?ord]"
    using publish_sends [of "gw_LobOrderQueue g2" "lob_env H (gacc g2)" ?ord] p other(1) by simp
  have grown: "length (published p) = length (published (gw_LobOrderQueue g)) + (if b then 1 else 0)"
    if "port_inv (gw_LobOrderQueue g)"
    using publish_inv(2) [OF _ p] that other(1) by simp
  define g3 where "g3 = g2\<lparr>gw_LobOrderQueue := p, gacc := Suc (gacc g2)\<rparr>"
  define g4 where "g4 = g3\<lparr>gclk := gclk g3 + 2,
    gw_order_gateway_time := gw_order_gateway_time g3 @ [gtsc H (Suc (gclk g3)) - gtsc H (gclk g)]\<rparr>"
  define g' where "g' = (if b then gw_log_now H GATEWAY_SEND_TO_ME
    (VLOBOrder (?ord\<lparr>quantity := seen_quantity H (gacc g4) (quantity ?ord)\<rparr>)) g4 else g3)"
  have run: "gatewayOrderProcess H order g = Inr g'"
    unfolding gatewayOrderProcess_def Let_def g1_def [symmetric] g2(1)
    using p by (simp add: g'_def g4_def g3_def)
  have fields: "gw_next_system_id g' = gw_next_system_id g2" "gw_LUT g' = gw_LUT g2" "gw_map g' = gw_map g2"
    "gw_LobOrderQueue g' = p" "same_inputs g2 g'"
    "length (gw_order_gateway_time g') = length (gw_order_gateway_time g) + (if b then 1 else 0)"
    using other by (simp_all add: g'_def g4_def g3_def same_inputs_def)
  have n1: "gw_next_system_id g1 = gw_next_system_id g" "gw_LUT g1 = gw_LUT g" "gw_map g1 = gw_map g"
    by (simp_all add: g1_def)
  show thesis
  proof (rule that [OF run])
    show "ids_ok g'" using g2(2) ids_ok_cong [OF fields(1,3,2)] by simp
    show "forwards (gw_next_system_id g) order ?ord" unfolding forwards_def n1 by blast
    show "same_inputs g g'" using other(2) fields(5) by (simp add: same_inputs_def)
    show "sends (gw_LobOrderQueue g) (gw_LobOrderQueue g') [?ord]" using sent fields(4) by simp
    show "length (gw_order_gateway_time g') + length (published (gw_LobOrderQueue g)) =
        length (gw_order_gateway_time g) + length (published (gw_LobOrderQueue g')) \<or>
        \<not> port_inv (gw_LobOrderQueue g)"
      using grown fields(4,6) by auto
  qed (simp_all add: fields(1-3) g2(3-5) n1)
qed

text \<open>The 1,000,006th order writes past the end of \<open>LUT\<close>.\<close>

lemma gatewayOrderProcess_full:
  "gw_size \<le> gw_next_system_id g \<Longrightarrow> gatewayOrderProcess H order g = Inl OutOfBounds"
  by (simp add: gatewayOrderProcess_def AssignSystemId_def Let_def)

subsection \<open>One turn of the gateway\<close>

definition gw_ok :: "OrderGateway \<Rightarrow> bool" where
  "gw_ok g \<longleftrightarrow> ids_ok g \<and> lfq_inv (gw_SniperOrderQueue g) \<and> lfq_inv (gw_MMorderQueue g) \<and>
     lfq_inv (gw_LobAckQueue g)"

text \<open>
  \<open>forwarded g g' os\<close>: the user orders \<open>os\<close> got the next system ids, in order, and a request was
  offered to the engine for each.
\<close>

definition forwarded :: "OrderGateway \<Rightarrow> OrderGateway \<Rightarrow> UserOrder list \<Rightarrow> bool" where
  "forwarded g g' os \<longleftrightarrow>
     gw_next_system_id g' = gw_next_system_id g + length os \<and>
     (\<forall>i < gw_next_system_id g. gw_LUT g' i = gw_LUT g i) \<and>
     (\<forall>k < length os. gw_LUT g' (gw_next_system_id g + k) = uo_order_id (os ! k)) \<and>
     (\<exists>ords. length ords = length os \<and>
        (\<forall>k < length os. forwards (gw_next_system_id g + k) (os ! k) (ords ! k)) \<and>
        sends (gw_LobOrderQueue g) (gw_LobOrderQueue g') ords)"

lemma forwarded_none:
  "gw_next_system_id g' = gw_next_system_id g \<Longrightarrow> gw_LUT g' = gw_LUT g \<Longrightarrow>
    gw_LobOrderQueue g' = gw_LobOrderQueue g \<Longrightarrow> forwarded g g' []"
  by (simp add: forwarded_def)

lemma forwarded_refl [simp]: "forwarded g g []"
  by (rule forwarded_none) simp_all

lemma forwarded_one:
  "gw_next_system_id g' = Suc (gw_next_system_id g) \<Longrightarrow>
    gw_LUT g' = (gw_LUT g)(gw_next_system_id g := uo_order_id x) \<Longrightarrow>
    forwards (gw_next_system_id g) x ord \<Longrightarrow>
    sends (gw_LobOrderQueue g) (gw_LobOrderQueue g') [ord] \<Longrightarrow> forwarded g g' [x]"
  by (auto simp: forwarded_def intro: exI [of _ "[ord]"])

lemma forwarded_append:
  assumes "forwarded g g1 xs" and "forwarded g1 g2 ys"
  shows "forwarded g g2 (xs @ ys)"
proof -
  let ?n = "gw_next_system_id g"
  have n1: "gw_next_system_id g1 = ?n + length xs" using assms(1) by (simp add: forwarded_def)
  obtain us where us: "length us = length xs" "\<forall>k < length xs. forwards (?n + k) (xs ! k) (us ! k)"
    "sends (gw_LobOrderQueue g) (gw_LobOrderQueue g1) us"
    using assms(1) unfolding forwarded_def by blast
  obtain vs where vs: "length vs = length ys"
    "\<forall>k < length ys. forwards (gw_next_system_id g1 + k) (ys ! k) (vs ! k)"
    "sends (gw_LobOrderQueue g1) (gw_LobOrderQueue g2) vs"
    using assms(2) unfolding forwarded_def by blast
  have "forwards (?n + k) ((xs @ ys) ! k) ((us @ vs) ! k)" if "k < length (xs @ ys)" for k
  proof (cases "k < length xs")
    case True
    with us show ?thesis by (simp add: nth_append)
  next
    case False
    with that have k: "k - length xs < length ys" by simp
    have "?n + k = gw_next_system_id g1 + (k - length xs)" using False n1 by simp
    moreover have "forwards (gw_next_system_id g1 + (k - length xs)) (ys ! (k - length xs)) (vs ! (k - length xs))"
      using vs(2) k by blast
    ultimately show ?thesis using False us(1) by (simp add: nth_append)
  qed
  moreover have "gw_LUT g2 (?n + k) = uo_order_id ((xs @ ys) ! k)" if "k < length (xs @ ys)" for k
  proof (cases "k < length xs")
    case True
    with assms n1 show ?thesis by (simp add: forwarded_def nth_append)
  next
    case False
    with that have k: "k - length xs < length ys" by simp
    have "?n + k = gw_next_system_id g1 + (k - length xs)" using False n1 by simp
    moreover have "gw_LUT g2 (gw_next_system_id g1 + (k - length xs)) = uo_order_id (ys ! (k - length xs))"
      using assms(2) k unfolding forwarded_def by blast
    ultimately show ?thesis using False by (simp add: nth_append)
  qed
  moreover have "sends (gw_LobOrderQueue g) (gw_LobOrderQueue g2) (us @ vs)"
    using us(3) vs(3) by (rule sends_append)
  moreover have "length (us @ vs) = length (xs @ ys)" using us(1) vs(1) by simp
  moreover have "gw_LUT g2 i = gw_LUT g i" if "i < ?n" for i
    using assms that n1 by (simp add: forwarded_def)
  moreover have "gw_next_system_id g2 = ?n + length (xs @ ys)"
    using assms by (simp add: forwarded_def)
  ultimately show ?thesis unfolding forwarded_def by blast
qed

lemma take_sniper_correct:
  assumes ok: "gw_ok g" and room: "gw_next_system_id g + length (take 1 (contents (gw_SniperOrderQueue g))) \<le> gw_size"
  obtains g' where "take_sniper H g = Inr g'" and "gw_ok g'"
    and "contents (gw_SniperOrderQueue g') = drop 1 (contents (gw_SniperOrderQueue g))"
    and "gw_MMorderQueue g' = gw_MMorderQueue g" and "gw_LobAckQueue g' = gw_LobAckQueue g"
    and "gw_SniperOrderAck g' = gw_SniperOrderAck g"
    and "forwarded g g' (take 1 (contents (gw_SniperOrderQueue g)))"
    and "length (store (gw_SniperOrderQueue g')) = length (store (gw_SniperOrderQueue g))"
proof (cases "getNextToRead (gw_SniperOrderQueue g)")
  case None
  then have "contents (gw_SniperOrderQueue g) = []"
    using ok empty_iff_contents [of "gw_SniperOrderQueue g"] by (simp add: gw_ok_def)
  with None ok that [of g] show thesis by (simp add: take_sniper_def)
next
  case (Some i)
  let ?q = "gw_SniperOrderQueue g"
  let ?x = "read_slot i ?q"
  have inv: "lfq_inv ?q" and ids: "ids_ok g" using ok by (simp_all add: gw_ok_def)
  obtain q' where up: "updateReadIndex ?q = Inr q'" using updateReadIndex_after_get(2) [OF Some] by blast
  note R = release_contents [OF inv Some up]
  have n: "gw_next_system_id g < gw_size" using room R(2) by simp
  obtain g1 ord where g1: "gatewayOrderProcess H ?x g = Inr g1" "ids_ok g1"
    "gw_next_system_id g1 = Suc (gw_next_system_id g)"
    "gw_LUT g1 = (gw_LUT g)(gw_next_system_id g := uo_order_id ?x)"
    "same_inputs g g1" "forwards (gw_next_system_id g) ?x ord"
    "sends (gw_LobOrderQueue g) (gw_LobOrderQueue g1) [ord]"
    by (rule gatewayOrderProcess_correct [OF ids n])
  let ?g = "g1\<lparr>gw_SniperOrderQueue := q'\<rparr>"
  have run: "take_sniper H g = Inr ?g"
    using Some g1(1,5) up by (simp add: take_sniper_def same_inputs_def)
  have head: "take 1 (contents ?q) = [?x]" "drop 1 (contents ?q) = contents q'" using R(2) by simp_all
  show thesis
  proof (rule that [OF run])
    show "gw_ok ?g" using ok g1(2,5) R(1) by (simp add: gw_ok_def same_inputs_def ids_ok_def)
    show "contents (gw_SniperOrderQueue ?g) = drop 1 (contents ?q)" unfolding head by simp
    show "forwarded g ?g (take 1 (contents ?q))"
      unfolding head using g1(3,4,6,7) by (intro forwarded_one) simp_all
  qed (use g1(5) R(3) in \<open>simp_all add: same_inputs_def\<close>)
qed

lemma take_mm_correct:
  assumes ok: "gw_ok g" and room: "gw_next_system_id g + length (take 1 (contents (gw_MMorderQueue g))) \<le> gw_size"
  obtains g' where "take_mm H g = Inr g'" and "gw_ok g'"
    and "contents (gw_MMorderQueue g') = drop 1 (contents (gw_MMorderQueue g))"
    and "gw_SniperOrderQueue g' = gw_SniperOrderQueue g" and "gw_LobAckQueue g' = gw_LobAckQueue g"
    and "gw_SniperOrderAck g' = gw_SniperOrderAck g"
    and "forwarded g g' (take 1 (contents (gw_MMorderQueue g)))"
proof (cases "getNextToRead (gw_MMorderQueue g)")
  case None
  then have "contents (gw_MMorderQueue g) = []"
    using ok empty_iff_contents [of "gw_MMorderQueue g"] by (simp add: gw_ok_def)
  with None ok that [of g] show thesis by (simp add: take_mm_def)
next
  case (Some i)
  let ?q = "gw_MMorderQueue g"
  let ?x = "read_slot i ?q"
  have inv: "lfq_inv ?q" and ids: "ids_ok g" using ok by (simp_all add: gw_ok_def)
  obtain q' where up: "updateReadIndex ?q = Inr q'" using updateReadIndex_after_get(2) [OF Some] by blast
  note R = release_contents [OF inv Some up]
  have n: "gw_next_system_id g < gw_size" using room R(2) by simp
  obtain g1 ord where g1: "gatewayOrderProcess H ?x g = Inr g1" "ids_ok g1"
    "gw_next_system_id g1 = Suc (gw_next_system_id g)"
    "gw_LUT g1 = (gw_LUT g)(gw_next_system_id g := uo_order_id ?x)"
    "same_inputs g g1" "forwards (gw_next_system_id g) ?x ord"
    "sends (gw_LobOrderQueue g) (gw_LobOrderQueue g1) [ord]"
    by (rule gatewayOrderProcess_correct [OF ids n])
  let ?g = "g1\<lparr>gw_MMorderQueue := q'\<rparr>"
  have run: "take_mm H g = Inr ?g"
    using Some g1(1,5) up by (simp add: take_mm_def same_inputs_def)
  have head: "take 1 (contents ?q) = [?x]" "drop 1 (contents ?q) = contents q'" using R(2) by simp_all
  show thesis
  proof (rule that [OF run])
    show "gw_ok ?g" using ok g1(2,5) R(1) by (simp add: gw_ok_def same_inputs_def ids_ok_def)
    show "contents (gw_MMorderQueue ?g) = drop 1 (contents ?q)" unfolding head by simp
    show "forwarded g ?g (take 1 (contents ?q))"
      unfolding head using g1(3,4,6,7) by (intro forwarded_one) simp_all
  qed (use g1(5) in \<open>simp_all add: same_inputs_def\<close>)
qed

text \<open>
  An acknowledgement is taken from the engine's queue only when its translation was put into the
  user's queue; otherwise it stays and is tried again in the next turn.
\<close>

text \<open>The log line before the acknowledgement leaves the same as after it: they go to different queues.\<close>

lemma gw_log_now_ack:
  "gw_log_now H l v (g\<lparr>gw_SniperOrderAck := p, gacc := n\<rparr>) = (gw_log_now H l v (g\<lparr>gacc := n\<rparr>))\<lparr>gw_SniperOrderAck := p\<rparr>"
  by (simp add: gw_log_now_def split_def Let_def)

lemma take_ack_eq:
  "take_ack H g =
     (case getNextToRead (gw_LobAckQueue g) of
        None \<Rightarrow> Inr g
      | Some i \<Rightarrow>
          let readAck = read_slot i (gw_LobAckQueue g);
              g1 = gw_log_now H GATEWAY_RECEIVE_ME_ACK (VLOBAck readAck) g;
              ua = user_ack_of g1 readAck;
              (ok, p) = publish (uack_env H (gacc g1)) ua (gw_SniperOrderAck g1);
              g2 = g1\<lparr>gw_SniperOrderAck := p, gacc := Suc (gacc g1)\<rparr>
          in if \<not> ok then Inr g2
             else let g3 = gw_log_now H GATEWAY_SEND_USER_ACK (VUserAck ua) g2
                  in bindR (updateReadIndex (gw_LobAckQueue g3)) (\<lambda>q. Inr (g3\<lparr>gw_LobAckQueue := q\<rparr>)))"
  unfolding take_ack_def Let_def gw_log_now_ack by (rule refl)

lemma take_ack_idle:
  "gw_ok g \<Longrightarrow> contents (gw_LobAckQueue g) = [] \<Longrightarrow> take_ack H g = Inr g"
  using empty_iff_contents [of "gw_LobAckQueue g"] by (simp add: gw_ok_def take_ack_eq)

lemma take_ack_correct:
  assumes ok: "gw_ok g" and acks: "contents (gw_LobAckQueue g) = a # rest"
    and port: "port_inv (gw_SniperOrderAck g)"
  obtains g' sent where "take_ack H g = Inr g'" and "gw_ok g'" and "forwarded g g' []"
    and "gw_SniperOrderQueue g' = gw_SniperOrderQueue g" and "gw_MMorderQueue g' = gw_MMorderQueue g"
    and "published (gw_SniperOrderAck g') =
      published (gw_SniperOrderAck g) @ (if sent then [user_ack_of g a] else [])"
    and "contents (gw_LobAckQueue g') = (if sent then rest else a # rest)"
    and "port_inv (gw_SniperOrderAck g')" and "port_cap (gw_SniperOrderAck g') = port_cap (gw_SniperOrderAck g)"
    and "length (published (gw_SniperOrderAck g)) < port_cap (gw_SniperOrderAck g) \<longrightarrow> sent"
proof -
  let ?q = "gw_LobAckQueue g"
  have inv: "lfq_inv ?q" using ok by (simp add: gw_ok_def)
  have "getNextToRead ?q \<noteq> None" using empty_iff_contents [OF inv] acks by simp
  then obtain i where i: "getNextToRead ?q = Some i" by blast
  obtain q' where up: "updateReadIndex ?q = Inr q'" using updateReadIndex_after_get(2) [OF i] by blast
  note R = release_contents [OF inv i up]
  have a: "read_slot i ?q = a" and rest: "contents q' = rest" using R(2) acks by simp_all
  define g1 where "g1 = gw_log_now H GATEWAY_RECEIVE_ME_ACK (VLOBAck a) g"
  have ua: "user_ack_of g1 a = user_ack_of g a"
    by (simp add: g1_def user_ack_of_def SystemToOrderId_def)
  obtain b p where p: "publish (uack_env H (gacc g1)) (user_ack_of g a) (gw_SniperOrderAck g) = (b, p)" by fastforce
  note P = publish_inv [OF port p]
  define g2 where "g2 = g1\<lparr>gw_SniperOrderAck := p, gacc := Suc (gacc g1)\<rparr>"
  define g' where "g' = (if b then (gw_log_now H GATEWAY_SEND_USER_ACK (VUserAck (user_ack_of g a)) g2)
    \<lparr>gw_LobAckQueue := q'\<rparr> else g2)"
  have run: "take_ack H g = Inr g'"
    using p up unfolding take_ack_eq
    by (simp add: i a g1_def [symmetric] ua g2_def [symmetric] g'_def Let_def)
      (simp add: g1_def g2_def up)
  show thesis
  proof (rule that [OF run])
    show "gw_ok g'" using ok R(1) by (simp add: g'_def g2_def g1_def gw_ok_def ids_ok_def)
    show "forwarded g g' []" by (rule forwarded_none) (simp_all add: g'_def g2_def g1_def)
    show "published (gw_SniperOrderAck g') =
        published (gw_SniperOrderAck g) @ (if b then [user_ack_of g a] else [])"
      using P(2) by (simp add: g'_def g2_def)
    show "contents (gw_LobAckQueue g') = (if b then rest else a # rest)"
      using rest acks by (simp add: g'_def g2_def g1_def)
    show "port_inv (gw_SniperOrderAck g')" "port_cap (gw_SniperOrderAck g') = port_cap (gw_SniperOrderAck g)"
      using P(1,3) by (simp_all add: g'_def g2_def)
    show "length (published (gw_SniperOrderAck g)) < port_cap (gw_SniperOrderAck g) \<longrightarrow> b"
      using publish_room [OF port] p by (metis fst_conv)
  qed (simp_all add: g'_def g2_def g1_def)
qed

text \<open>
  The acknowledgement part never touches the orders.  \<open>acks_handed g g'\<close>: the oldest acknowledgements
  were translated and published to the user, and only those were taken.
\<close>

definition acks_handed :: "OrderGateway \<Rightarrow> OrderGateway \<Rightarrow> bool" where
  "acks_handed g g' \<longleftrightarrow>
     (port_inv (gw_SniperOrderAck g) \<longrightarrow> port_inv (gw_SniperOrderAck g') \<and>
       (\<exists>k. contents (gw_LobAckQueue g') = drop k (contents (gw_LobAckQueue g)) \<and>
         published (gw_SniperOrderAck g') = published (gw_SniperOrderAck g) @
           map (user_ack_of g) (take k (contents (gw_LobAckQueue g)))))"

lemma take_ack_frame:
  assumes ok: "gw_ok g"
  obtains g' where "take_ack H g = Inr g'" and "gw_ok g'" and "forwarded g g' []"
    and "gw_SniperOrderQueue g' = gw_SniperOrderQueue g" and "gw_MMorderQueue g' = gw_MMorderQueue g"
    and "acks_handed g g'"
proof (cases "getNextToRead (gw_LobAckQueue g)")
  case None
  moreover have "acks_handed g g" by (auto simp: acks_handed_def intro: exI [of _ 0])
  ultimately show thesis using ok that [of g] by (simp add: take_ack_eq)
next
  case (Some i)
  have inv: "lfq_inv (gw_LobAckQueue g)" using ok by (simp add: gw_ok_def)
  obtain q' where up: "updateReadIndex (gw_LobAckQueue g) = Inr q'"
    using updateReadIndex_after_get(2) [OF Some] by blast
  have q': "lfq_inv q'" using release_contents(1) [OF inv Some up] .
  let ?a = "read_slot i (gw_LobAckQueue g)"
  let ?g1 = "gw_log_now H GATEWAY_RECEIVE_ME_ACK (VLOBAck ?a) g"
  obtain b p where p: "publish (uack_env H (gacc ?g1)) (user_ack_of ?g1 ?a) (gw_SniperOrderAck g) = (b, p)"
    by fastforce
  let ?g2 = "?g1\<lparr>gw_SniperOrderAck := p, gacc := Suc (gacc ?g1)\<rparr>"
  let ?g = "if b then (gw_log_now H GATEWAY_SEND_USER_ACK (VUserAck (user_ack_of ?g1 ?a)) ?g2)
    \<lparr>gw_LobAckQueue := q'\<rparr> else ?g2"
  have run: "take_ack H g = Inr ?g"
    using p up by (simp add: take_ack_eq Some Let_def)
  have "port_inv (gw_SniperOrderAck ?g) \<and> (\<exists>k. contents (gw_LobAckQueue ?g) = drop k (contents (gw_LobAckQueue g)) \<and>
      published (gw_SniperOrderAck ?g) = published (gw_SniperOrderAck g) @
        map (user_ack_of g) (take k (contents (gw_LobAckQueue g))))"
    if port: "port_inv (gw_SniperOrderAck g)"
  proof -
    obtain a rest where acks: "contents (gw_LobAckQueue g) = a # rest"
      using empty_iff_contents [OF inv] Some by (cases "contents (gw_LobAckQueue g)") auto
    obtain g1 sent where g1: "take_ack H g = Inr g1" "port_inv (gw_SniperOrderAck g1)"
      "published (gw_SniperOrderAck g1) = published (gw_SniperOrderAck g) @ (if sent then [user_ack_of g a] else [])"
      "contents (gw_LobAckQueue g1) = (if sent then rest else a # rest)"
      by (rule take_ack_correct [OF ok acks port])
    have "?g = g1" using g1(1) run by simp
    then show ?thesis unfolding acks using g1(2-4) by (intro conjI exI [of _ "of_bool sent"]) simp_all
  qed
  then have "acks_handed g ?g" unfolding acks_handed_def by blast
  note run
  moreover have "gw_ok ?g" using ok q' by (simp add: gw_ok_def ids_ok_def)
  moreover have "forwarded g ?g []" by (rule forwarded_none) simp_all
  ultimately show thesis by (rule that) (fact \<open>acks_handed g ?g\<close> | simp)+
qed

lemma gateway_turn_correct:
  assumes ok: "gw_ok g"
    and room: "gw_next_system_id g + length (take 1 (contents (gw_SniperOrderQueue g))) +
      length (take 1 (contents (gw_MMorderQueue g))) \<le> gw_size"
  obtains g' where "gateway_turn H g = Inr g'" and "gw_ok g'"
    and "contents (gw_SniperOrderQueue g') = drop 1 (contents (gw_SniperOrderQueue g))"
    and "contents (gw_MMorderQueue g') = drop 1 (contents (gw_MMorderQueue g))"
    and "forwarded g g' (take 1 (contents (gw_SniperOrderQueue g)) @ take 1 (contents (gw_MMorderQueue g)))"
    and "length (store (gw_SniperOrderQueue g')) = length (store (gw_SniperOrderQueue g))"
    and "\<exists>g2. forwarded g g2 (take 1 (contents (gw_SniperOrderQueue g)) @ take 1 (contents (gw_MMorderQueue g))) \<and>
      acks_handed g2 g' \<and> gw_SniperOrderAck g2 = gw_SniperOrderAck g \<and> gw_LobAckQueue g2 = gw_LobAckQueue g"
proof -
  let ?xs = "take 1 (contents (gw_SniperOrderQueue g))" and ?ys = "take 1 (contents (gw_MMorderQueue g))"
  have room1: "gw_next_system_id g + length ?xs \<le> gw_size" using room by linarith
  obtain g1 where g1: "take_sniper H g = Inr g1" "gw_ok g1"
    "contents (gw_SniperOrderQueue g1) = drop 1 (contents (gw_SniperOrderQueue g))"
    "gw_MMorderQueue g1 = gw_MMorderQueue g" "forwarded g g1 ?xs"
    "length (store (gw_SniperOrderQueue g1)) = length (store (gw_SniperOrderQueue g))"
    "gw_LobAckQueue g1 = gw_LobAckQueue g" "gw_SniperOrderAck g1 = gw_SniperOrderAck g"
    by (rule take_sniper_correct [OF ok room1])
  have room2: "gw_next_system_id g1 + length (take 1 (contents (gw_MMorderQueue g1))) \<le> gw_size"
    using room g1(4,5) by (simp add: forwarded_def)
  obtain g2 where g2: "take_mm H g1 = Inr g2" "gw_ok g2"
    "contents (gw_MMorderQueue g2) = drop 1 (contents (gw_MMorderQueue g1))"
    "gw_SniperOrderQueue g2 = gw_SniperOrderQueue g1" "forwarded g1 g2 (take 1 (contents (gw_MMorderQueue g1)))"
    "gw_LobAckQueue g2 = gw_LobAckQueue g1" "gw_SniperOrderAck g2 = gw_SniperOrderAck g1"
    by (rule take_mm_correct [OF g1(2) room2])
  obtain g' where g': "take_ack H g2 = Inr g'" "gw_ok g'" "forwarded g2 g' []"
    "gw_SniperOrderQueue g' = gw_SniperOrderQueue g2" "gw_MMorderQueue g' = gw_MMorderQueue g2"
    "acks_handed g2 g'"
    by (rule take_ack_frame [OF g2(2)])
  have f2: "forwarded g1 g2 ?ys" using g2(5) unfolding g1(4) .
  have "forwarded g g' (?xs @ ?ys @ [])"
    by (rule forwarded_append [OF g1(5) forwarded_append [OF f2 g'(3)]])
  moreover have "\<exists>g2. forwarded g g2 (?xs @ ?ys) \<and> acks_handed g2 g' \<and>
      gw_SniperOrderAck g2 = gw_SniperOrderAck g \<and> gw_LobAckQueue g2 = gw_LobAckQueue g"
    using forwarded_append [OF g1(5) f2] g'(6) g1(7,8) g2(6,7) by auto
  moreover have "gateway_turn H g = Inr g'" using g1(1) g2(1) g'(1) by (simp add: gateway_turn_def)
  ultimately show thesis
    using that g1(3,4,6) g2(3,4) g'(2,4,5) by simp
qed

text \<open>The user orders in the order \<open>k\<close> turns take them: one of each queue per turn.\<close>

fun arrivals :: "nat \<Rightarrow> UserOrder list \<Rightarrow> UserOrder list \<Rightarrow> UserOrder list" where
  "arrivals 0 xs ys = []"
| "arrivals (Suc k) xs ys = take 1 xs @ take 1 ys @ arrivals k (drop 1 xs) (drop 1 ys)"

lemma gateway_run:
  assumes "gw_ok g"
    and "gw_next_system_id g +
      length (arrivals k (contents (gw_SniperOrderQueue g)) (contents (gw_MMorderQueue g))) \<le> gw_size"
  shows "\<exists>g'. gateway_turns H k g = Inr g' \<and> gw_ok g' \<and>
      contents (gw_SniperOrderQueue g') = drop k (contents (gw_SniperOrderQueue g)) \<and>
      contents (gw_MMorderQueue g') = drop k (contents (gw_MMorderQueue g)) \<and>
      forwarded g g' (arrivals k (contents (gw_SniperOrderQueue g)) (contents (gw_MMorderQueue g)))"
  using assms
proof (induction k arbitrary: g)
  case (Suc k)
  let ?xs = "contents (gw_SniperOrderQueue g)" and ?ys = "contents (gw_MMorderQueue g)"
  have room: "gw_next_system_id g + length (take 1 ?xs) + length (take 1 ?ys) \<le> gw_size"
    using Suc.prems(2) by simp
  obtain g1 where g1: "gateway_turn H g = Inr g1" "gw_ok g1"
    "contents (gw_SniperOrderQueue g1) = drop 1 ?xs" "contents (gw_MMorderQueue g1) = drop 1 ?ys"
    "forwarded g g1 (take 1 ?xs @ take 1 ?ys)"
    by (rule gateway_turn_correct [OF Suc.prems(1) room])
  have "gw_next_system_id g1 + length (arrivals k (contents (gw_SniperOrderQueue g1)) (contents (gw_MMorderQueue g1))) \<le> gw_size"
    using Suc.prems(2) g1(3-5) by (simp add: forwarded_def)
  with Suc.IH [OF g1(2)] obtain g' where g': "gateway_turns H k g1 = Inr g'" "gw_ok g'"
    "contents (gw_SniperOrderQueue g') = drop k (contents (gw_SniperOrderQueue g1))"
    "contents (gw_MMorderQueue g') = drop k (contents (gw_MMorderQueue g1))"
    "forwarded g1 g' (arrivals k (contents (gw_SniperOrderQueue g1)) (contents (gw_MMorderQueue g1)))"
    by blast
  have "forwarded g g' ((take 1 ?xs @ take 1 ?ys) @ arrivals k (drop 1 ?xs) (drop 1 ?ys))"
    using forwarded_append [OF g1(5) g'(5)] unfolding g1(3,4) .
  with g1(1,3,4) g' show ?case by simp
qed simp

subsection \<open>When the engine does not move during a turn\<close>

lemma gatewayOrderProcess_delivered:
  "gatewayOrderProcess H order g = Inr g' \<Longrightarrow> lob_env H = (\<lambda>_. 0) \<Longrightarrow>
    delivered (gw_LobOrderQueue g') = delivered (gw_LobOrderQueue g)"
  using publish_0_delivered
  by (auto simp: gatewayOrderProcess_def AssignSystemId_def Let_def split_def split: if_splits)

lemma gateway_turn_delivered:
  assumes "gateway_turn H g = Inr g'" and "lob_env H = (\<lambda>_. 0)"
  shows "delivered (gw_LobOrderQueue g') = delivered (gw_LobOrderQueue g)"
proof -
  obtain g1 g2 where g: "take_sniper H g = Inr g1" "take_mm H g1 = Inr g2" "take_ack H g2 = Inr g'"
    using assms(1) unfolding gateway_turn_def bindR_def by (auto split: sum.splits)
  note split = option.splits sum.splits if_splits
  have "delivered (gw_LobOrderQueue g1) = delivered (gw_LobOrderQueue g)"
    using g(1) gatewayOrderProcess_delivered [OF _ assms(2)] by (auto simp: take_sniper_def bindR_def split: split)
  moreover have "delivered (gw_LobOrderQueue g2) = delivered (gw_LobOrderQueue g1)"
    using g(2) gatewayOrderProcess_delivered [OF _ assms(2)] by (auto simp: take_mm_def bindR_def split: split)
  moreover have "gw_LobOrderQueue g' = gw_LobOrderQueue g2"
    using g(3) by (auto simp: take_ack_eq bindR_def Let_def split_def split: split)
  ultimately show ?thesis by simp
qed

text \<open>The gateway takes one latency sample for each request it publishes.\<close>

definition timed :: "OrderGateway \<Rightarrow> OrderGateway \<Rightarrow> bool" where
  "timed g g' \<longleftrightarrow> length (gw_order_gateway_time g') + length (published (gw_LobOrderQueue g)) =
     length (gw_order_gateway_time g) + length (published (gw_LobOrderQueue g'))"

lemma publish_length: "publish k x p = (b, p') \<Longrightarrow> length (published p') = length (published p) + of_bool b"
  by (auto simp: publish_def Let_def split_def split: option.splits)

lemma gatewayOrderProcess_timed: "gatewayOrderProcess H order g = Inr g' \<Longrightarrow> timed g g'"
  by (auto simp: gatewayOrderProcess_def AssignSystemId_def Let_def timed_def split: if_splits prod.splits dest!: publish_length)

lemma gateway_turn_timed:
  assumes "gateway_turn H g = Inr g'"
  shows "timed g g'"
proof -
  obtain g1 g2 where g: "take_sniper H g = Inr g1" "take_mm H g1 = Inr g2" "take_ack H g2 = Inr g'"
    using assms unfolding gateway_turn_def bindR_eq_Inr by blast
  have "timed g g1" using g(1) gatewayOrderProcess_timed
    by (fastforce simp: take_sniper_def bindR_eq_Inr timed_def split: option.splits)
  moreover have "timed g1 g2" using g(2) gatewayOrderProcess_timed
    by (fastforce simp: take_mm_def bindR_eq_Inr timed_def split: option.splits)
  moreover have "timed g2 g'" using g(3)
    by (auto simp: take_ack_eq bindR_eq_Inr Let_def split_def timed_def split: option.splits if_splits)
  ultimately show ?thesis by (simp add: timed_def)
qed

text \<open>Giving the gateway another end of a queue keeps its invariant.\<close>

lemma gw_ok_queues:
  "gw_ok g \<Longrightarrow> lfq_inv q \<Longrightarrow> gw_ok (g\<lparr>gw_SniperOrderQueue := q\<rparr>)"
  "gw_ok g \<Longrightarrow> lfq_inv q' \<Longrightarrow> gw_ok (g\<lparr>gw_LobOrderQueue := p, gw_LobAckQueue := q'\<rparr>)"
  by (simp_all add: gw_ok_def ids_ok_def)

end
