(* ===== verification/GatewayProps.thy ===== *)
theory GatewayProps
  imports GatewayProofs Float32
begin

text \<open>
  What the gateway promises (\<open>order_gateway/order_gateway.cpp\<close>): consecutive system ids that lead
  back to the user's order, requests that say what the user asked, acknowledgements that wait until
  they are delivered; and where it gives up: a full queue to the engine and a full id table.
\<close>

subsection \<open>Ids\<close>

text \<open>
  C30. An assigned system id leads back to the order id it was assigned for, and for an order id that
  was not seen before the order id leads to the system id; every id assigned earlier still leads to
  its order, and an order id that was seen before still leads to the first system id it got.
\<close>
theorem system_id_roundtrip:
  assumes ok: "ids_ok g" and room: "gw_next_system_id g < gw_size"
  shows "\<exists>g'. AssignSystemId g oid = Inr (gw_next_system_id g, g') \<and> ids_ok g' \<and>
    SystemToOrderId g' (int (gw_next_system_id g)) = oid \<and>
    (GetSystemId g oid = - 1 \<longrightarrow> GetSystemId g' oid = int (gw_next_system_id g)) \<and>
    (\<forall>i < gw_next_system_id g. SystemToOrderId g' (int i) = SystemToOrderId g (int i)) \<and>
    (\<forall>k. GetSystemId g k \<noteq> - 1 \<longrightarrow> GetSystemId g' k = GetSystemId g k)"
proof -
  let ?n = "gw_next_system_id g"
  obtain g' where g': "AssignSystemId g oid = Inr (?n, g')" "ids_ok g'" "gw_LUT g' = (gw_LUT g)(?n := oid)"
    "gw_map g' = map_insert (gw_map g) oid ?n"
    by (rule AssignSystemId_ok [OF ok room])
  have small: "i < gw_size" if "i \<le> ?n" for i using that room by simp
  have "SystemToOrderId g' (int i) = SystemToOrderId g (int i)" if "i < ?n" for i
    using that g'(3) by (simp add: SystemToOrderId_nat small)
  moreover have "SystemToOrderId g' (int ?n) = oid" using g'(3) by (simp add: SystemToOrderId_nat small)
  moreover have "GetSystemId g' k = GetSystemId g k" if "GetSystemId g k \<noteq> - 1" for k
    using that g'(4) by (auto simp: GetSystemId_def map_insert_def split: option.splits)
  moreover have "GetSystemId g' oid = int ?n" if "GetSystemId g oid = - 1"
  proof -
    have "gw_map g oid = None" using that by (auto simp: GetSystemId_def split: option.splits)
    then show ?thesis using g'(4) by (simp add: GetSystemId_def map_insert_def)
  qed
  ultimately show ?thesis using g'(1,2) by blast
qed

theorem system_id_roundtrip_witness:
  "\<exists>g'. AssignSystemId (OrderGateway_new 4) 77 = Inr (0, g') \<and> SystemToOrderId g' 0 = 77 \<and> GetSystemId g' 77 = 0"
proof -
  have "gw_next_system_id (OrderGateway_new 4) < gw_size" "GetSystemId (OrderGateway_new 4) 77 = - 1"
    "gw_next_system_id (OrderGateway_new 4) = 0"
    by (simp_all add: OrderGateway_new_def gw_size_def GetSystemId_def)
  with system_id_roundtrip [OF ids_ok_new this(1), of 77] show ?thesis by auto
qed

text \<open>
  C31. The order after the last id of the table faults: \<open>gatewayOrderProcess\<close> writes past the end of
  \<open>LUT\<close>, whatever the order; and no order before it does.
\<close>
theorem system_id_capacity:
  assumes "ids_ok g"
  shows "gatewayOrderProcess H order g = Inl OutOfBounds \<longleftrightarrow> gw_next_system_id g = gw_size"
proof (cases "gw_next_system_id g < gw_size")
  case True
  obtain g' where "gatewayOrderProcess H order g = Inr g'"
    by (rule gatewayOrderProcess_correct [OF assms True])
  with True show ?thesis by simp
next
  case False
  with assms have "gw_next_system_id g = gw_size" by (simp add: ids_ok_def)
  then show ?thesis by (simp add: gatewayOrderProcess_full)
qed

definition demo_gw_hw :: gw_hw where
  "demo_gw_hw = \<lparr>gtsc = word_of_nat, lob_env = (\<lambda>_. 0), uack_env = (\<lambda>_. 0), glog_env = (\<lambda>_. 0),
     seen_quantity = (\<lambda>_ q. q)\<rparr>"

definition demo_user_order :: "u64 \<Rightarrow> char \<Rightarrow> u64 \<Rightarrow> UserOrder" where
  "demo_user_order i req q = \<lparr>uo_arrived_cycle_count = 0, uo_order_id = i, uo_trader_id = 1,
     uo_order_type = CHR ''b'', uo_req_type = req, uo_price = 0x3F800000, uo_quantity = q, uo_out_cycle_count = 0\<rparr>"

theorem system_id_capacity_witness:
  "gatewayOrderProcess demo_gw_hw (demo_user_order 5 (CHR ''c'') 3) (OrderGateway_new 4) \<noteq> Inl OutOfBounds"
  using system_id_capacity [OF ids_ok_new, of demo_gw_hw "demo_user_order 5 (CHR ''c'') 3" 4]
  by (simp add: OrderGateway_new_def gw_size_def)

subsection \<open>Orders\<close>

text \<open>
  C19. The gateway forwards every order: in \<open>k\<close> turns, while the id table and the queue to the engine
  have room, the orders of both users are taken, one of each per turn, and a request is published
  for each, in that order, with the next system id and the user's price, side, type, trader and
  quantity (its low 32 bits); each of the new ids is different and leads back to its order.
\<close>
theorem gateway_forwards_orders:
  assumes ok: "gw_ok g" and os: "os = arrivals k (contents (gw_SniperOrderQueue g)) (contents (gw_MMorderQueue g))"
    and ids: "gw_next_system_id g + length os \<le> gw_size"
    and port: "port_inv (gw_LobOrderQueue g)"
    and room: "length (published (gw_LobOrderQueue g)) + length os \<le> port_cap (gw_LobOrderQueue g)"
  shows "\<exists>g' ords. gateway_turns H k g = Inr g' \<and> gw_ok g' \<and>
    contents (gw_SniperOrderQueue g') = drop k (contents (gw_SniperOrderQueue g)) \<and>
    contents (gw_MMorderQueue g') = drop k (contents (gw_MMorderQueue g)) \<and>
    published (gw_LobOrderQueue g') = published (gw_LobOrderQueue g) @ ords \<and> length ords = length os \<and>
    distinct (map system_id ords) \<and>
    (\<forall>j < length os. (\<exists>a t. ords ! j = lob_order_of a (gw_next_system_id g + j) t (os ! j)) \<and>
       SystemToOrderId g' (int (gw_next_system_id g + j)) = uo_order_id (os ! j))"
proof -
  let ?n = "gw_next_system_id g"
  obtain g' where g': "gateway_turns H k g = Inr g'" "gw_ok g'"
    "contents (gw_SniperOrderQueue g') = drop k (contents (gw_SniperOrderQueue g))"
    "contents (gw_MMorderQueue g') = drop k (contents (gw_MMorderQueue g))" "forwarded g g' os"
    using gateway_run [OF ok, of k H] ids unfolding os by blast
  obtain ords where ords: "length ords = length os" "\<forall>j < length os. forwards (?n + j) (os ! j) (ords ! j)"
    "sends (gw_LobOrderQueue g) (gw_LobOrderQueue g') ords"
    using g'(5) unfolding forwarded_def by blast
  have pub: "published (gw_LobOrderQueue g') = published (gw_LobOrderQueue g) @ ords"
    using sendsD [OF ords(3) port] room ords(1) by metis
  have leads: "SystemToOrderId g' (int (?n + j)) = uo_order_id (os ! j)" if "j < length os" for j
    using g'(5) that ids by (subst SystemToOrderId_nat) (simp_all add: forwarded_def)
  have sid: "unat (system_id (ords ! j)) = ?n + j" if j: "j < length os" for j
  proof -
    have "?n + j < 2 ^ 32" using j ids by (simp add: gw_size_def)
    then have "unat (word_of_nat (?n + j) :: u32) = ?n + j" by (rule unat_word_of_nat32)
    moreover obtain a t where "ords ! j = lob_order_of a (?n + j) t (os ! j)"
      using ords(2) j unfolding forwards_def by blast
    ultimately show ?thesis by (simp add: lob_order_of_def del: of_nat_add)
  qed
  have "distinct (map system_id ords)"
  proof (rule distinct_conv_nth [THEN iffD2], intro allI impI)
    fix i j assume ij: "i < length (map system_id ords)" "j < length (map system_id ords)" "i \<noteq> j"
    then show "map system_id ords ! i \<noteq> map system_id ords ! j"
      using sid [of i] sid [of j] ords(1) by auto
  qed
  with g' ords leads pub show ?thesis unfolding forwards_def by blast
qed

lemma demo_user_queue:
  "contents (\<lparr>store = [x, d], next_write_index = 1, next_read_index = 0\<rparr> :: 'a LFQueue) = [x]"
  "lfq_inv (\<lparr>store = [x, d], next_write_index = 1, next_read_index = 0\<rparr> :: 'a LFQueue)"
  by (simp_all add: contents_def lfq_size_def lfq_inv_def upt_rec)

definition demo_gateway :: OrderGateway where
  "demo_gateway = (OrderGateway_new 4)
     \<lparr>gw_SniperOrderQueue := \<lparr>store = [demo_user_order 5 (CHR ''c'') 3, UserOrder_init], next_write_index = 1,
        next_read_index = 0\<rparr>\<rparr>"

lemma demo_gateway_ok:
  "gw_ok demo_gateway" "port_inv (gw_LobOrderQueue demo_gateway)" "gw_next_system_id demo_gateway = 0"
  "published (gw_LobOrderQueue demo_gateway) = []" "port_cap (gw_LobOrderQueue demo_gateway) = 3"
  "contents (gw_SniperOrderQueue demo_gateway) = [demo_user_order 5 (CHR ''c'') 3]"
  "contents (gw_MMorderQueue demo_gateway) = []"
proof -
  have "ids_ok demo_gateway" using ids_ok_new [of 4] by (simp add: demo_gateway_def ids_ok_def)
  then show "gw_ok demo_gateway"
    by (simp add: gw_ok_def demo_gateway_def demo_user_queue OrderGateway_new_def LFQueue_new_inv)
    (simp add: lfq_inv_def)
qed (simp_all add: demo_gateway_def demo_user_queue [unfolded One_nat_def] OrderGateway_new_def port_new_inv,
     simp_all add: port_new_def port_cap_def LFQueue_new_def LFQueue_new_contents [unfolded LFQueue_new_def])

theorem gateway_forwards_orders_witness:
  "\<exists>g' r. gateway_turns demo_gw_hw 1 demo_gateway = Inr g' \<and> published (gw_LobOrderQueue g') = [r] \<and>
    system_id r = 0 \<and> quantity r = 3 \<and> SystemToOrderId g' 0 = 5"
proof -
  have os: "[demo_user_order 5 (CHR ''c'') 3] =
      arrivals 1 (contents (gw_SniperOrderQueue demo_gateway)) (contents (gw_MMorderQueue demo_gateway))"
    by (simp add: demo_gateway_ok)
  obtain g' ords where g': "gateway_turns demo_gw_hw 1 demo_gateway = Inr g'"
    "published (gw_LobOrderQueue g') = [] @ ords" "length ords = 1"
    "\<exists>a t. ords ! 0 = lob_order_of a 0 t (demo_user_order 5 (CHR ''c'') 3)" "SystemToOrderId g' 0 = 5"
    using gateway_forwards_orders [OF demo_gateway_ok(1) os _ demo_gateway_ok(2), of demo_gw_hw]
    by (auto simp: demo_gateway_ok gw_size_def demo_user_order_def)
  then obtain r where "ords = [r]" by (cases ords) simp_all
  with g' show ?thesis by (auto simp: lob_order_of_def demo_user_order_def)
qed

text \<open>
  A full queue to the engine loses the order: when the queue is full and the engine takes nothing
  from it, \<open>gatewayOrderProcess\<close> returns normally, the order has a system id that leads to it, and
  no request was published for it.
\<close>
theorem full_queue_drops_order:
  assumes ok: "ids_ok g" and room: "gw_next_system_id g < gw_size" and port: "port_inv (gw_LobOrderQueue g)"
    and full: "lfq_size (chan (gw_LobOrderQueue g)) = port_cap (gw_LobOrderQueue g)"
    and stopped: "\<forall>k. lob_env H k = 0"
  shows "\<exists>g'. gatewayOrderProcess H order g = Inr g' \<and>
    SystemToOrderId g' (int (gw_next_system_id g)) = uo_order_id order \<and>
    gw_next_system_id g' = Suc (gw_next_system_id g) \<and>
    published (gw_LobOrderQueue g') = published (gw_LobOrderQueue g) \<and>
    gw_order_gateway_time g' = gw_order_gateway_time g"
proof -
  let ?q = "chan (gw_LobOrderQueue g)"
  have inv: "lfq_inv ?q" using port by (simp add: port_inv_def)
  have "getNextToWriteTo ?q = None"
    using full_iff_size [OF inv] full inv by (cases "store ?q") (auto simp: port_cap_def lfq_inv_def)
  then have none: "publish 0 x (gw_LobOrderQueue g) = (False, gw_LobOrderQueue g)" for x
    by (simp add: publish_def offer_simps Let_def)
  let ?g1 = "gw_log H GATEWAY_RECEIVE_USER_ORDER (gtsc H (gclk g)) (VUserOrder order) (g\<lparr>gclk := Suc (gclk g)\<rparr>)"
  have ok1: "ids_ok ?g1" "gw_next_system_id ?g1 < gw_size" using ok room by (simp_all add: ids_ok_def)
  obtain g2 where g2: "AssignSystemId ?g1 (uo_order_id order) = Inr (gw_next_system_id ?g1, g2)"
    "gw_next_system_id g2 = Suc (gw_next_system_id ?g1)"
    "gw_LUT g2 = (gw_LUT ?g1)(gw_next_system_id ?g1 := uo_order_id order)"
    "g2 = ?g1\<lparr>gw_next_system_id := Suc (gw_next_system_id ?g1), gw_map := gw_map g2, gw_LUT := gw_LUT g2\<rparr>"
    by (rule AssignSystemId_ok [OF ok1])
  have same: "gw_LobOrderQueue g2 = gw_LobOrderQueue g" "gw_order_gateway_time g2 = gw_order_gateway_time g"
    by (subst g2(4), simp)+
  have "gatewayOrderProcess H order g = Inr (g2\<lparr>gw_LobOrderQueue := gw_LobOrderQueue g, gacc := Suc (gacc g2)\<rparr>)"
    using g2(1) stopped by (simp add: gatewayOrderProcess_def Let_def same(1) none)
  then show ?thesis using g2(2,3) same(2) room by (simp add: SystemToOrderId_nat)
qed

theorem full_queue_drops_order_witness:
  "\<exists>g'. gatewayOrderProcess demo_gw_hw (demo_user_order 5 (CHR ''c'') 3) (OrderGateway_new 1) = Inr g' \<and>
    SystemToOrderId g' 0 = 5 \<and> published (gw_LobOrderQueue g') = []"
proof -
  have "gw_next_system_id (OrderGateway_new 1) = 0" "port_inv (gw_LobOrderQueue (OrderGateway_new 1))"
    "published (gw_LobOrderQueue (OrderGateway_new 1)) = []"
    "lfq_size (chan (gw_LobOrderQueue (OrderGateway_new 1))) = port_cap (gw_LobOrderQueue (OrderGateway_new 1))"
    by (simp_all add: OrderGateway_new_def port_new_inv)
      (simp_all add: port_new_def port_cap_def LFQueue_new_def lfq_size_def)
  with full_queue_drops_order [OF ids_ok_new, of 1 demo_gw_hw "demo_user_order 5 (CHR ''c'') 3"]
  show ?thesis by (auto simp: gw_size_def demo_gw_hw_def demo_user_order_def)
qed

subsection \<open>Acknowledgements\<close>

text \<open>
  C20. An acknowledgement of the engine is never lost in the gateway: it leaves the engine's queue
  exactly when its translation has been published to the user, which happens when the user's queue
  has room; otherwise it stays the first of the queue.  The translation carries the engine's price,
  quantity, side and status, and the low 32 bits of the order id that the system id leads to.
\<close>
theorem ack_kept_until_delivered:
  assumes ok: "gw_ok g" and acks: "contents (gw_LobAckQueue g) = a # rest" and port: "port_inv (gw_SniperOrderAck g)"
    and id: "unat (la_system_id a) < gw_size"
  shows "\<exists>g' ua. take_ack H g = Inr g' \<and> gw_ok g' \<and>
    ((published (gw_SniperOrderAck g') = published (gw_SniperOrderAck g) @ [ua] \<and> contents (gw_LobAckQueue g') = rest) \<or>
     (published (gw_SniperOrderAck g') = published (gw_SniperOrderAck g) \<and> contents (gw_LobAckQueue g') = a # rest \<and>
      port_cap (gw_SniperOrderAck g) \<le> length (published (gw_SniperOrderAck g)))) \<and>
    ua = \<lparr>ua_order_id = ucast (SystemToOrderId g (int (unat (la_system_id a)))), ua_price = la_price a,
      ua_quantity = la_quantity a, ua_side = la_side a, ua_status = la_status a\<rparr>"
proof -
  obtain g' sent where g': "take_ack H g = Inr g'" "gw_ok g'"
    "published (gw_SniperOrderAck g') = published (gw_SniperOrderAck g) @ (if sent then [user_ack_of g a] else [])"
    "contents (gw_LobAckQueue g') = (if sent then rest else a # rest)"
    "length (published (gw_SniperOrderAck g)) < port_cap (gw_SniperOrderAck g) \<longrightarrow> sent"
    by (rule take_ack_correct [OF ok acks port])
  have "int_of_size (unat (la_system_id a)) = int (unat (la_system_id a))"
    using id by (simp add: gw_size_def)
  then have "user_ack_of g a = \<lparr>ua_order_id = ucast (SystemToOrderId g (int (unat (la_system_id a)))),
      ua_price = la_price a, ua_quantity = la_quantity a, ua_side = la_side a, ua_status = la_status a\<rparr>"
    by (simp add: user_ack_of_def)
  with g' show ?thesis by (cases sent) (auto simp: not_less)
qed

definition demo_ack :: LOBAck where
  "demo_ack = \<lparr>la_system_id = 0, la_price = 0x41200000, la_quantity = 3, la_side = CHR ''b'', la_status = CHR ''T''\<rparr>"

theorem ack_kept_until_delivered_witness:
  "\<exists>g g'. contents (gw_LobAckQueue g) = [demo_ack] \<and> take_ack demo_gw_hw g = Inr g' \<and>
    (contents (gw_LobAckQueue g') = [] \<or> contents (gw_LobAckQueue g') = [demo_ack])"
proof -
  let ?g = "(OrderGateway_new 4)\<lparr>gw_LobAckQueue :=
    \<lparr>store = [demo_ack, LOBAck_init], next_write_index = 1, next_read_index = 0\<rparr>\<rparr>"
  have "ids_ok ?g" using ids_ok_new [of 4] by (simp add: ids_ok_def)
  then have "gw_ok ?g"
    by (simp add: gw_ok_def OrderGateway_new_def LFQueue_new_inv) (simp add: lfq_inv_def)
  moreover have "contents (gw_LobAckQueue ?g) = [demo_ack]" using demo_user_queue(1) by simp
  moreover have "port_inv (gw_SniperOrderAck ?g)" by (simp add: OrderGateway_new_def port_new_inv)
  moreover have "unat (la_system_id demo_ack) < gw_size" by (simp add: demo_ack_def gw_size_def)
  ultimately have "\<exists>g'. take_ack demo_gw_hw ?g = Inr g' \<and>
      (contents (gw_LobAckQueue g') = [] \<or> contents (gw_LobAckQueue g') = [demo_ack])"
    using ack_kept_until_delivered [of ?g demo_ack "[]" demo_gw_hw] by blast
  with \<open>contents (gw_LobAckQueue ?g) = [demo_ack]\<close> show ?thesis by blast
qed

end
