(* ===== verification/Logger.thy ===== *)
theory Logger
  imports Messages LFQueue
begin

text \<open>
  \<open>header/logger.h\<close>: the asynchronous logger.  A \<open>char*\<close> that a function writes through and
  returns is the text it has written; \<open>drainBatch\<close> checks the text of its batch against the
  64 KB stack buffer after each element.  The file is the text written to it.

  Conversions follow the source: \<open>convert_u64_to_str\<close> fills a 24 byte array from the back (a
  fault when it runs out), \<open>float_to_char\<close> casts to \<open>int\<close> (a fault when the value does not fit),
  hands a negative \<open>int\<close> on as a \<open>uint64_t\<close>, and takes two decimals from a \<open>float\<close> product.
\<close>

subsection \<open>Float operations of the formatter\<close>

text \<open>\<open>int(num)\<close>.\<close>

definition f32_to_int :: "f32 \<Rightarrow> int result" where
  "f32_to_int x =
     (case f32_decode x of
        FNaN \<Rightarrow> Inl BadCast
      | FInf _ \<Rightarrow> Inl BadCast
      | FFin s m e \<Rightarrow>
          let t = int (trunc_val m e); i = (if s then - t else t)
          in if - (2 ^ 31) \<le> i \<and> i < 2 ^ 31 then Inr i else Inl BadCast)"

definition f32_of_int :: "int \<Rightarrow> f32" where
  "f32_of_int i = f32_round (i < 0) (nat \<bar>i\<bar>) 0"

definition signed_mant :: "bool \<Rightarrow> nat \<Rightarrow> int" where
  "signed_mant s m = (if s then - int m else int m)"

definition f32_sub :: "f32 \<Rightarrow> f32 \<Rightarrow> f32" where
  "f32_sub a b =
     (case (f32_decode a, f32_decode b) of
        (FNaN, _) \<Rightarrow> f32_nan
      | (_, FNaN) \<Rightarrow> f32_nan
      | (FInf s, FInf t) \<Rightarrow> if s = t then f32_nan else a
      | (FInf _, _) \<Rightarrow> a
      | (FFin _ _ _, FInf t) \<Rightarrow> word_of_nat ((if t then 0 else 2 ^ 31) + f32_inf_bits)
      | (FFin s m e, FFin t m' e') \<Rightarrow>
          let k = min e e';
              x = signed_mant s m * 2 ^ nat (e - k) - signed_mant t m' * 2 ^ nat (e' - k)
          in f32_round (x < 0) (nat \<bar>x\<bar>) k)"

subsection \<open>Text\<close>

definition digit_char :: "int \<Rightarrow> char" where
  "digit_char d = char_of (nat ((48 + d) mod 256))"

text \<open>\<open>p\<close> is the index of the pointer into the 24 byte array.\<close>

fun u64_loop :: "nat \<Rightarrow> nat \<Rightarrow> string \<Rightarrow> string result" where
  "u64_loop value 0 t = Inl OutOfBounds"
| "u64_loop value (Suc p) t =
     (let t' = digit_char (int (value mod 10)) # t; value' = value div 10
      in if 0 < value' then u64_loop value' p t' else Inr t')"

definition convert_u64_to_str :: "u64 \<Rightarrow> string result" where
  "convert_u64_to_str value = u64_loop (unat value) 23 []"

definition float_to_char :: "f32 \<Rightarrow> string result" where
  "float_to_char num =
     bindR (f32_to_int num) (\<lambda>int_part.
       bindR (convert_u64_to_str (word_of_int int_part)) (\<lambda>t.
         bindR (f32_to_int (f32_mul (f32_sub num (f32_of_int int_part)) (f32_of_nat 100))) (\<lambda>f.
           let frac_part = (if f < 0 then - f else f)
           in Inr (t @ ''.'' @ [digit_char (frac_part div 10), digit_char (frac_part mod 10)]))))"

definition NL :: string where
  "NL = [CHR 0x0A]"

text \<open>A labelled line: \<open>write_string\<close>, the value, a line feed.\<close>

definition line :: "string \<Rightarrow> string result \<Rightarrow> string result" where
  "line label v = bindR v (\<lambda>t. Inr (label @ t @ NL))"

fun lines :: "string result list \<Rightarrow> string result" where
  "lines [] = Inr []"
| "lines (l # ls) = bindR l (\<lambda>t. bindR (lines ls) (\<lambda>u. Inr (t @ u)))"

definition write_UserOrder :: "UserOrder \<Rightarrow> string result" where
  "write_UserOrder order =
     lines [line ''UserOrder Arrived_cycle count : '' (convert_u64_to_str (uo_arrived_cycle_count order)),
            line ''UserOrder id '' (convert_u64_to_str (uo_order_id order)),
            line ''Trade id '' (convert_u64_to_str (ucast (uo_trader_id order))),
            line ''req_type '' (Inr [uo_req_type order]),
            line ''price '' (float_to_char (uo_price order)),
            line ''quantity '' (convert_u64_to_str (uo_quantity order)),
            line ''out cycle count '' (convert_u64_to_str (uo_out_cycle_count order))]"

definition write_LOBOrder :: "LOBOrder \<Rightarrow> string result" where
  "write_LOBOrder lobOrder =
     lines [line ''arrival_cycle_count '' (convert_u64_to_str (arrival_cycle_count lobOrder)),
            line ''LOB System_id '' (convert_u64_to_str (ucast (system_id lobOrder))),
            line ''LOB price '' (float_to_char (price lobOrder)),
            line ''LOB quantity '' (convert_u64_to_str (ucast (quantity lobOrder))),
            line ''lob ordertype '' (Inr [order_type lobOrder]),
            line ''lob req_type '' (Inr [req_type lobOrder]),
            line ''lob trade id '' (convert_u64_to_str (ucast (trade_id lobOrder))),
            line ''Out of Cycle '' (convert_u64_to_str (out_cycle_count lobOrder))]"

definition write_lobAck :: "LOBAck \<Rightarrow> string result" where
  "write_lobAck lback =
     lines [line ''System id '' (convert_u64_to_str (ucast (la_system_id lback))),
            line ''Price '' (float_to_char (la_price lback)),
            line ''Quantity '' (convert_u64_to_str (ucast (la_quantity lback))),
            line ''side '' (Inr [la_side lback]),
            line ''Status '' (Inr [la_status lback])]"

definition write_UsrAck :: "UserAck \<Rightarrow> string result" where
  "write_UsrAck usrAck =
     lines [line ''Order id '' (convert_u64_to_str (ucast (ua_order_id usrAck))),
            line ''Price '' (float_to_char (ua_price usrAck)),
            line ''Quantity '' (convert_u64_to_str (ucast (ua_quantity usrAck))),
            line ''side '' (Inr [ua_side usrAck]),
            line ''Status '' (Inr [ua_status usrAck])]"

text \<open>\<open>std::get\<close> on a variant that holds another alternative throws in a \<open>noexcept\<close> function.\<close>

definition get_LOBOrder :: "log_variant \<Rightarrow> LOBOrder result" where
  "get_LOBOrder v = (case v of VLOBOrder x \<Rightarrow> Inr x | _ \<Rightarrow> Inl BadVariant)"

definition get_UserOrder :: "log_variant \<Rightarrow> UserOrder result" where
  "get_UserOrder v = (case v of VUserOrder x \<Rightarrow> Inr x | _ \<Rightarrow> Inl BadVariant)"

definition get_UserAck :: "log_variant \<Rightarrow> UserAck result" where
  "get_UserAck v = (case v of VUserAck x \<Rightarrow> Inr x | _ \<Rightarrow> Inl BadVariant)"

definition get_LOBAck :: "log_variant \<Rightarrow> LOBAck result" where
  "get_LOBAck v = (case v of VLOBAck x \<Rightarrow> Inr x | _ \<Rightarrow> Inl BadVariant)"

text \<open>The \<open>switch\<close> of \<open>drainBatch\<close>.\<close>

definition write_payload :: "u64 \<Rightarrow> log_variant \<Rightarrow> string result" where
  "write_payload lid v =
     (if lid = 1 then bindR (bindR (get_UserOrder v) write_UserOrder) (\<lambda>t. Inr (t @ '' ''))
      else if lid \<in> {2, 3, 4, 5} then bindR (bindR (get_LOBOrder v) write_LOBOrder) (\<lambda>t. Inr (t @ '' ''))
      else if lid \<in> {6, 7} then bindR (get_LOBOrder v) write_LOBOrder
      else if lid \<in> {8, 9} then bindR (get_LOBAck v) write_lobAck
      else if lid = 10 then bindR (get_UserAck v) write_UsrAck
      else Inr [])"

definition write_element :: "LogElement \<Rightarrow> string result" where
  "write_element elem =
     lines [line ''Log ID '' (convert_u64_to_str (log_id elem)),
            line ''Timestamp '' (convert_u64_to_str (timestamp elem)),
            write_payload (log_id elem) (log_data elem),
            Inr NL]"

subsection \<open>Draining a queue\<close>

definition BUFFER :: nat where
  "BUFFER = 65536"

text \<open>The \<open>while\<close> of \<open>drainBatch\<close>; the first argument is \<open>limit - count\<close>.\<close>

fun drain_loop :: "nat \<Rightarrow> LogElement LFQueue \<Rightarrow> string \<Rightarrow> (LogElement LFQueue \<times> string) result" where
  "drain_loop 0 q buffer = Inr (q, buffer)"
| "drain_loop (Suc k) q buffer =
     (if BUFFER - 1024 \<le> length buffer then Inr (q, buffer)
      else case getNextToRead q of
        None \<Rightarrow> Inr (q, buffer)
      | Some i \<Rightarrow>
          bindR (write_element (read_slot i q)) (\<lambda>t.
            if BUFFER < length (buffer @ t) then Inl OutOfBounds
            else bindR (updateReadIndex q) (\<lambda>q'. drain_loop k q' (buffer @ t))))"

text \<open>The result says whether anything was read.\<close>

definition drainBatch :: "LogElement LFQueue \<Rightarrow> string \<Rightarrow> nat \<Rightarrow> (bool \<times> LogElement LFQueue \<times> string) result" where
  "drainBatch q file limit =
     bindR (drain_loop limit q []) (\<lambda>(q', buffer). Inr (buffer \<noteq> [], q', file @ buffer))"

record Async_Logger =
  matching_engine_queue :: "LogElement LFQueue"
  order_gateway_queue :: "LogElement LFQueue"
  file_text :: string

definition LIMIT :: nat where
  "LIMIT = 100"

text \<open>One turn of the loop in \<open>run\<close>.\<close>

definition logger_turn :: "Async_Logger \<Rightarrow> Async_Logger result" where
  "logger_turn a =
     bindR (drainBatch (matching_engine_queue a) (file_text a) LIMIT) (\<lambda>(_, q1, f1).
       bindR (drainBatch (order_gateway_queue a) f1 LIMIT) (\<lambda>(_, q2, f2).
         Inr (a\<lparr>matching_engine_queue := q1, order_gateway_queue := q2, file_text := f2\<rparr>)))"

text \<open>
  \<open>run\<close>: nothing when the file cannot be opened; otherwise the file is emptied and the loop turns \<open>k\<close>
  times before it sees that \<open>stop\<close> cleared \<open>running\<close>.
\<close>

fun logger_turns :: "nat \<Rightarrow> Async_Logger \<Rightarrow> Async_Logger result" where
  "logger_turns 0 a = Inr a"
| "logger_turns (Suc k) a = bindR (logger_turn a) (logger_turns k)"

definition logger_run :: "bool \<Rightarrow> nat \<Rightarrow> Async_Logger \<Rightarrow> Async_Logger result" where
  "logger_run opened k a = (if opened then logger_turns k (a\<lparr>file_text := []\<rparr>) else Inr a)"

end
