(* ===== verification/LoggerProofs.thy ===== *)
theory LoggerProofs
  imports Logger
begin

text \<open>
  The logger: decimal numbers are written so that they can be read back, no element overruns the
  batch buffer, and a batch writes the oldest elements of the queue, in order, and removes them.
\<close>

subsection \<open>Decimal numbers\<close>

fun decimal :: "nat \<Rightarrow> string" where
  "decimal n = (if n < 10 then [digit_char (int n)] else decimal (n div 10) @ [digit_char (int (n mod 10))])"

declare decimal.simps [simp del]

definition digit_value :: "char \<Rightarrow> nat" where
  "digit_value c = of_char c - 48"

definition read_decimal :: "string \<Rightarrow> nat" where
  "read_decimal t = foldl (\<lambda>a c. 10 * a + digit_value c) 0 t"

lemma digit_value_char: "d < 10 \<Longrightarrow> digit_value (digit_char (int d)) = d"
  by (simp add: digit_value_def digit_char_def)

lemma read_decimal_append: "read_decimal (t @ [c]) = 10 * read_decimal t + digit_value c"
  by (simp add: read_decimal_def)

lemma read_decimal_decimal: "read_decimal (decimal n) = n"
proof (induction n rule: decimal.induct)
  case (1 n)
  show ?case
  proof (cases "n < 10")
    case True
    then show ?thesis by (simp add: decimal.simps [of n] read_decimal_def digit_value_char)
  next
    case False
    with 1 show ?thesis
      by (simp add: decimal.simps [of n] read_decimal_append digit_value_char)
  qed
qed

lemma decimal_length: "n < 10 ^ Suc k \<Longrightarrow> length (decimal n) \<le> Suc k"
proof (induction k arbitrary: n)
  case 0
  then show ?case by (simp add: decimal.simps [of n])
next
  case (Suc k)
  show ?case
  proof (cases "n < 10")
    case False
    have "n div 10 < 10 ^ Suc k" using Suc.prems by (simp add: div_less_iff_less_mult)
    with Suc.IH [of "n div 10"] False show ?thesis by (simp add: decimal.simps [of n])
  qed (simp add: decimal.simps [of n])
qed

text \<open>The loop never runs out of the array: a 64 bit number has at most 20 digits.\<close>

lemma u64_loop_decimal:
  assumes "v < 10 ^ p" and "0 < p"
  shows "u64_loop v p t = Inr (decimal v @ t)"
  using assms
proof (induction v p t rule: u64_loop.induct)
  case (2 v p t)
  let ?t = "digit_char (int (v mod 10)) # t"
  show ?case
  proof (cases "0 < v div 10")
    case True
    have lt: "v div 10 < 10 ^ p" using "2.prems"(1) by (simp add: div_less_iff_less_mult)
    have "0 < p"
    proof (rule ccontr)
      assume "\<not> 0 < p"
      with lt True show False by simp
    qed
    moreover have "\<not> v < 10" using True by (simp add: div_eq_0_iff)
    ultimately show ?thesis
      using "2.IH" [OF refl refl True lt] True by (simp add: decimal.simps [of v] Let_def)
  next
    case False
    then have "v < 10" by (simp add: div_eq_0_iff)
    with False show ?thesis by (simp add: decimal.simps [of v] Let_def)
  qed
qed simp

lemma convert_u64_decimal: "convert_u64_to_str v = Inr (decimal (unat v))"
proof -
  have "unat v < 2 ^ 64" using unsigned_less [of v, where ?'a = nat] by simp
  then have "unat v < 10 ^ 23" by simp
  then show ?thesis by (simp add: convert_u64_to_str_def u64_loop_decimal)
qed

lemma convert_u64_length: "convert_u64_to_str v = Inr t \<Longrightarrow> length t \<le> 20"
proof -
  have "unat v < 2 ^ 64" using unsigned_less [of v, where ?'a = nat] by simp
  then have "unat v < 10 ^ Suc 19" by simp
  then have "length (decimal (unat v)) \<le> 20" using decimal_length [of "unat v" 19] by simp
  then show "convert_u64_to_str v = Inr t \<Longrightarrow> length t \<le> 20" by (auto simp: convert_u64_decimal)
qed

subsection \<open>Lengths\<close>

definition bounded :: "nat \<Rightarrow> string result \<Rightarrow> bool" where
  "bounded n r = (case r of Inl _ \<Rightarrow> True | Inr t \<Rightarrow> length t \<le> n)"

lemma bounded_u64: "bounded 20 (convert_u64_to_str v)"
  using convert_u64_length by (auto simp: bounded_def split: sum.splits)

lemma bounded_char: "bounded 1 (Inr [c])"
  by (simp add: bounded_def)

lemma bounded_line: "bounded n v \<Longrightarrow> bounded (length label + n + 1) (line label v)"
  by (auto simp: bounded_def line_def NL_def bindR_def split: sum.splits)

lemma bounded_Nil: "bounded 0 (lines [])"
  by (simp add: bounded_def)

lemma bounded_Cons: "bounded m l \<Longrightarrow> bounded n (lines ls) \<Longrightarrow> bounded (m + n) (lines (l # ls))"
  by (auto simp: bounded_def bindR_def split: sum.splits)

lemma bounded_float: "bounded 23 (float_to_char x)"
proof -
  have "length t \<le> 23" if "float_to_char x = Inr t" for t
  proof -
    from that obtain i u d e where "convert_u64_to_str (word_of_int i) = Inr u" "t = u @ ''.'' @ [d, e]"
      by (auto simp: float_to_char_def bindR_eq_Inr Let_def)
    with convert_u64_length [of "word_of_int i" u] show ?thesis by simp
  qed
  then show ?thesis by (auto simp: bounded_def split: sum.splits)
qed

lemma bounded_mono: "bounded m r \<Longrightarrow> m \<le> n \<Longrightarrow> bounded n r"
  by (auto simp: bounded_def split: sum.splits)

lemma bounded_bind: "(\<And>x. r = Inr x \<Longrightarrow> bounded n (f x)) \<Longrightarrow> bounded n (bindR r f)"
  by (cases r) (simp_all add: bounded_def)

lemma bounded_tail: "bounded m r \<Longrightarrow> bounded (m + length u) (bindR r (\<lambda>t. Inr (t @ u)))"
  by (auto simp: bounded_def bindR_def split: sum.splits)

lemmas bounded_lines = bounded_Cons [OF bounded_line [OF bounded_u64]] bounded_Cons [OF bounded_line [OF bounded_char]]
  bounded_Cons [OF bounded_line [OF bounded_float]]

lemma bounded_payloads:
  "bounded 300 (write_UserOrder u)" "bounded 300 (write_LOBOrder x)"
  "bounded 300 (write_lobAck a)" "bounded 300 (write_UsrAck k)"
proof -
  show "bounded 300 (write_UserOrder u)" unfolding write_UserOrder_def
    by (rule bounded_mono, (rule bounded_lines bounded_Nil)+, simp)
  show "bounded 300 (write_LOBOrder x)" unfolding write_LOBOrder_def
    by (rule bounded_mono, (rule bounded_lines bounded_Nil)+, simp)
  show "bounded 300 (write_lobAck a)" unfolding write_lobAck_def
    by (rule bounded_mono, (rule bounded_lines bounded_Nil)+, simp)
  show "bounded 300 (write_UsrAck k)" unfolding write_UsrAck_def
    by (rule bounded_mono, (rule bounded_lines bounded_Nil)+, simp)
qed

lemma bounded_payload: "bounded 301 (write_payload l v)"
proof -
  have space: "bounded 301 (bindR r (\<lambda>t. Inr (t @ '' '')))" if "bounded 300 r" for r
    using bounded_tail [OF that, of "'' ''"] by simp
  have up: "bounded 301 r" if "bounded 300 r" for r using that by (rule bounded_mono) simp
  have p: "bounded 300 (bindR (get_UserOrder v) write_UserOrder)" "bounded 300 (bindR (get_LOBOrder v) write_LOBOrder)"
    "bounded 300 (bindR (get_LOBAck v) write_lobAck)" "bounded 300 (bindR (get_UserAck v) write_UsrAck)"
    by (intro bounded_bind bounded_payloads)+
  show ?thesis
    unfolding write_payload_def
    using space [OF p(1)] space [OF p(2)] up [OF p(2)] up [OF p(3)] up [OF p(4)]
    by (simp add: bounded_def [of _ "Inr []"])
qed

text \<open>One element takes less than the 1024 bytes the source keeps in reserve.\<close>

lemma bounded_element: "bounded 400 (write_element e)"
proof -
  have nl: "bounded 1 (Inr NL)" by (simp add: bounded_def NL_def)
  show ?thesis
    unfolding write_element_def
    by (rule bounded_mono, rule bounded_lines, rule bounded_lines, rule bounded_Cons [OF bounded_payload],
        rule bounded_Cons [OF nl], rule bounded_Nil, simp)
qed

subsection \<open>Draining\<close>

text \<open>
  An element the logger can write: its payload is the alternative its id stands for, and its
  price can be formatted.
\<close>

definition printable :: "f32 \<Rightarrow> bool" where
  "printable x = (case float_to_char x of Inl _ \<Rightarrow> False | Inr _ \<Rightarrow> True)"

definition writable :: "LogElement \<Rightarrow> bool" where
  "writable e \<longleftrightarrow> log_typed e \<and> printable (price_in (log_data e))"

definition render :: "LogElement \<Rightarrow> string" where
  "render e = (case write_element e of Inl _ \<Rightarrow> [] | Inr t \<Rightarrow> t)"

lemma lines_ok: "(\<And>l. l \<in> set ls \<Longrightarrow> \<exists>t. l = Inr t) \<Longrightarrow> \<exists>t. lines ls = Inr t"
proof (induction ls)
  case (Cons l ls)
  obtain t where "l = Inr t" using Cons.prems [of l] by auto
  moreover obtain u where "lines ls = Inr u" using Cons.IH Cons.prems by auto
  ultimately show ?case by simp
qed simp

lemma line_ok: "v = Inr t \<Longrightarrow> \<exists>u. line label v = Inr u"
  by (simp add: line_def)

lemma line_u64_ok: "\<exists>u. line label (convert_u64_to_str v) = Inr u"
  by (rule line_ok [OF convert_u64_decimal])

lemma line_char_ok: "\<exists>u. line label (Inr [c]) = Inr u"
  by (rule line_ok) simp

lemma line_price_ok: "printable x \<Longrightarrow> \<exists>u. line label (float_to_char x) = Inr u"
  by (auto simp: printable_def line_def split: sum.splits)

lemma payloads_ok:
  "printable (uo_price u) \<Longrightarrow> \<exists>t. write_UserOrder u = Inr t"
  "printable (price x) \<Longrightarrow> \<exists>t. write_LOBOrder x = Inr t"
  "printable (la_price a) \<Longrightarrow> \<exists>t. write_lobAck a = Inr t"
  "printable (ua_price k) \<Longrightarrow> \<exists>t. write_UsrAck k = Inr t"
  unfolding write_UserOrder_def write_LOBOrder_def write_lobAck_def write_UsrAck_def
  by (rule lines_ok, auto simp only: set_simps insert_iff empty_iff
      intro: line_u64_ok line_char_ok line_price_ok)+

lemma tail_ok: "\<exists>t. r = Inr t \<Longrightarrow> \<exists>t. bindR r (\<lambda>t. Inr (t @ u)) = Inr t"
  by auto

lemma write_element_ok:
  assumes "writable e"
  shows "write_element e = Inr (render e)" and "length (render e) \<le> 400" and "render e \<noteq> []"
proof -
  have pay: "\<exists>t. write_payload (log_id e) (log_data e) = Inr t"
    using assms payloads_ok
    by (cases "log_data e")
      (auto simp: writable_def log_typed_def log_id_defs price_in_def write_payload_def get_UserOrder_def
        get_LOBOrder_def get_LOBAck_def get_UserAck_def intro!: tail_ok)
  have "\<exists>t. write_element e = Inr t"
    unfolding write_element_def
    by (rule lines_ok) (use pay line_u64_ok in auto)
  then obtain t where t: "write_element e = Inr t" by blast
  then have r: "render e = t" by (simp add: render_def)
  with t show "write_element e = Inr (render e)" by simp
  show "length (render e) \<le> 400" using bounded_element [of e] t r by (simp add: bounded_def)
  show "render e \<noteq> []"
    using t r by (auto simp: write_element_def bindR_eq_Inr NL_def)
qed

text \<open>The text of an element whose payload is not the one its id asks for cannot be made.\<close>

lemma wrong_payload:
  assumes "\<not> log_typed e" and "log_id e \<in> {1, 2, 3, 4, 5, 6, 7, 8, 9, 10}"
  shows "write_element e = Inl BadVariant"
proof -
  have "write_payload (log_id e) (log_data e) = Inl BadVariant"
    using assms
    by (cases "log_data e")
      (auto simp: log_typed_def log_id_defs write_payload_def get_UserOrder_def get_LOBOrder_def get_LOBAck_def
        get_UserAck_def)
  then show ?thesis by (simp add: write_element_def line_def convert_u64_decimal)
qed

text \<open>
  A batch of at most 100 elements never fills the buffer, so what ends it is the limit or the
  empty queue; it writes the oldest elements, in order, and removes exactly those.
\<close>

text \<open>All a batch needs is that the text of each element can be made.\<close>

definition prints :: "LogElement \<Rightarrow> bool" where
  "prints e \<longleftrightarrow> write_element e = Inr (render e)"

lemma writable_prints: "writable e \<Longrightarrow> prints e"
  by (simp add: prints_def write_element_ok(1))

lemma printsD:
  assumes "prints e"
  shows "write_element e = Inr (render e)" and "length (render e) \<le> 400" and "render e \<noteq> []"
proof -
  show w: "write_element e = Inr (render e)" using assms by (simp add: prints_def)
  then show "length (render e) \<le> 400" using bounded_element [of e] by (simp add: bounded_def)
  show "render e \<noteq> []" using w by (auto simp: write_element_def bindR_eq_Inr NL_def)
qed

lemma drain_loop_correct:
  assumes "lfq_inv q" and "\<forall>e \<in> set (contents q). prints e" and "length buffer + 400 * k \<le> BUFFER - 1024"
  shows "\<exists>q'. drain_loop k q buffer = Inr (q', buffer @ concat (map render (take k (contents q)))) \<and>
    lfq_inv q' \<and> contents q' = drop k (contents q) \<and> length (store q') = length (store q)"
  using assms
proof (induction k arbitrary: q buffer)
  case (Suc k)
  show ?case
  proof (cases "getNextToRead q")
    case None
    then have "contents q = []" using empty_iff_contents [OF Suc.prems(1)] by simp
    with None Suc.prems(1) show ?thesis by simp
  next
    case (Some i)
    obtain q1 where up: "updateReadIndex q = Inr q1" using updateReadIndex_after_get(2) [OF Some] by blast
    note R = release_contents [OF Suc.prems(1) Some up]
    let ?e = "read_slot i q"
    have w: "prints ?e" using Suc.prems(2) R(2) by simp
    note W = printsD [OF w]
    have "length buffer < BUFFER - 1024" "length (buffer @ render ?e) \<le> BUFFER"
      "length (buffer @ render ?e) + 400 * k \<le> BUFFER - 1024"
      using Suc.prems(3) W(2) by (simp_all add: BUFFER_def)
    moreover from this(3) Suc.prems(2) R(1,2) obtain q' where
      "drain_loop k q1 (buffer @ render ?e) = Inr (q', (buffer @ render ?e) @ concat (map render (take k (contents q1))))"
      "lfq_inv q'" "contents q' = drop k (contents q1)" "length (store q') = length (store q1)"
      using Suc.IH [OF R(1), of "buffer @ render ?e"] by auto
    ultimately show ?thesis using Some up W(1) R(2,3) by simp
  qed
qed simp

text \<open>An element whose text cannot be made ends the batch with its fault, once the batch gets to it.\<close>

lemma drain_loop_fault:
  assumes "lfq_inv q" and "contents q = xs @ x # rest" and "\<forall>e \<in> set xs. prints e" and "write_element x = Inl f"
    and "length xs < k" and "length buffer + 400 * length xs < BUFFER - 1024"
  shows "drain_loop k q buffer = Inl f"
  using assms
proof (induction k arbitrary: q xs buffer)
  case (Suc k)
  have "getNextToRead q \<noteq> None" using empty_iff_contents [OF Suc.prems(1)] Suc.prems(2) by simp
  then obtain i where i: "getNextToRead q = Some i" by blast
  obtain q1 where up: "updateReadIndex q = Inr q1" using updateReadIndex_after_get(2) [OF i] by blast
  note R = release_contents [OF Suc.prems(1) i up]
  show ?case
  proof (cases xs)
    case Nil
    then have "read_slot i q = x" using R(2) Suc.prems(2) by simp
    then show ?thesis using Suc.prems(4,6) i by simp
  next
    case (Cons y ys)
    then have y: "read_slot i q = y" "contents q1 = ys @ x # rest" using R(2) Suc.prems(2) by simp_all
    have "prints y" using Suc.prems(3) Cons by simp
    note W = printsD [OF this]
    have "length buffer < BUFFER - 1024" "length (buffer @ render y) \<le> BUFFER"
      "length (buffer @ render y) + 400 * length ys < BUFFER - 1024"
      using Suc.prems(6) W(2) Cons by (simp_all add: BUFFER_def)
    moreover from this(3) have "drain_loop k q1 (buffer @ render y) = Inl f"
      using Suc.IH [OF R(1) y(2)] Suc.prems(3-5) Cons by simp
    ultimately show ?thesis using i up W(1) y(1) by simp
  qed
qed simp

lemma drainBatch_correct:
  assumes inv: "lfq_inv q" and ok: "\<forall>e \<in> set (contents q). prints e"
  obtains q' where "drainBatch q file LIMIT =
      Inr (contents q \<noteq> [], q', file @ concat (map render (take LIMIT (contents q))))"
    and "lfq_inv q'" and "contents q' = drop LIMIT (contents q)" and "length (store q') = length (store q)"
proof -
  have room: "length ([] :: string) + 400 * LIMIT \<le> BUFFER - 1024"
    by (simp add: LIMIT_def BUFFER_def)
  obtain q' where q': "drain_loop LIMIT q [] = Inr (q', [] @ concat (map render (take LIMIT (contents q))))"
    "lfq_inv q'" "contents q' = drop LIMIT (contents q)" "length (store q') = length (store q)"
    using drain_loop_correct [OF inv ok room] by blast
  have "concat (map render (take LIMIT (contents q))) \<noteq> [] \<longleftrightarrow> contents q \<noteq> []"
  proof (cases "contents q")
    case (Cons e es)
    then have "render e \<noteq> []" using ok printsD(3) by simp
    with Cons show ?thesis by (simp add: LIMIT_def)
  qed simp
  with q' that show thesis by (simp add: drainBatch_def)
qed

subsection \<open>Turns of the logger\<close>

definition waiting :: "Async_Logger \<Rightarrow> LogElement set" where
  "waiting a = set (contents (matching_engine_queue a)) \<union> set (contents (order_gateway_queue a))"

definition logger_ok :: "Async_Logger \<Rightarrow> bool" where
  "logger_ok a \<longleftrightarrow> lfq_inv (matching_engine_queue a) \<and> lfq_inv (order_gateway_queue a) \<and>
     (\<forall>e \<in> waiting a. writable e)"

text \<open>What one turn adds to the file.\<close>

definition turn_text :: "LogElement list \<Rightarrow> LogElement list \<Rightarrow> string" where
  "turn_text ms gs = concat (map render (take LIMIT ms @ take LIMIT gs))"

lemma logger_turn_correct:
  assumes "logger_ok a"
  obtains a' where "logger_turn a = Inr a'" and "logger_ok a'"
    and "file_text a' = file_text a @ turn_text (contents (matching_engine_queue a)) (contents (order_gateway_queue a))"
    and "contents (matching_engine_queue a') = drop LIMIT (contents (matching_engine_queue a))"
    and "contents (order_gateway_queue a') = drop LIMIT (contents (order_gateway_queue a))"
    and "length (store (matching_engine_queue a')) = length (store (matching_engine_queue a))"
    and "length (store (order_gateway_queue a')) = length (store (order_gateway_queue a))"
proof -
  let ?q = "matching_engine_queue a" and ?r = "order_gateway_queue a"
  have ok: "lfq_inv ?q" "lfq_inv ?r" "\<forall>e \<in> set (contents ?q). writable e" "\<forall>e \<in> set (contents ?r). writable e"
    using assms by (simp_all add: logger_ok_def waiting_def)
  then have pr: "\<forall>e \<in> set (contents ?q). prints e" "\<forall>e \<in> set (contents ?r). prints e"
    by (simp_all add: writable_prints)
  let ?f = "file_text a @ concat (map render (take LIMIT (contents ?q)))"
  obtain q where q: "drainBatch ?q (file_text a) LIMIT = Inr (contents ?q \<noteq> [], q, ?f)" "lfq_inv q"
    "contents q = drop LIMIT (contents ?q)" "length (store q) = length (store ?q)"
    by (rule drainBatch_correct [OF ok(1) pr(1), of "file_text a"])
  obtain r where r: "drainBatch ?r ?f LIMIT =
      Inr (contents ?r \<noteq> [], r, ?f @ concat (map render (take LIMIT (contents ?r))))" "lfq_inv r"
    "contents r = drop LIMIT (contents ?r)" "length (store r) = length (store ?r)"
    by (rule drainBatch_correct [OF ok(2) pr(2), of ?f])
  let ?a = "a\<lparr>matching_engine_queue := q, order_gateway_queue := r,
    file_text := ?f @ concat (map render (take LIMIT (contents ?r)))\<rparr>"
  have "logger_ok ?a"
    using q(2,3) r(2,3) ok(3,4) by (auto simp: logger_ok_def waiting_def dest: in_set_dropD)
  then show thesis
    by (intro that [of ?a]) (use q r in \<open>simp_all add: logger_turn_def turn_text_def\<close>)
qed

text \<open>The file after \<open>k\<close> turns, when nothing is logged meanwhile.\<close>

fun turns_text :: "nat \<Rightarrow> LogElement list \<Rightarrow> LogElement list \<Rightarrow> string" where
  "turns_text 0 ms gs = []"
| "turns_text (Suc k) ms gs = turn_text ms gs @ turns_text k (drop LIMIT ms) (drop LIMIT gs)"

lemma logger_turns_correct:
  assumes "logger_ok a"
  shows "\<exists>a'. logger_turns k a = Inr a' \<and> logger_ok a' \<and>
    file_text a' = file_text a @ turns_text k (contents (matching_engine_queue a)) (contents (order_gateway_queue a)) \<and>
    contents (matching_engine_queue a') = drop (k * LIMIT) (contents (matching_engine_queue a)) \<and>
    contents (order_gateway_queue a') = drop (k * LIMIT) (contents (order_gateway_queue a))"
  using assms
proof (induction k arbitrary: a)
  case (Suc k)
  obtain a1 where a1: "logger_turn a = Inr a1" "logger_ok a1"
    "file_text a1 = file_text a @ turn_text (contents (matching_engine_queue a)) (contents (order_gateway_queue a))"
    "contents (matching_engine_queue a1) = drop LIMIT (contents (matching_engine_queue a))"
    "contents (order_gateway_queue a1) = drop LIMIT (contents (order_gateway_queue a))"
    by (rule logger_turn_correct [OF Suc.prems])
  with Suc.IH [OF a1(2)] show ?case by (auto simp: drop_drop add.commute)
qed simp

subsection \<open>Two logs in one file\<close>

lemma shuffles_append_one:
  "us \<in> shuffles xs ys \<Longrightarrow> zs @ us \<in> shuffles (zs @ xs) ys"
  "us \<in> shuffles xs ys \<Longrightarrow> zs @ us \<in> shuffles xs (zs @ ys)"
  by (induction zs) (simp_all add: Cons_in_shuffles_leftI Cons_in_shuffles_rightI)

lemma shuffles_append:
  "ws \<in> shuffles xs ys \<Longrightarrow> us \<in> shuffles xs' ys' \<Longrightarrow> ws @ us \<in> shuffles (xs @ xs') (ys @ ys')"
proof (induction xs ys arbitrary: ws rule: shuffles.induct)
  case (3 x xs y ys)
  from "3.prems"(1) show ?case
    by (auto elim!: shufflesE [where xs = "x # xs" and ys = "y # ys"] intro!: Cons_in_shuffles_leftI Cons_in_shuffles_rightI
        dest: "3.IH" [OF _ "3.prems"(2)])
qed (auto intro: shuffles_append_one)

lemma append_in_shuffles: "xs @ ys \<in> shuffles xs ys"
  using shuffles_append_one(1) [of ys "[]" ys xs] by simp

text \<open>The file holds the texts of an interleaving of what was read from the two queues.\<close>

definition file_of :: "LogElement list \<Rightarrow> LogElement list \<Rightarrow> string \<Rightarrow> bool" where
  "file_of ms gs t \<longleftrightarrow> (\<exists>ws \<in> shuffles ms gs. t = concat (map render ws))"

lemma file_of_Nil: "file_of [] [] []"
  by (simp add: file_of_def)

lemma file_of_turn:
  assumes "file_of ms gs t"
  shows "file_of (ms @ take LIMIT ms') (gs @ take LIMIT gs') (t @ turn_text ms' gs')"
proof -
  obtain ws where ws: "ws \<in> shuffles ms gs" "t = concat (map render ws)"
    using assms unfolding file_of_def by blast
  note shuffles_append [OF ws(1) append_in_shuffles [of "take LIMIT ms'" "take LIMIT gs'"]]
  then show ?thesis
    unfolding file_of_def by (rule rev_bexI) (simp add: ws(2) turn_text_def)
qed

end
