(* ===== verification/PriceText.thy ===== *)
theory PriceText
  imports LoggerProofs
begin

text \<open>
  The price text of the logger: every price from 0 up to \<open>2 ^ 31\<close> is written as its integer part in
  decimal, a point and two digits.  The subtraction of the integer part is exact and leaves less
  than 1, and 100 times that rounds to less than 100.
\<close>

lemma f32_to_int_nonneg:
  assumes "f32_nonneg x"
  shows "f32_to_int x =
    (if f32_units x div 2 ^ 149 < 2 ^ 31 then Inr (int (f32_units x div 2 ^ 149)) else Inl BadCast)"
proof -
  obtain m e where x: "f32_decode x = FFin False m e" using assms by (rule f32_nonnegE)
  then have "trunc_val m e = f32_units x div 2 ^ 149"
    by (simp only: trunc_val_units [OF f32_decode_FFin(1) [OF x]] f32_units_def fval.case)
  with x show ?thesis by (simp add: f32_to_int_def)
qed

lemma f32_round_below:
  assumes "c \<le> e" and "c \<le> e'" and "scaled c m e \<le> scaled c m' e'"
    and "f32_decode (f32_round False m' e') = FFin False n k"
  shows "f32_nonneg (f32_round False m e)" and "f32_units (f32_round False m e) \<le> f32_units (f32_round False m' e')"
proof -
  have le: "round_bits 24 (- 149) m e \<le> round_bits 24 (- 149) m' e'"
    by (rule round_bits_mono [OF assms(1-3)]) simp
  have "\<not> f32_inf_bits \<le> round_bits 24 (- 149) m' e'"
    using f32_round_cases(2) [of m' e'] assms(4) by auto
  then have lt: "round_bits 24 (- 149) m' e' < f32_inf_bits" by simp
  note R' = f32_round_cases(1) [OF lt] and R = f32_round_cases(1) [OF le_less_trans [OF le lt]]
  show "f32_nonneg (f32_round False m e)" using R by blast
  show "f32_units (f32_round False m e) \<le> f32_units (f32_round False m' e')"
    by (rule f32_units_mono_bits) (use R R' le in auto)
qed

text \<open>The largest float below 1, and below 100.\<close>

lemma below_one: "f32_decode (f32_round False (2 ^ 24 - 1) (- 24)) = FFin False (2 ^ 24 - 1) (- 24)"
  by (simp add: f32_eval f32_decode_def)

lemma below_hundred:
  "f32_decode (f32_round False ((2 ^ 24 - 1) * (100 * 2 ^ 17)) (- 41)) = FFin False (100 * 2 ^ 17 - 1) (- 17)"
  by (simp add: f32_eval f32_decode_def)

lemma f32_of_nat_100: "f32_decode (f32_of_nat 100) = FFin False (100 * 2 ^ 17) (- 17)"
  by (simp add: f32_eval f32_decode_def)

lemma f32_zero: "f32_round False 0 e = 0" "f32_nonneg 0" "f32_units 0 = 0"
  by (simp_all add: f32_round_def round_bits_def f32_inf_bits_def f32_nonneg_def f32_units_def f32_decode_def
      scaled_def Let_def)

lemma f32_of_int_nat: "f32_of_int (int n) = f32_of_nat n"
  by (simp add: f32_of_int_def f32_of_nat_def)

text \<open>\<open>num - int_part\<close> is what is after the point: \<open>j\<close> units of \<open>2 ^ e\<close>.\<close>

lemma f32_sub_int_part:
  assumes x: "f32_decode x = FFin False m e" and e: "e < 0"
  shows "f32_sub x (f32_of_int (int (trunc_val m e))) = f32_round False (m mod 2 ^ nat (- e)) e"
proof -
  let ?k = "nat (- e)" and ?t = "m div 2 ^ nat (- e)" and ?j = "m mod 2 ^ nat (- e)"
  note D = f32_decode_FFin [OF x]
  have t: "trunc_val m e = ?t" using e by (simp add: trunc_val_def)
  have "?t \<le> m" by (rule div_le_dividend)
  then have small: "?t < 2 ^ 24" using D(3) by linarith
  note T = f32_of_nat_exact [OF small]
  obtain m' e' where d: "f32_decode (f32_of_nat ?t) = FFin False m' e'" using T(1) by (rule f32_nonnegE)
  have u': "scaled (- 149) m' e' = ?t * 2 ^ 149" using T(2) d by (simp add: f32_units_def)
  note D' = f32_decode_FFin [OF d]
  let ?c = "min e e'"
  let ?X = "int m * 2 ^ nat (e - ?c) - int m' * 2 ^ nat (e' - ?c)"
  have c: "- 149 \<le> ?c" using D(1) D'(1) by simp
  have pw: "2 ^ nat (a - ?c) * 2 ^ nat (?c + 149) = (2::'a::comm_semiring_1) ^ nat (a + 149)" if "?c \<le> a" for a
  proof -
    have "nat (a - ?c) + nat (?c + 149) = nat (a + 149)" using that c by linarith
    then show ?thesis by (metis power_add)
  qed
  have "?X * 2 ^ nat (?c + 149) = int m * 2 ^ nat (e + 149) - int m' * 2 ^ nat (e' + 149)"
    by (simp only: left_diff_distrib mult.assoc pw min.cobounded1 min.cobounded2)
  also have "int m' * 2 ^ nat (e' + 149) = int ?t * 2 ^ 149"
    using arg_cong [OF u', of int] by (simp add: scaled_def)
  also have "int m * 2 ^ nat (e + 149) = int ?t * 2 ^ 149 + int ?j * 2 ^ nat (e + 149)"
  proof -
    have "?k + nat (e + 149) = 149" using D(1) e by linarith
    then have "(2::int) ^ ?k * 2 ^ nat (e + 149) = 2 ^ 149" by (metis power_add)
    moreover have "int m = int ?t * 2 ^ ?k + int ?j"
      using div_mult_mod_eq [of m "2 ^ ?k"] by (metis of_nat_add of_nat_mult of_nat_numeral of_nat_power)
    ultimately show ?thesis by (simp only: distrib_right mult.assoc)
  qed
  finally have X: "?X * 2 ^ nat (?c + 149) = int ?j * 2 ^ nat (e + 149)" by simp
  have "0 \<le> ?X"
  proof (rule ccontr)
    assume "\<not> 0 \<le> ?X"
    then have "?X * 2 ^ nat (?c + 149) < 0" by (simp add: mult_less_0_iff)
    moreover have "0 \<le> int ?j * 2 ^ nat (e + 149)" by (intro mult_nonneg_nonneg) simp_all
    ultimately show False using X by linarith
  qed
  then obtain D where XD: "?X = int D" by (metis nonneg_int_cases)
  have DJ: "D * 2 ^ nat (?c + 149) = ?j * 2 ^ nat (e + 149)"
  proof -
    have "int (D * 2 ^ nat (?c + 149)) = int (?j * 2 ^ nat (e + 149))" using X XD by simp
    then show ?thesis by (simp only: of_nat_eq_iff)
  qed
  have "f32_round False D ?c = f32_round False (D * 2 ^ nat (?c + 149)) (?c - int (nat (?c + 149)))"
    by (rule f32_round_scale [symmetric])
  also have "\<dots> = f32_round False (?j * 2 ^ nat (e + 149)) (e - int (nat (e + 149)))"
  proof -
    have "?c - int (nat (?c + 149)) = - 149" "e - int (nat (e + 149)) = - 149" using c D(1) by linarith+
    then show ?thesis unfolding DJ by simp
  qed
  also have "\<dots> = f32_round False ?j e" by (rule f32_round_scale)
  finally have "f32_round False D ?c = f32_round False ?j e" .
  moreover have "f32_sub x (f32_of_nat ?t) = f32_round False D ?c"
    using XD by (simp add: f32_sub_def x d signed_mant_def Let_def)
  ultimately show ?thesis by (simp add: t f32_of_int_nat del: of_nat_div)
qed

lemma part_below_one:
  assumes x: "f32_decode x = FFin False m e" and e: "e < 0"
  shows "scaled (- 149) (m mod 2 ^ nat (- e)) e \<le> scaled (- 149) (2 ^ 24 - 1) (- 24)"
proof -
  let ?k = "nat (- e)" and ?j = "m mod 2 ^ nat (- e)"
  note D = f32_decode_FFin [OF x]
  have j: "?j < 2 ^ ?k" "?j \<le> 2 ^ 24 - 1" using D(3) le_less_trans [OF mod_less_eq_dividend [of m "2 ^ ?k"] D(3)] by simp_all
  show ?thesis
  proof (cases "?k \<le> 24")
    case True
    let ?d = "24 - ?k"
    have n: "nat (e + 149) = ?d + 125" using True e by linarith
    have "?j \<le> 2 ^ ?k - 1" using j(1) by linarith
    then have "?j * 2 ^ ?d \<le> (2 ^ ?k - 1) * 2 ^ ?d" by (rule mult_right_mono) simp
    also have "\<dots> = 2 ^ 24 - 2 ^ ?d" using True by (simp add: diff_mult_distrib flip: power_add)
    also have "\<dots> \<le> 2 ^ 24 - 1" by (intro diff_le_mono2) simp
    finally have "?j * 2 ^ ?d * 2 ^ 125 \<le> (2 ^ 24 - 1) * 2 ^ 125" by (rule mult_right_mono) simp
    then show ?thesis by (simp add: scaled_def n power_add mult.assoc)
  next
    case False
    then have "nat (e + 149) \<le> 125" using e by linarith
    then have "(2::nat) ^ nat (e + 149) \<le> 2 ^ 125" by (rule power_increasing) simp
    with j(2) have "?j * 2 ^ nat (e + 149) \<le> (2 ^ 24 - 1) * 2 ^ 125" by (rule mult_mono) simp_all
    then show ?thesis by (simp add: scaled_def)
  qed
qed

text \<open>100 times what is after the point, as an integer: two digits.\<close>

lemma cents_below_hundred:
  assumes y: "f32_nonneg y" "f32_units y \<le> f32_units (f32_round False (2 ^ 24 - 1) (- 24))"
  shows "\<exists>c < 100. f32_to_int (f32_mul y (f32_of_nat 100)) = Inr (int c)"
proof -
  obtain m e where d: "f32_decode y = FFin False m e" using y(1) by (rule f32_nonnegE)
  have e: "- 149 \<le> e" by (rule f32_decode_FFin(1) [OF d])
  have le: "scaled (- 149) m e \<le> (2 ^ 24 - 1) * 2 ^ 125"
    using y(2) d unfolding f32_units_def below_one by (simp add: scaled_def)
  let ?r = "f32_round False (m * (100 * 2 ^ 17)) (e - 17)"
  let ?h = "f32_round False ((2 ^ 24 - 1) * (100 * 2 ^ 17)) (- 41)"
  have "scaled (- 166) (m * (100 * 2 ^ 17)) (e - 17) = scaled (- 149) m e * (100 * 2 ^ 17)"
    by (simp add: scaled_def add.commute)
  also have "\<dots> \<le> (2 ^ 24 - 1) * 2 ^ 125 * (100 * 2 ^ 17)" using le by (rule mult_right_mono) simp
  also have "\<dots> = scaled (- 166) ((2 ^ 24 - 1) * (100 * 2 ^ 17)) (- 41)" by (simp add: scaled_def)
  finally have s: "scaled (- 166) (m * (100 * 2 ^ 17)) (e - 17) \<le> \<dots>" .
  have "- 166 \<le> e - 17" "- 166 \<le> (- 41 :: int)" using e by simp_all
  note R = f32_round_below [OF this s below_hundred]
  have "f32_units ?h = (100 * 2 ^ 17 - 1) * 2 ^ 132"
    unfolding f32_units_def below_hundred by (simp add: scaled_def)
  with R(2) have "f32_units ?r div 2 ^ 149 \<le> (100 * 2 ^ 17 - 1) * 2 ^ 132 div 2 ^ 149"
    by (metis div_le_mono)
  then have c: "f32_units ?r div 2 ^ 149 < 100" by simp
  have "f32_mul y (f32_of_nat 100) = ?r" by (simp add: f32_mul_def d f32_of_nat_100)
  with f32_to_int_nonneg [OF R(1)] c show ?thesis by auto
qed

lemma float_to_char_eq:
  assumes "f32_to_int x = Inr (int k)" and "unat (word_of_int (int k) :: u64) = k"
    and "f32_to_int (f32_mul (f32_sub x (f32_of_int (int k))) (f32_of_nat 100)) = Inr (int c)"
  shows "float_to_char x = Inr (decimal k @ ''.'' @ [digit_char (int (c div 10)), digit_char (int (c mod 10))])"
  using assms by (simp add: float_to_char_def convert_u64_decimal of_nat_div of_nat_mod Let_def)

lemma float_to_char_digits:
  assumes x: "f32_nonneg x" and small: "f32_units x div 2 ^ 149 < 2 ^ 31"
  shows "\<exists>c < 100. float_to_char x =
    Inr (decimal (f32_units x div 2 ^ 149) @ ''.'' @ [digit_char (int (c div 10)), digit_char (int (c mod 10))])"
proof -
  obtain m e where d: "f32_decode x = FFin False m e" using x by (rule f32_nonnegE)
  let ?t = "f32_units x div 2 ^ 149"
  have t: "trunc_val m e = ?t"
    using d by (simp only: trunc_val_units [OF f32_decode_FFin(1) [OF d]] f32_units_def fval.case)
  have y: "f32_nonneg (f32_sub x (f32_of_int (int ?t))) \<and>
      f32_units (f32_sub x (f32_of_int (int ?t))) \<le> f32_units (f32_round False (2 ^ 24 - 1) (- 24))"
  proof (cases "0 \<le> e")
    case True
    have "f32_of_int (int ?t) = f32_round False (m * 2 ^ nat e) (e - int (nat e))"
      using True unfolding t [symmetric] f32_of_int_nat by (simp add: f32_of_nat_def trunc_val_def)
    also have "\<dots> = x" unfolding f32_round_scale by (rule f32_round_decode [OF d])
    finally have "f32_sub x (f32_of_int (int ?t)) = 0"
      by (simp add: f32_sub_def d signed_mant_def f32_zero)
    then show ?thesis by (simp add: f32_zero)
  next
    case False
    then have e: "e < 0" "- 149 \<le> e" "- 149 \<le> (- 24 :: int)" using f32_decode_FFin(1) [OF d] by simp_all
    note B = f32_round_below [OF e(2,3) part_below_one [OF d e(1)] below_one]
    show ?thesis using f32_sub_int_part [OF d e(1)] B unfolding t by simp
  qed
  then obtain c where c: "c < 100" "f32_to_int (f32_mul (f32_sub x (f32_of_int (int ?t))) (f32_of_nat 100)) = Inr (int c)"
    using cents_below_hundred by blast
  have "?t < 2 ^ 64" by (rule less_trans [OF small]) simp
  then have u: "unat (word_of_int (int ?t) :: u64) = ?t"
    unfolding of_int_of_nat_eq by (rule unat_word_of_nat64)
  have "f32_to_int x = Inr (int ?t)" unfolding f32_to_int_nonneg [OF x] using small by (rule if_P)
  from float_to_char_eq [OF this u c(2)] c(1) show ?thesis by blast
qed

lemma printable_price:
  assumes "f32_nonneg x" and "f32_units x div 2 ^ 149 < 2 ^ 31"
  shows "printable x"
  using float_to_char_digits [OF assms] by (auto simp: printable_def)

end
