(* ===== verification/LoggerProps.thy ===== *)
theory LoggerProps
  imports PriceText Demo
begin

text \<open>
  What the logger promises (\<open>header/logger.h\<close>): numbers and prices are written so that they can be
  read back, an element never overruns the space the batch buffer keeps for it, a turn writes the
  oldest elements of both queues and removes exactly those; and what it does with an element whose
  payload is not the one its id stands for.
\<close>

text \<open>
  A 64 bit number is written without a fault, in at most 20 characters, and reading the text as a
  decimal number gives the number back; different numbers have different texts.
\<close>
theorem number_text_roundtrip:
  "\<exists>t. convert_u64_to_str v = Inr t \<and> length t \<le> 20 \<and> t \<noteq> [] \<and> read_decimal t = unat v \<and>
    (\<forall>w. convert_u64_to_str w = Inr t \<longrightarrow> w = v)"
proof -
  note d = convert_u64_decimal [of v]
  have "w = v" if "convert_u64_to_str w = Inr (decimal (unat v))" for w
    using that read_decimal_decimal [of "unat v"] read_decimal_decimal [of "unat w"]
    by (simp add: convert_u64_decimal word_unat_eq_iff)
  moreover have "decimal n \<noteq> []" for n by (subst decimal.simps) simp
  ultimately show ?thesis using d convert_u64_length [OF d] read_decimal_decimal by blast
qed

theorem number_text_roundtrip_witness:
  "\<exists>t. convert_u64_to_str 1048576 = Inr t \<and> read_decimal t = 1048576"
  using number_text_roundtrip [of 1048576] by auto

text \<open>
  A price from 0 up to \<open>2 ^ 31\<close> is written without a fault as its integer part in decimal, a point
  and exactly two digits; reading what is before the point gives the integer part back.
\<close>
theorem price_text:
  assumes "f32_nonneg x" and "f32_units x < 2 ^ 31 * 2 ^ 149"
  shows "\<exists>t d e. float_to_char x = Inr (t @ ''.'' @ [d, e]) \<and> read_decimal t = f32_units x div 2 ^ 149 \<and>
    digit_value d < 10 \<and> digit_value e < 10"
proof -
  have "f32_units x div 2 ^ 149 < 2 ^ 31"
    using assms(2) by (simp add: div_less_iff_less_mult)
  then obtain c where c: "c < 100" "float_to_char x =
      Inr (decimal (f32_units x div 2 ^ 149) @ ''.'' @ [digit_char (int (c div 10)), digit_char (int (c mod 10))])"
    using float_to_char_digits [OF assms(1)] by blast
  have "c div 10 < 10" using c(1) by simp
  then have "digit_value (digit_char (int (c div 10))) < 10" "digit_value (digit_char (int (c mod 10))) < 10"
    by (simp_all only: digit_value_char mod_less_divisor zero_less_numeral)
  with c(2) read_decimal_decimal show ?thesis by blast
qed

text \<open>The price 110.7.\<close>

definition price_1107 :: f32 where
  "price_1107 = 0x42DD6666"

lemma price_1107_decode: "f32_decode price_1107 = FFin False 14509670 (- 17)"
  by (simp add: price_1107_def f32_decode_def Let_def)

theorem price_text_witness:
  "\<exists>t d e. float_to_char price_1107 = Inr (t @ ''.'' @ [d, e]) \<and> read_decimal t = 110"
proof -
  have "f32_nonneg price_1107" "f32_units price_1107 = 14509670 * 2 ^ 132"
    by (simp_all add: f32_nonneg_def f32_units_def price_1107_decode scaled_def)
  with price_text [of price_1107] show ?thesis by auto
qed

text \<open>
  The two digits are cut off, not rounded: the price 110.7, whose nearest \<open>float\<close> is a little
  below it, is written as 110.69.
\<close>
theorem price_text_loses_cent: "float_to_char price_1107 = Inr ''110.69''"
proof -
  have i: "f32_to_int price_1107 = Inr (int 110)"
    by (simp add: f32_to_int_def price_1107_decode trunc_val_def)
  have u: "unat (word_of_int (int 110) :: u64) = 110" by simp
  have s: "f32_sub price_1107 (f32_of_int (int 110)) = f32_round False (14509670 mod 2 ^ nat 17) (- 17)"
    using f32_sub_int_part [OF price_1107_decode] by (simp add: trunc_val_def)
  have d: "f32_decode (f32_round False (14509670 mod 2 ^ nat 17) (- 17)) = FFin False 11744000 (- 24)"
    by (simp add: f32_eval f32_decode_def)
  have m: "f32_mul (f32_sub price_1107 (f32_of_int (int 110))) (f32_of_nat 100) =
      f32_round False (11744000 * (100 * 2 ^ 17)) (- 41)"
    unfolding s f32_mul_def d f32_of_nat_100 by simp
  have "f32_decode (f32_round False (11744000 * (100 * 2 ^ 17)) (- 41)) = FFin False 9175000 (-17)"
    by (simp add: f32_eval f32_decode_def)
  then have "f32_to_int (f32_mul (f32_sub price_1107 (f32_of_int (int 110))) (f32_of_nat 100)) = Inr (int 69)"
    unfolding m by (simp add: f32_to_int_def trunc_val_def)
  note fmt = float_to_char_eq [OF i u this]
  have "decimal 1 = ''1''" by (subst decimal.simps) (simp add: digit_char_def char_of_def bit_0)
  then have "decimal 11 = ''11''" by (subst decimal.simps) (simp add: digit_char_def char_of_def bit_0)
  then have "decimal 110 = ''110''" by (subst decimal.simps) (simp add: digit_char_def char_of_def bit_0)
  then show ?thesis unfolding fmt by (simp add: digit_char_def char_of_def bit_0)
qed

text \<open>
  C32. The text of one element, whatever its payload holds, has at most 400 characters, so it fits
  into the 1024 bytes that the batch buffer keeps free; a batch never writes past the buffer.
\<close>
theorem element_fits_reserve:
  "(\<forall>t. write_element e = Inr t \<longrightarrow> length t \<le> 400) \<and>
    (\<forall>buffer t. length buffer < BUFFER - 1024 \<longrightarrow> write_element e = Inr t \<longrightarrow> length (buffer @ t) \<le> BUFFER)"
  using bounded_element [of e] by (auto simp: bounded_def BUFFER_def)

text \<open>A log element of an order, for the examples.\<close>

definition demo_element :: LogElement where
  "demo_element = \<lparr>log_id = ME_RECEIVE_ORDER, timestamp = 17,
     log_data = VLOBOrder (demo_order 7 (CHR ''s'') (CHR ''c'') one 5)\<rparr>"

lemma demo_element_writable: "writable demo_element"
proof -
  have "f32_nonneg one" "f32_units one = 2 ^ 149"
    by (simp_all add: f32_nonneg_def f32_units_def demo_decode scaled_def)
  then have "printable one" by (intro printable_price) simp_all
  then show ?thesis by (simp add: writable_def demo_element_def log_typed_def price_in_def)
qed

theorem element_fits_reserve_witness:
  "\<exists>t. write_element demo_element = Inr t \<and> length t \<le> 400"
  using element_fits_reserve [of demo_element] write_element_ok(1) [OF demo_element_writable] by auto

text \<open>
  One turn of the logger: when every waiting element can be written, it appends to the file the
  texts of the oldest 100 elements of the engine's queue and then of the oldest 100 of the gateway's
  queue, in the order they were logged, and removes exactly those; it never faults.
\<close>
theorem logger_turn_writes_oldest:
  assumes "lfq_inv (matching_engine_queue a)" and "lfq_inv (order_gateway_queue a)"
    and "\<forall>e \<in> set (contents (matching_engine_queue a)) \<union> set (contents (order_gateway_queue a)). writable e"
  shows "\<exists>a'. logger_turn a = Inr a' \<and>
    file_text a' = file_text a @ concat (map render (take 100 (contents (matching_engine_queue a)))) @
      concat (map render (take 100 (contents (order_gateway_queue a)))) \<and>
    contents (matching_engine_queue a') = drop 100 (contents (matching_engine_queue a)) \<and>
    contents (order_gateway_queue a') = drop 100 (contents (order_gateway_queue a)) \<and>
    lfq_inv (matching_engine_queue a') \<and> lfq_inv (order_gateway_queue a')"
proof -
  have "logger_ok a" using assms by (simp add: logger_ok_def waiting_def)
  then obtain a' where "logger_turn a = Inr a'" "logger_ok a'"
    "file_text a' = file_text a @ turn_text (contents (matching_engine_queue a)) (contents (order_gateway_queue a))"
    "contents (matching_engine_queue a') = drop LIMIT (contents (matching_engine_queue a))"
    "contents (order_gateway_queue a') = drop LIMIT (contents (order_gateway_queue a))"
    by (rule logger_turn_correct)
  then show ?thesis by (simp add: logger_ok_def turn_text_def LIMIT_def)
qed

definition demo_logger :: Async_Logger where
  "demo_logger = \<lparr>matching_engine_queue = \<lparr>store = [demo_element, LogElement_init], next_write_index = 1,
     next_read_index = 0\<rparr>, order_gateway_queue = LFQueue_new 4 LogElement_init, file_text = []\<rparr>"

theorem logger_turn_writes_oldest_witness:
  "\<exists>a'. logger_turn demo_logger = Inr a' \<and> file_text a' = render demo_element \<and>
    contents (matching_engine_queue a') = []"
proof -
  have c: "contents (matching_engine_queue demo_logger) = [demo_element]"
    "contents (order_gateway_queue demo_logger) = []"
    by (simp_all add: demo_logger_def LFQueue_new_contents) (simp add: contents_def lfq_size_def upt_rec)
  have "lfq_inv (matching_engine_queue demo_logger)" "lfq_inv (order_gateway_queue demo_logger)"
    by (simp_all add: demo_logger_def LFQueue_new_inv) (simp add: lfq_inv_def)
  with logger_turn_writes_oldest [of demo_logger] c demo_element_writable show ?thesis
    by (auto simp: demo_logger_def)
qed

text \<open>
  An element whose id asks for an order, an engine acknowledgement or a user's message while its
  payload is of another kind ends the logger: \<open>std::get\<close> throws inside \<open>drainBatch\<close>, which is
  \<open>noexcept\<close>, whatever else is in the queue.
\<close>
theorem wrong_payload_ends_logger:
  assumes "lfq_inv q" and "contents q = e # rest" and "\<not> log_typed e" and "log_id e \<in> {1, 2, 3, 4, 5, 6, 7, 8, 9, 10}"
  shows "drainBatch q file LIMIT = Inl BadVariant"
proof -
  have "drain_loop LIMIT q [] = Inl BadVariant"
    by (rule drain_loop_fault [OF assms(1), where xs = "[]"])
      (use assms wrong_payload in \<open>simp_all add: LIMIT_def BUFFER_def\<close>)
  then show ?thesis by (simp add: drainBatch_def)
qed

theorem wrong_payload_ends_logger_witness:
  "drainBatch \<lparr>store = [demo_element\<lparr>log_id := 1\<rparr>, LogElement_init], next_write_index = 1, next_read_index = 0\<rparr>
    [] LIMIT = Inl BadVariant"
  by (rule wrong_payload_ends_logger [where e = "demo_element\<lparr>log_id := 1\<rparr>" and rest = "[]"])
    (simp_all add: lfq_inv_def contents_def lfq_size_def upt_rec log_typed_def demo_element_def log_id_defs)

end
