(* ===== verification/Float64.thy ===== *)
theory Float64
  imports Float32
begin

text \<open>
  C++ \<open>double\<close> where the source uses it: for values that are finite and not negative, the exact value
  \<open>m * 2 ^ e\<close> as the pair \<open>(m, e)\<close>, rounded to 53 bits (to nearest, ties to even) after each operation
  as in \<open>Float32\<close>.  All values the source computes are below \<open>2 ^ 64\<close>, so nothing overflows.
\<close>

type_synonym f64 = "nat \<times> int"

definition f64_round :: "nat \<Rightarrow> int \<Rightarrow> f64" where
  "f64_round m e =
     (if m = 0 then (0, 0) else let q = round_exp 53 (- 1074) m e in (round_mant m e q, q))"

definition f64_of_nat :: "nat \<Rightarrow> f64" where
  "f64_of_nat n = f64_round n 0"

definition f64_mul :: "f64 \<Rightarrow> f64 \<Rightarrow> f64" where
  "f64_mul a b = f64_round (fst a * fst b) (snd a + snd b)"

definition f64_add :: "f64 \<Rightarrow> f64 \<Rightarrow> f64" where
  "f64_add a b =
     (let k = min (snd a) (snd b)
      in f64_round (fst a * 2 ^ nat (snd a - k) + fst b * 2 ^ nat (snd b - k)) k)"

text \<open>The narrowing to \<open>float\<close> and the cast to \<open>size_t\<close> (the index of a vector).\<close>

definition f64_to_f32 :: "f64 \<Rightarrow> f32" where
  "f64_to_f32 a = f32_round False (fst a) (snd a)"

definition f64_to_size :: "f64 \<Rightarrow> nat" where
  "f64_to_size a = trunc_val (fst a) (snd a)"

lemmas f64_eval = f64_round_def f64_of_nat_def f64_mul_def f64_add_def f64_to_f32_def f64_to_size_def

subsection \<open>Rounding to the nearest\<close>

lemma int_pow_cmp:
  "2 * int s < 2 ^ k \<longleftrightarrow> 2 * s < 2 ^ k" "2 * int s = 2 ^ k \<longleftrightarrow> 2 * s = 2 ^ k"
  "2 * int s \<le> 2 ^ k \<longleftrightarrow> 2 * s \<le> 2 ^ k" "2 ^ k \<le> 2 * int s \<longleftrightarrow> 2 ^ k \<le> 2 * s"
proof -
  have e: "2 * int s = int (2 * s)" "(2::int) ^ k = int (2 ^ k)" by simp_all
  show "2 * int s < 2 ^ k \<longleftrightarrow> 2 * s < 2 ^ k" "2 * int s = 2 ^ k \<longleftrightarrow> 2 * s = 2 ^ k"
    "2 * int s \<le> 2 ^ k \<longleftrightarrow> 2 * s \<le> 2 ^ k" "2 ^ k \<le> 2 * int s \<longleftrightarrow> 2 ^ k \<le> 2 * s"
    unfolding e of_nat_less_iff of_nat_eq_iff of_nat_le_iff by (rule refl)+
qed

lemma round_mant_shift: "round_mant m e (e + int k) = rne_shift m k"
  by (cases "k = 0") (simp_all add: round_mant_def rne_shift_exact)

text \<open>A rounded shift is off by at most half a unit, and that decides it.\<close>

lemma rne_shift_error: "2 * \<bar>int m - int (rne_shift m k) * 2 ^ k\<bar> \<le> 2 ^ k"
proof -
  let ?d = "m div 2 ^ k" and ?r = "m mod 2 ^ k"
  have m: "int m = int ?d * 2 ^ k + int ?r"
    using div_mult_mod_eq [of m "2 ^ k"] by (metis of_nat_add of_nat_mult of_nat_numeral of_nat_power)
  have r: "int ?r < 2 ^ k"
    by (metis mod_less_divisor of_nat_less_iff of_nat_numeral of_nat_power zero_less_numeral zero_less_power)
  show ?thesis
  proof (cases "2 ^ k < 2 * ?r \<or> (2 * ?r = 2 ^ k \<and> odd ?d)")
    case True
    then have "2 ^ k \<le> 2 * ?r" by auto
    then have "2 ^ k \<le> 2 * int ?r" by (simp only: int_pow_cmp)
    moreover have "int (rne_shift m k) = int ?d + 1" using True by (simp add: rne_shift_def Let_def)
    ultimately show ?thesis using m r by (simp add: distrib_right)
  next
    case False
    then have "2 * ?r \<le> 2 ^ k" by auto
    then have "2 * int ?r \<le> 2 ^ k" by (simp only: int_pow_cmp)
    moreover have "rne_shift m k = ?d" using False by (simp add: rne_shift_def Let_def)
    ultimately show ?thesis using m by simp
  qed
qed

lemma rne_shift_eq:
  assumes near: "2 * \<bar>int m - int d * 2 ^ k\<bar> < 2 ^ k \<or> (2 * \<bar>int m - int d * 2 ^ k\<bar> = 2 ^ k \<and> even d)"
  shows "rne_shift m k = d"
proof (cases "d * 2 ^ k \<le> m")
  case True
  define s where "s = m - d * 2 ^ k"
  have m: "m = d * 2 ^ k + s" using True by (simp add: s_def)
  have "\<bar>int m - int d * 2 ^ k\<bar> = int s" by (simp add: m)
  then have "2 * int s < 2 ^ k \<or> (2 * int s = 2 ^ k \<and> even d)" using near by simp
  then have s: "2 * s < 2 ^ k \<or> (2 * s = 2 ^ k \<and> even d)"
    by (simp only: int_pow_cmp)
  have lt: "s < 2 ^ k" using s by (cases "s = 0") auto
  have "m div 2 ^ k = d" "m mod 2 ^ k = s" using lt by (simp_all add: m)
  then show ?thesis using s by (auto simp: rne_shift_def Let_def)
next
  case False
  define t where "t = d * 2 ^ k - m"
  have m: "m + t = d * 2 ^ k" "0 < t" using False by (simp_all add: t_def)
  then have "int m + int t = int d * 2 ^ k" by (metis of_nat_add of_nat_mult of_nat_numeral of_nat_power)
  then have "\<bar>int m - int d * 2 ^ k\<bar> = int t" by simp
  then have "2 * int t < 2 ^ k \<or> (2 * int t = 2 ^ k \<and> even d)" using near by simp
  then have t: "2 * t < 2 ^ k \<or> (2 * t = 2 ^ k \<and> even d)"
    by (simp only: int_pow_cmp)
  have lt: "t < 2 ^ k" using t m(2) by auto
  obtain d' where d: "d = Suc d'" using False not0_implies_Suc by (cases d) auto
  have m': "m = d' * 2 ^ k + (2 ^ k - t)" using m(1) lt by (simp add: d)
  have "2 ^ k - t < 2 ^ k" using m(2) by simp
  then have dm: "m div 2 ^ k = d'" "m mod 2 ^ k = 2 ^ k - t" by (simp_all add: m')
  have "2 ^ k < 2 * (2 ^ k - t) \<or> (2 * (2 ^ k - t) = 2 ^ k \<and> odd d')"
    using t lt by (auto simp: d)
  then show ?thesis by (simp add: rne_shift_def Let_def dm d)
qed

lemma div_mod_low: "y < n \<Longrightarrow> (a * n + y) div n = (a :: nat)" "y < n \<Longrightarrow> (a * n + y) mod n = (y :: nat)"
  by simp_all

lemma floorlog_eqI: "2 ^ l \<le> m \<Longrightarrow> m < 2 ^ Suc l \<Longrightarrow> floorlog 2 m = Suc l"
  using floorlog_leI [of m 2 "Suc l"] floorlog_geI [of 2 "Suc l" m] by simp

text \<open>Scaling the mantissa changes nothing; a mantissa of at least 53 bits is shifted.\<close>

lemma f64_round_scale: "f64_round (m * 2 ^ j) (e - int j) = f64_round m e"
  by (simp add: f64_round_def round_exp_scale round_mant_scale)

lemma f64_round_shift:
  assumes "2 ^ (52 + k) \<le> m" and "m < 2 ^ (53 + k)" and "- 1074 \<le> e"
  shows "f64_round m e = (rne_shift m k, e + int k)"
proof -
  have "floorlog 2 m = 53 + k" using floorlog_eqI [of "52 + k" m] assms(1,2) by simp
  then have "round_exp 53 (- 1074) m e = e + int k" using assms(3) by (simp add: round_exp_def)
  moreover have "m \<noteq> 0" using assms(1) by (metis le_zero_eq power_not_zero zero_neq_numeral)
  ultimately show ?thesis by (simp add: f64_round_def round_mant_shift)
qed

lemma f32_round_shift:
  assumes "2 ^ (23 + k) \<le> m" and "m < 2 ^ (24 + k)" and "- 149 \<le> e" and "e + int k \<le> 104"
    and M: "rne_shift m k = M" "M < 2 ^ 24"
  shows "f32_decode (f32_round False m e) = FFin False M (e + int k)"
proof -
  have "floorlog 2 m = 24 + k" using floorlog_eqI [of "23 + k" m] assms(1,2) by simp
  then have q: "round_exp 24 (- 149) m e = e + int k" using assms(3) by (simp add: round_exp_def)
  have m0: "m \<noteq> 0" using assms(1) by (metis le_zero_eq power_not_zero zero_neq_numeral)
  have "round_mant m e (e + int k) = M"
    using M(1) by (simp add: round_mant_shift)
  then have bits: "round_bits 24 (- 149) m e = nat (e + int k + 149) * 2 ^ 23 + M"
    using m0 q by (simp add: round_bits_def Let_def)
  have lo: "2 ^ 23 \<le> M" unfolding M(1) [symmetric] by (rule rne_shift_lower [OF assms(1)])
  let ?x = "nat (e + int k + 149)"
  have x: "?x \<le> 253" using assms(4) by simp
  then have "?x * 2 ^ 23 \<le> 253 * 2 ^ 23" by (rule mult_right_mono) simp
  then have lt: "?x * 2 ^ 23 + M < f32_inf_bits" using M(2) by (simp add: f32_inf_bits_def)
  obtain y where y: "M = 2 ^ 23 + y" using lo le_Suc_ex by blast
  have y23: "y < 2 ^ 23" using M(2) y by simp
  have s: "?x * 2 ^ 23 + M = (?x + 1) * 2 ^ 23 + y" using y by simp
  have dm: "(?x * 2 ^ 23 + M) div 2 ^ 23 = ?x + 1" "(?x * 2 ^ 23 + M) mod 2 ^ 23 = M - 2 ^ 23"
    unfolding s by (simp only: div_mod_low [OF y23]) (simp only: div_mod_low [OF y23] y add_diff_cancel_left')
  have w: "f32_round False m e = word_of_nat (?x * 2 ^ 23 + M)"
    using lt unfolding f32_round_def bits by (simp only: if_False add_0 min_absorb1 less_imp_le)
  have "2 ^ 23 + (M - 2 ^ 23) = M" "int (?x + 1) - 150 = e + int k" using lo assms(3) by simp_all
  then show ?thesis
    unfolding w f32_decode_of_nat [OF lt] dm by simp
qed

text \<open>A product with an integer of at most 53 bits is rounded once.\<close>

lemma f64_mul_of_nat:
  assumes "n < 2 ^ 53"
  shows "f64_mul (f64_of_nat n) (a, e) = f64_round (n * a) e"
proof (cases "n = 0")
  case False
  let ?L = "floorlog 2 n"
  have L: "?L \<le> 53" by (rule floorlog_leI) (use assms in simp_all)
  have "nat (53 - int ?L) = 53 - ?L" by simp
  then have "f64_of_nat n = (n * 2 ^ (53 - ?L), int ?L - 53)"
    using False L by (simp add: f64_of_nat_def f64_round_def round_mant_def round_exp_def)
  then have "f64_mul (f64_of_nat n) (a, e) = f64_round ((n * a) * 2 ^ (53 - ?L)) (e - int (53 - ?L))"
    using L by (simp add: f64_mul_def algebra_simps)
  then show ?thesis unfolding f64_round_scale .
qed (simp add: f64_mul_def f64_of_nat_def f64_round_def)

end
