(* ===== verification/Alpha.thy ===== *)
theory Alpha
  imports Messages LFQueue Float64
begin

text \<open>
  \<open>alpha_tester.cpp\<close>: the server that feeds the gateway with generated orders.

  \<open>alpha_hw\<close> is what it cannot compute: the results of \<open>rand()\<close>, one after the other (not negative,
  as the C library documents), what the field \<open>out_cycle_count\<close> of an order that is never
  initialised holds, and how far the gateway has come at each access to the queue.  The
  acknowledgement and the broadcast queue it gets are never used and are left out; the spin until
  \<open>start\<close> is not modelled.
\<close>

record alpha_hw =
  rand_result :: "nat \<Rightarrow> nat"
  junk :: "nat \<Rightarrow> u64"
  alpha_env :: "nat \<Rightarrow> nat"

record AlphaServer =
  AlphaOrderQueue :: "UserOrder port"
  TestStore :: "UserOrder list"
  aacc :: nat

definition order_num :: nat where
  "order_num = 100000"

definition AlphaServer_new :: "UserOrder port \<Rightarrow> AlphaServer" where
  "AlphaServer_new q = \<lparr>AlphaOrderQueue = q, TestStore = [], aacc = 0\<rparr>"

text \<open>The literal \<open>0.1\<close> as a \<open>double\<close>.\<close>

definition tenth :: f64 where
  "tenth = (7205759403792794, - 56)"

text \<open>\<open>order.price = 110.0 + (double)(rand() % 401) * 0.1\<close>.\<close>

definition alpha_price :: "nat \<Rightarrow> f32" where
  "alpha_price r = f64_to_f32 (f64_add (110, 0) (f64_mul (f64_of_nat (r mod 401)) tenth))"

text \<open>The order the \<open>i\<close>th turn of the filling loop makes, which calls \<open>rand\<close> three times.\<close>

definition alpha_order :: "alpha_hw \<Rightarrow> nat \<Rightarrow> UserOrder" where
  "alpha_order H i =
     (let k = 3 * (i - 1)
      in \<lparr>uo_arrived_cycle_count = 0, uo_order_id = word_of_nat i, uo_trader_id = 1,
          uo_order_type = (if rand_result H (k + 1) mod 2 = 0 then CHR ''b'' else CHR ''s''),
          uo_req_type = CHR ''c'', uo_price = alpha_price (rand_result H k),
          uo_quantity = word_of_nat (rand_result H (k + 2) mod 100 + 1), uo_out_cycle_count = junk H i\<rparr>)"

fun fill_store :: "alpha_hw \<Rightarrow> nat list \<Rightarrow> AlphaServer \<Rightarrow> AlphaServer" where
  "fill_store H [] A = A"
| "fill_store H (i # is) A = fill_store H is (A\<lparr>TestStore := TestStore A @ [alpha_order H i]\<rparr>)"

text \<open>\<open>run\<close>: spin until the queue has a slot, then write the order and publish it.\<close>

definition alpha_attempt :: "alpha_hw \<Rightarrow> UserOrder \<Rightarrow> AlphaServer \<Rightarrow> bool \<times> AlphaServer" where
  "alpha_attempt H x A =
     (let (b, p) = publish (alpha_env H (aacc A)) x (AlphaOrderQueue A)
      in (b, A\<lparr>AlphaOrderQueue := p, aacc := Suc (aacc A)\<rparr>))"

partial_function (option) alpha_spin :: "alpha_hw \<Rightarrow> UserOrder \<Rightarrow> AlphaServer \<Rightarrow> AlphaServer option" where
  "alpha_spin H ord A =
     (if fst (alpha_attempt H ord A) then Some (snd (alpha_attempt H ord A))
      else alpha_spin H ord (snd (alpha_attempt H ord A)))"

definition alpha_send :: "alpha_hw \<Rightarrow> nat \<Rightarrow> AlphaServer \<Rightarrow> AlphaServer outcome" where
  "alpha_send H i A =
     (if i < length (TestStore A) then map_option Inr (alpha_spin H (TestStore A ! i) A)
      else Some (Inl OutOfBounds))"

fun alpha_loop :: "alpha_hw \<Rightarrow> nat list \<Rightarrow> AlphaServer \<Rightarrow> AlphaServer outcome" where
  "alpha_loop H [] A = Some (Inr A)"
| "alpha_loop H (i # is) A = bindO (alpha_send H i A) (alpha_loop H is)"

definition AlphaRun :: "alpha_hw \<Rightarrow> AlphaServer \<Rightarrow> AlphaServer outcome" where
  "AlphaRun H A =
     (let A' = fill_store H [1..<order_num] A in alpha_loop H [0..<length (TestStore A')] A')"

end
