(* ===== verification/AlphaProofs.thy ===== *)
theory AlphaProofs
  imports Alpha SpinPublish
begin

text \<open>
  The generated orders: the price \<open>110 + r / 10\<close> of an order, computed in \<open>double\<close>, narrowed to
  \<open>float\<close> and multiplied by 10 in \<open>float\<close>, is at the level \<open>1100 + r\<close> exactly, although neither
  the price nor the product is exact; and the server sends all of them, in order.
\<close>

subsection \<open>The generated prices\<close>

lemma tenth_times: "10 * 7205759403792794 = (2 ^ 56 + 4 :: nat)"
  by simp

text \<open>The product is the exact one, in units of \<open>2 ^ (- 56)\<close>, up to 256 units.\<close>

lemma mul_tenth:
  assumes r: "0 < r" "r \<le> 400"
  shows "\<exists>m k. f64_mul (f64_of_nat r) tenth = (m, - 56 + int k) \<and> k \<le> 9 \<and>
    \<bar>int (m * 2 ^ k) - int (r * 7205759403792794)\<bar> \<le> 256 \<and>
    m = rne_shift (r * 7205759403792794) k \<and> 2 ^ (52 + k) \<le> r * 7205759403792794 \<and>
    r * 7205759403792794 < 2 ^ (53 + k)"
proof -
  let ?c = "7205759403792794 :: nat"
  have mul: "f64_mul (f64_of_nat r) tenth = f64_round (r * ?c) (- 56)"
    unfolding tenth_def by (rule f64_mul_of_nat) (use r(2) in simp)
  let ?P = "r * ?c" and ?K = "floorlog 2 (r * ?c)"
  have pos: "0 < ?P" using r(1) by simp
  note K = floorlog_bounds2 [OF pos]
  have "1 * ?c \<le> ?P" using r(1) by (intro mult_right_mono) simp_all
  then have K53: "53 \<le> ?K" by (intro floorlog_geI) simp_all
  have "?P \<le> 400 * ?c" using r(2) by (intro mult_right_mono) simp_all
  then have K62: "?K \<le> 62" by (intro floorlog_leI) simp_all
  let ?k = "?K - 53"
  have k: "53 + ?k = ?K" "52 + ?k = ?K - 1" "?k \<le> 9" using K53 K62 by simp_all
  have bounds: "2 ^ (52 + ?k) \<le> ?P" "?P < 2 ^ (53 + ?k)" using K(2,3) unfolding k(1,2) .
  have run: "f64_round ?P (- 56) = (rne_shift ?P ?k, - 56 + int ?k)"
    by (rule f64_round_shift [OF bounds]) simp
  have "2 * \<bar>int ?P - int (rne_shift ?P ?k) * 2 ^ ?k\<bar> \<le> 2 ^ ?k" by (rule rne_shift_error)
  also have "(2::int) ^ ?k \<le> 2 ^ 9" using k(3) by (rule power_increasing) simp
  also have "(2::int) ^ 9 = 512" by simp
  finally have err: "\<bar>int (rne_shift ?P ?k * 2 ^ ?k) - int ?P\<bar> \<le> 256"
    by (simp only: of_nat_mult of_nat_power of_nat_numeral) arith
  show ?thesis
    using trans [OF mul run] k(3) err bounds
    by (intro exI [of _ "rne_shift ?P ?k"] exI [of _ ?k] conjI) (assumption | rule refl)+
qed

text \<open>The sum, in the same units, and its two roundings.\<close>

definition alpha_sum :: "nat \<Rightarrow> nat \<Rightarrow> bool" where
  "alpha_sum r S \<longleftrightarrow> \<bar>int S - int (r * 7205759403792794)\<bar> \<le> 256 \<and> (r = 180 \<longrightarrow> S = 18 * 2 ^ 56)"

lemma add_110:
  assumes "r \<le> 400"
  shows "\<exists>S. alpha_sum r S \<and> f64_add (110, 0) (f64_mul (f64_of_nat r) tenth) = f64_round (110 * 2 ^ 56 + S) (- 56)"
proof (cases "r = 0")
  case True
  have "f64_add (110, 0) (f64_mul (f64_of_nat 0) tenth) = f64_round 110 0"
    by (simp add: f64_add_def f64_mul_def f64_of_nat_def f64_round_def tenth_def)
  also have "\<dots> = f64_round (110 * 2 ^ 56) (0 - int 56)" by (rule f64_round_scale [symmetric])
  finally show ?thesis using True by (intro exI [of _ 0]) (simp add: alpha_sum_def)
next
  case False
  then obtain m k where m: "f64_mul (f64_of_nat r) tenth = (m, - 56 + int k)" "k \<le> 9"
    "\<bar>int (m * 2 ^ k) - int (r * 7205759403792794)\<bar> \<le> 256" "m = rne_shift (r * 7205759403792794) k"
    "2 ^ (52 + k) \<le> r * 7205759403792794" "r * 7205759403792794 < 2 ^ (53 + k)"
    using mul_tenth [of r] assms by auto
  have mn: "min 0 (- 56 + int k) = - 56 + int k" "nat (0 - (- 56 + int k)) = 56 - k" using m(2) by simp_all
  have "f64_add (110, 0) (m, - 56 + int k) = f64_round (110 * 2 ^ (56 - k) + m) (- 56 + int k)"
    unfolding f64_add_def Let_def fst_conv snd_conv mn by simp
  also have "\<dots> = f64_round ((110 * 2 ^ (56 - k) + m) * 2 ^ k) (- 56 + int k - int k)"
    by (rule f64_round_scale [symmetric])
  also have "(110 * 2 ^ (56 - k) + m) * 2 ^ k = 110 * 2 ^ 56 + m * 2 ^ k"
  proof -
    have "(2::nat) ^ (56 - k) * 2 ^ k = 2 ^ 56" using m(2) by (simp flip: power_add)
    then show ?thesis by (simp only: distrib_right mult.assoc)
  qed
  finally have sum: "f64_add (110, 0) (f64_mul (f64_of_nat r) tenth) = f64_round (110 * 2 ^ 56 + m * 2 ^ k) (- 56)"
    unfolding m(1) by simp
  have "m * 2 ^ k = 18 * 2 ^ 56" if "r = 180"
  proof -
    have "k = 8"
    proof (rule ccontr)
      assume "k \<noteq> 8"
      then have "k \<le> 7 \<or> 9 \<le> k" by linarith
      then show False
      proof
        assume "k \<le> 7"
        then have "(2::nat) ^ (53 + k) \<le> 2 ^ 60" by (intro power_increasing) simp_all
        with m(6) that show False by simp
      next
        assume "9 \<le> k"
        then have "(2::nat) ^ 61 \<le> 2 ^ (52 + k)" by (intro power_increasing) simp_all
        with m(5) that show False by simp
      qed
    qed
    moreover have "rne_shift (180 * 7205759403792794) 8 = 18 * 2 ^ 48" by (simp add: rne_shift_def)
    ultimately show ?thesis using m(4) that by simp
  qed
  with sum m(3) show ?thesis by (intro exI [of _ "m * 2 ^ k"]) (simp add: alpha_sum_def)
qed

lemma sum_rounded:
  assumes r: "r \<le> 400" and S: "alpha_sum r S"
  shows "\<exists>T. f64_to_f32 (f64_round (110 * 2 ^ 56 + S) (- 56)) = f32_round False T (- 56) \<and>
    \<bar>10 * int T - (1100 + int r) * 2 ^ 56\<bar> \<le> 14400 \<and> (r = 180 \<longrightarrow> T = 2 ^ 63)"
proof -
  let ?A = "110 * 2 ^ 56 + S"
  have near: "\<bar>int S - int r * 7205759403792794\<bar> \<le> 256" using S by (simp add: alpha_sum_def)
  have "int r * 7205759403792794 \<le> 400 * 7205759403792794" using r by simp
  then have up: "int S \<le> 41 * 2 ^ 56" using near by (simp add: abs_le_iff)
  then have "S \<le> 41 * 2 ^ 56" by simp
  then obtain k where k: "k \<le> 11" "2 ^ (52 + k) \<le> ?A" "?A < 2 ^ (53 + k)"
  proof (cases "?A < 2 ^ 63")
    case True
    with that [of 10] show thesis by simp
  next
    case False
    with \<open>S \<le> 41 * 2 ^ 56\<close> that [of 11] show thesis by simp
  qed
  let ?m = "rne_shift ?A k"
  have "f64_round ?A (- 56) = (?m, - 56 + int k)" by (rule f64_round_shift [OF k(2,3)]) simp
  then have "f64_to_f32 (f64_round ?A (- 56)) = f32_round False ?m (- 56 + int k)"
    by (simp only: f64_to_f32_def fst_conv snd_conv)
  also have "\<dots> = f32_round False (?m * 2 ^ k) (- 56 + int k - int k)"
    by (rule f32_round_scale [symmetric])
  finally have run: "f64_to_f32 (f64_round ?A (- 56)) = f32_round False (?m * 2 ^ k) (- 56)" by simp
  have "2 * \<bar>int ?A - int ?m * 2 ^ k\<bar> \<le> 2 ^ k" by (rule rne_shift_error)
  also have "(2::int) ^ k \<le> 2 ^ 11" using k(1) by (rule power_increasing) simp
  also have "(2::int) ^ 11 = 2048" by simp
  finally have err: "\<bar>int ?A - int (?m * 2 ^ k)\<bar> \<le> 1024"
    by (simp only: of_nat_mult of_nat_power of_nat_numeral) arith
  have "\<bar>10 * int (?m * 2 ^ k) - (1100 + int r) * 2 ^ 56\<bar> \<le> 14400"
  proof -
    have A: "int ?A = 110 * 2 ^ 56 + int S" by simp
    have "int r \<le> 400" using r by simp
    with near err show ?thesis unfolding A by (simp add: abs_le_iff)
  qed
  moreover have "?m * 2 ^ k = 2 ^ 63" if "r = 180"
  proof -
    have A: "?A = 2 ^ 63" using S that by (simp add: alpha_sum_def)
    have "2 ^ k dvd ?A" unfolding A by (rule le_imp_power_dvd) (use k(1) in simp)
    then have "?m = ?A div 2 ^ k" by (rule rne_shift_exact)
    then show ?thesis using \<open>2 ^ k dvd ?A\<close> A by simp
  qed
  ultimately show ?thesis using run by blast
qed

text \<open>
  The float of the price has 17 bits after the point below 128 and 16 from there on, and is the
  nearest such number to the exact price.
\<close>

definition near_tick :: "nat \<Rightarrow> nat \<Rightarrow> nat \<Rightarrow> bool" where
  "near_tick n j M \<longleftrightarrow> \<bar>10 * int M - int n * 2 ^ j\<bar> \<le> 4 \<and> M < 2 ^ 24"

lemma even_near:
  assumes "\<bar>x * 2 ^ k\<bar> \<le> 5 * 2 ^ k + 14400" and "39 \<le> k" and "even (x :: int)"
  shows "\<bar>x\<bar> \<le> 4"
proof (rule ccontr)
  assume "\<not> \<bar>x\<bar> \<le> 4"
  then have "5 \<le> x \<or> x \<le> - 5" by arith
  with assms(3) have "6 \<le> x \<or> x \<le> - 6" by presburger
  then have "6 \<le> \<bar>x\<bar>" by arith
  then have "6 * 2 ^ k \<le> \<bar>x\<bar> * 2 ^ k" by (rule mult_right_mono) simp
  then have "6 * 2 ^ k \<le> \<bar>x * 2 ^ k\<bar>" by (simp add: abs_mult)
  moreover have "(2::int) ^ 39 \<le> 2 ^ k" using assms(2) by (rule power_increasing) simp
  ultimately show False using assms(1) by simp
qed

lemma scale_error:
  fixes t a b c n :: int
  assumes "2 * \<bar>t - a\<bar> \<le> b" and "\<bar>10 * t - n\<bar> \<le> c"
  shows "\<bar>10 * a - n\<bar> \<le> 5 * b + c"
proof -
  have "10 * a - n = (10 * t - n) + 10 * (a - t)" by simp
  then have "\<bar>10 * a - n\<bar> \<le> \<bar>10 * t - n\<bar> + \<bar>10 * (a - t)\<bar>" using abs_triangle_ineq by metis
  also have "\<bar>10 * (a - t)\<bar> = 10 * \<bar>t - a\<bar>" unfolding abs_mult abs_numeral abs_minus_commute [of t a] ..
  finally show ?thesis using assms by linarith
qed

lemma price_float:
  assumes r: "r \<le> 400"
  shows "\<exists>M. (f32_decode (alpha_price r) = FFin False M (- 17) \<and> near_tick (1100 + r) 17 M \<and> r < 180) \<or>
    (f32_decode (alpha_price r) = FFin False M (- 16) \<and> near_tick (1100 + r) 16 M \<and> 180 \<le> r)"
proof -
  let ?n = "1100 + r"
  have m: "r mod 401 = r" using r by simp
  obtain S where S: "alpha_sum r S" "f64_add (110, 0) (f64_mul (f64_of_nat r) tenth) = f64_round (110 * 2 ^ 56 + S) (- 56)"
    using add_110 [OF r] by blast
  obtain T where T: "alpha_price r = f32_round False T (- 56)" "\<bar>10 * int T - (1100 + int r) * 2 ^ 56\<bar> \<le> 14400"
    "r = 180 \<longrightarrow> T = 2 ^ 63"
    using sum_rounded [OF r S(1)] S(2) by (auto simp: alpha_price_def m)
  have near: "near_tick ?n j (rne_shift T k)"
    if jk: "j + k = 56" "39 \<le> k" "1 \<le> j" and M: "10 * int (rne_shift T k) * 2 ^ k \<le> int ?n * 2 ^ 56 + 5 * 2 ^ k + 14400 \<longrightarrow>
        rne_shift T k < 2 ^ 24" for j k
  proof -
    let ?M = "rne_shift T k"
    have "2 * \<bar>int T - int ?M * 2 ^ k\<bar> \<le> 2 ^ k" by (rule rne_shift_error)
    then have e: "\<bar>10 * int ?M * 2 ^ k - int ?n * 2 ^ 56\<bar> \<le> 5 * 2 ^ k + 14400"
      using scale_error [OF _ T(2)] by (simp only: mult.assoc of_nat_add of_nat_numeral)
    have p: "(2::int) ^ 56 = 2 ^ j * 2 ^ k" by (simp only: jk(1) flip: power_add)
    have "\<bar>(10 * int ?M - int ?n * 2 ^ j) * 2 ^ k\<bar> \<le> 5 * 2 ^ k + 14400"
      using e unfolding p by (simp only: left_diff_distrib mult.assoc)
    moreover have "even (10 * int ?M - int ?n * 2 ^ j)" using jk(3) by simp
    ultimately have "\<bar>10 * int ?M - int ?n * 2 ^ j\<bar> \<le> 4" using even_near jk(2) by blast
    moreover have "?M < 2 ^ 24" using M e by (simp add: abs_le_iff)
    ultimately show ?thesis by (simp add: near_tick_def)
  qed
  show ?thesis
  proof (cases "r < 180")
    case True
    have "int r \<le> 179" using True by simp
    then have "2 ^ (23 + 39) \<le> T" "T < 2 ^ (24 + 39)" using T(2) by (simp_all add: abs_le_iff)
    moreover have N: "near_tick ?n 17 (rne_shift T 39)" by (rule near) (use \<open>int r \<le> 179\<close> in simp_all)
    ultimately have "f32_decode (f32_round False T (- 56)) = FFin False (rne_shift T 39) (- 56 + int 39)"
      by (intro f32_round_shift) (simp_all add: near_tick_def)
    with N T(1) True show ?thesis by (intro exI [of _ "rne_shift T 39"]) simp
  next
    case False
    have "2 ^ (23 + 40) \<le> T"
    proof (cases "r = 180")
      case True
      with T(3) show ?thesis by simp
    next
      case ne: False
      with False have "181 \<le> int r" by simp
      with T(2) show ?thesis by (simp add: abs_le_iff)
    qed
    moreover have "T < 2 ^ (24 + 40)" using T(2) r by (simp add: abs_le_iff)
    moreover have N: "near_tick ?n 16 (rne_shift T 40)" by (rule near) (use r in simp_all)
    ultimately have "f32_decode (f32_round False T (- 56)) = FFin False (rne_shift T 40) (- 56 + int 40)"
      by (intro f32_round_shift) (simp_all add: near_tick_def)
    with N T(1) False show ?thesis by (intro exI [of _ "rne_shift T 40"]) simp
  qed
qed

text \<open>Ten times such a number rounds to the tick, in a tie to the even mantissa.\<close>

lemma tick_product:
  assumes p: "f32_decode p = FFin False M (- int (13 + k))" and M: "near_tick n (13 + k) M"
    and n: "1025 \<le> n" "n < 2048" and k: "3 \<le> k" "k \<le> 4"
  shows "price_index p = Inr n"
proof -
  have near: "\<bar>int (10 * M) - int (n * 2 ^ 13) * 2 ^ k\<bar> \<le> 4"
    using M by (simp add: near_tick_def power_add mult.assoc)
  have k8: "8 \<le> (2::int) ^ k" using power_increasing [OF k(1), of "2::int"] by simp
  have "2 * \<bar>int (10 * M) - int (n * 2 ^ 13) * 2 ^ k\<bar> < 2 ^ k \<or>
      (2 * \<bar>int (10 * M) - int (n * 2 ^ 13) * 2 ^ k\<bar> = 2 ^ k \<and> even (n * 2 ^ 13))"
    using near k8 by auto
  then have shift: "rne_shift (10 * M) k = n * 2 ^ 13" by (rule rne_shift_eq)
  have k34: "k = 3 \<or> k = 4" using k by linarith
  have nn: "1025 \<le> int n" "int n \<le> 2047" using n by simp_all
  have N: "10 * int M - int n * 2 ^ (13 + k) \<le> 4" "int n * 2 ^ (13 + k) - 10 * int M \<le> 4"
    using M by (simp_all add: near_tick_def abs_le_iff)
  have b: "2 ^ (23 + k) \<le> 10 * M" "10 * M < 2 ^ (24 + k)"
    using k34 N nn by (elim disjE; simp)+
  have "price_index p = f32_to_size (f32_round False ((10 * M) * 2 ^ 20) (- int (13 + k) - int 20))"
    using price_index_round [OF p] by (simp add: mult.assoc mult.commute [of M])
  also have "f32_round False ((10 * M) * 2 ^ 20) (- int (13 + k) - int 20) = f32_round False (10 * M) (- int (13 + k))"
    by (rule f32_round_scale)
  finally have idx: "price_index p = f32_to_size (f32_round False (10 * M) (- int (13 + k)))" .
  have "n * 2 ^ 13 < 2 ^ 24" using n(2) by simp
  then have "f32_decode (f32_round False (10 * M) (- int (13 + k))) = FFin False (n * 2 ^ 13) (- int (13 + k) + int k)"
    by (intro f32_round_shift [OF b _ _ shift]) (use k in simp_all)
  then have d: "f32_decode (f32_round False (10 * M) (- int (13 + k))) = FFin False (n * 2 ^ 13) (- 13)" by simp
  show ?thesis unfolding idx f32_to_size_def d using n(2) by (simp add: trunc_val_def)
qed

text \<open>The level of a generated price.\<close>

lemma alpha_price_level:
  assumes "r \<le> 400"
  shows "price_index (alpha_price r) = Inr (1100 + r)"
proof -
  obtain M where "(f32_decode (alpha_price r) = FFin False M (- 17) \<and> near_tick (1100 + r) 17 M \<and> r < 180) \<or>
    (f32_decode (alpha_price r) = FFin False M (- 16) \<and> near_tick (1100 + r) 16 M \<and> 180 \<le> r)"
    using price_float [OF assms] by blast
  then show ?thesis
    using tick_product [of "alpha_price r" M 4 "1100 + r"] tick_product [of "alpha_price r" M 3 "1100 + r"] assms
    by auto
qed

text \<open>It can be printed, too.\<close>

lemma alpha_price_small:
  assumes "r \<le> 400"
  shows "f32_nonneg (alpha_price r)" and "f32_units (alpha_price r) < 2 ^ 31 * 2 ^ 149"
proof -
  obtain M e where M: "f32_decode (alpha_price r) = FFin False M e" "e \<le> - 16" "M < 2 ^ 24"
    using price_float [OF assms] by (auto simp: near_tick_def)
  then show "f32_nonneg (alpha_price r)" by (simp add: f32_nonneg_def)
  have "nat (e + 149) \<le> 133" using M(2) by simp
  then have "(2::nat) ^ nat (e + 149) \<le> 2 ^ 133" by (rule power_increasing) simp
  then have "M * 2 ^ nat (e + 149) \<le> 2 ^ 24 * 2 ^ 133" using M(3) by (intro mult_mono) simp_all
  then show "f32_units (alpha_price r) < 2 ^ 31 * 2 ^ 149" by (simp add: f32_units_def M(1) scaled_def)
qed

subsection \<open>Sending\<close>

definition alpha_fair :: "alpha_hw \<Rightarrow> bool" where
  "alpha_fair H \<longleftrightarrow> (\<forall>k. \<exists>m \<ge> k. 0 < alpha_env H m)"

definition alpha_ready :: "alpha_hw \<Rightarrow> nat \<Rightarrow> AlphaServer \<Rightarrow> bool" where
  "alpha_ready H m A \<longleftrightarrow>
     port_inv (AlphaOrderQueue A) \<and>
     (length (published (AlphaOrderQueue A)) + m \<le> port_cap (AlphaOrderQueue A) \<or>
      (0 < port_cap (AlphaOrderQueue A) \<and> alpha_fair H))"

definition handed :: "AlphaServer \<Rightarrow> AlphaServer \<Rightarrow> UserOrder list \<Rightarrow> bool" where
  "handed A A' xs \<longleftrightarrow>
     port_inv (AlphaOrderQueue A') \<and> port_cap (AlphaOrderQueue A') = port_cap (AlphaOrderQueue A) \<and>
     published (AlphaOrderQueue A') = published (AlphaOrderQueue A) @ xs \<and> TestStore A' = TestStore A"

lemma alpha_attempt_eq:
  "alpha_attempt H x A = (fst (publish (alpha_env H (aacc A)) x (AlphaOrderQueue A)),
     A\<lparr>AlphaOrderQueue := snd (publish (alpha_env H (aacc A)) x (AlphaOrderQueue A)), aacc := Suc (aacc A)\<rparr>)"
  by (simp add: alpha_attempt_def split_def Let_def)

text \<open>The loop of \<open>run\<close> is a publisher that spins.\<close>

lemma alpha_spin_least:
  assumes "P A" and goes_on: "\<And>A. P A \<Longrightarrow> \<exists>p. publish (alpha_env H (aacc A)) x (AlphaOrderQueue A) = (False, p) \<and>
    P (A\<lparr>AlphaOrderQueue := p, aacc := Suc (aacc A)\<rparr>)"
  shows "alpha_spin H x A = None"
proof -
  have "\<not> (H' = H \<and> x' = x \<and> P A')" if "alpha_spin H' x' A' = Some y" for H' x' A' y
  proof (rule alpha_spin.raw_induct [OF _ that])
    fix f H' x' A' y
    assume IH: "\<And>H' x' A' y. f H' x' A' = Some y \<Longrightarrow> \<not> (H' = H \<and> x' = x \<and> P A')"
      and body: "(if fst (alpha_attempt H' x' A') then Some (snd (alpha_attempt H' x' A'))
        else f H' x' (snd (alpha_attempt H' x' A'))) = Some y"
    show "\<not> (H' = H \<and> x' = x \<and> P A')"
    proof
      assume st: "H' = H \<and> x' = x \<and> P A'"
      then obtain p where "publish (alpha_env H (aacc A')) x (AlphaOrderQueue A') = (False, p)"
        "P (A'\<lparr>AlphaOrderQueue := p, aacc := Suc (aacc A')\<rparr>)" using goes_on by blast
      with body st IH show False by (auto simp: alpha_attempt_eq)
    qed
  qed
  with assms(1) show ?thesis by (metis option.exhaust)
qed

interpretation gen: spin_publisher AlphaOrderQueue aacc "\<lambda>p A. A\<lparr>AlphaOrderQueue := p, aacc := Suc (aacc A)\<rparr>"
  TestStore "alpha_env H" "alpha_spin H" for H
proof
  show "alpha_spin H x A = (if b then Some (A\<lparr>AlphaOrderQueue := p, aacc := Suc (aacc A)\<rparr>)
      else alpha_spin H x (A\<lparr>AlphaOrderQueue := p, aacc := Suc (aacc A)\<rparr>))"
    if "publish (alpha_env H (aacc A)) x (AlphaOrderQueue A) = (b, p)" for A x b p
    using that by (subst alpha_spin.simps) (simp add: alpha_attempt_eq)
qed (simp_all, rule alpha_spin_least, blast+)

lemma alpha_send_returns:
  assumes "alpha_ready H (Suc m) A" and "i < length (TestStore A)"
  shows "\<exists>A'. alpha_send H i A = Some (Inr A') \<and> handed A A' [TestStore A ! i] \<and> alpha_ready H m A'"
proof -
  have "\<exists>A'. alpha_spin H (TestStore A ! i) A = Some A' \<and> spun AlphaOrderQueue TestStore A A' (TestStore A ! i)"
    by (rule gen.spin_returns) (use assms(1) in \<open>auto simp: alpha_ready_def alpha_fair_def\<close>)
  then obtain A' where "alpha_spin H (TestStore A ! i) A = Some A'" "handed A A' [TestStore A ! i]"
    by (auto simp: spun_def handed_def)
  then show ?thesis using assms by (auto simp: alpha_send_def handed_def alpha_ready_def)
qed

text \<open>A gateway that has stopped reading a full queue holds the generator up for ever.\<close>

lemma alpha_spin_blocked:
  assumes "port_inv (AlphaOrderQueue A)" and "lfq_size (chan (AlphaOrderQueue A)) = port_cap (AlphaOrderQueue A)"
    and "\<forall>k \<ge> aacc A. alpha_env H k = 0"
  shows "alpha_spin H x A = None"
  using assms by (rule gen.spin_blocked)

lemma alpha_loop_returns:
  assumes "alpha_ready H (length is) A" and "\<forall>i \<in> set is. i < length (TestStore A)"
  shows "\<exists>A'. alpha_loop H is A = Some (Inr A') \<and> handed A A' (map ((!) (TestStore A)) is)"
  using assms
proof (induction "is" arbitrary: A)
  case Nil
  then show ?case by (simp add: handed_def alpha_ready_def)
next
  case (Cons i "is")
  obtain A1 where A1: "alpha_send H i A = Some (Inr A1)" "handed A A1 [TestStore A ! i]" "alpha_ready H (length is) A1"
    using alpha_send_returns [of H "length is" A i] Cons.prems by auto
  have st: "TestStore A1 = TestStore A" using A1(2) by (simp add: handed_def)
  obtain A' where "alpha_loop H is A1 = Some (Inr A')" "handed A1 A' (map ((!) (TestStore A1)) is)"
    using Cons.IH [OF A1(3)] Cons.prems(2) st by auto
  with A1 show ?case by (auto simp: handed_def st)
qed

lemma fill_store_eq:
  "fill_store H is A = A\<lparr>TestStore := TestStore A @ map (alpha_order H) is\<rparr>"
  by (induction "is" arbitrary: A) simp_all

end
