(* ===== verification/AlphaProps.thy ===== *)
theory AlphaProps
  imports AlphaProofs Gateway
begin

text \<open>
  What the generator of orders (\<open>alpha_tester.cpp\<close>) promises: every order it makes can be placed
  by the engine, and every order is published, in order, whatever \<open>rand\<close> returns.
\<close>

definition gen_level :: "alpha_hw \<Rightarrow> nat \<Rightarrow> nat" where
  "gen_level H i = 1100 + rand_result H (3 * (i - 1)) mod 401"

lemma alpha_order_level: "price_index (uo_price (alpha_order H i)) = Inr (gen_level H i)"
proof -
  have "alpha_price r = alpha_price (r mod 401)" for r by (simp add: alpha_price_def)
  moreover have "rand_result H (3 * (i - 1)) mod 401 \<le> 400" using mod_less_divisor [of 401] by (simp add: less_Suc_eq_le [symmetric])
  ultimately show ?thesis using alpha_price_level by (simp add: alpha_order_def Let_def gen_level_def) metis
qed

lemma alpha_order_fields:
  "uo_order_id (alpha_order H i) = word_of_nat i" "uo_req_type (alpha_order H i) = CHR ''c''"
  "uo_trader_id (alpha_order H i) = 1" "uo_order_type (alpha_order H i) \<in> {CHR ''b'', CHR ''s''}"
  by (simp_all add: alpha_order_def Let_def)

lemma alpha_order_quantity:
  "unat (uo_quantity (alpha_order H i)) = rand_result H (3 * (i - 1) + 2) mod 100 + 1"
proof -
  have "rand_result H (3 * (i - 1) + 2) mod 100 + 1 < 2 ^ 64"
    using mod_less_divisor [of 100 "rand_result H (3 * (i - 1) + 2)"] by simp
  then have "unat (word_of_nat (rand_result H (3 * (i - 1) + 2) mod 100 + 1) :: u64) =
      rand_result H (3 * (i - 1) + 2) mod 100 + 1"
    by (rule unat_word_of_nat64)
  then show ?thesis by (simp add: alpha_order_def Let_def del: of_nat_add of_nat_Suc)
qed

text \<open>
  C33. Every generated order can be placed: whatever \<open>rand\<close> returns, its price, computed in \<open>double\<close>
  and narrowed to \<open>float\<close>, is at the level \<open>1100 + r\<close> of the book for the step \<open>r\<close> that was drawn,
  although neither \<open>0.1\<close> nor the sum is exact; it is a new order, a bid or an ask, of 1 to 100 lots,
  of the trader whose orders are acknowledged.
\<close>
theorem generated_orders_valid:
  "price_index (uo_price (alpha_order H i)) = Inr (1100 + rand_result H (3 * (i - 1)) mod 401) \<and>
   uo_req_type (alpha_order H i) = CHR ''c'' \<and> uo_order_type (alpha_order H i) \<in> {CHR ''b'', CHR ''s''} \<and>
   unat (uo_quantity (alpha_order H i)) = rand_result H (3 * (i - 1) + 2) mod 100 + 1 \<and>
   uo_trader_id (alpha_order H i) = 1"
  using alpha_order_level [of H i, unfolded gen_level_def] alpha_order_fields [of H i] alpha_order_quantity [of H i]
  by blast

definition all_orders :: "alpha_hw \<Rightarrow> UserOrder list" where
  "all_orders H = map (alpha_order H) [1..<order_num]"

lemma map_from_one: "length (map f [1..<Suc k]) = k" "j < k \<Longrightarrow> map f [1..<Suc k] ! j = f (Suc j)"
  by (simp_all add: nth_append del: upt_Suc)

lemma order_num_Suc: "order_num = Suc 99999"
  by (simp add: order_num_def)

lemma all_orders_length [simp]: "length (all_orders H) = 99999"
  unfolding all_orders_def order_num_Suc by (rule map_from_one(1))

lemma all_orders_nth:
  assumes "j < 99999"
  shows "all_orders H ! j = alpha_order H (Suc j)"
proof -
  have "all_orders H ! j = map (alpha_order H) [1..<Suc 99999] ! j"
    by (simp only: all_orders_def order_num_Suc)
  also have "\<dots> = alpha_order H (Suc j)" using map_from_one(2) [OF assms] .
  finally show ?thesis .
qed

text \<open>
  C34. The generator gets rid of all of its orders: \<open>AlphaRun\<close> returns when the gateway's queue can
  hold them all or is read again and again, it never indexes its store out of range, and exactly
  the orders with the ids 1 to 99999 were published, in this order.
\<close>
theorem alpha_sends_all_orders:
  assumes "port_inv q" and "length (published q) + 99999 \<le> port_cap q \<or>
    (0 < port_cap q \<and> (\<forall>k. \<exists>m \<ge> k. 0 < alpha_env H m))"
  shows "\<exists>A'. AlphaRun H (AlphaServer_new q) = Some (Inr A') \<and> port_inv (AlphaOrderQueue A') \<and>
    published (AlphaOrderQueue A') = published q @ map (alpha_order H) [1..<order_num]"
proof -
  let ?A = "(AlphaServer_new q)\<lparr>TestStore := all_orders H\<rparr>"
  have fill: "fill_store H [1..<order_num] (AlphaServer_new q) = ?A"
    by (simp add: fill_store_eq AlphaServer_new_def all_orders_def)
  have "alpha_ready H (length [0..<length (TestStore ?A)]) ?A"
    using assms by (simp add: alpha_ready_def AlphaServer_new_def alpha_fair_def)
  then obtain A' where "alpha_loop H [0..<length (TestStore ?A)] ?A = Some (Inr A')"
    "handed ?A A' (map ((!) (TestStore ?A)) [0..<length (TestStore ?A)])"
    using alpha_loop_returns [of H "[0..<length (TestStore ?A)]" ?A] by auto
  then show ?thesis
    unfolding AlphaRun_def Let_def fill map_nth
    by (simp add: handed_def AlphaServer_new_def) (simp add: all_orders_def)
qed

theorem alpha_sends_all_orders_witness:
  "\<exists>A'. AlphaRun \<lparr>rand_result = (\<lambda>_. 7), junk = (\<lambda>_. 0), alpha_env = (\<lambda>_. 1)\<rparr>
      (AlphaServer_new (port_new 2 UserOrder_init)) = Some (Inr A') \<and>
    length (published (AlphaOrderQueue A')) = 99999"
proof -
  let ?q = "port_new 2 UserOrder_init"
  have "port_inv ?q" "published ?q = []" by (simp_all add: port_new_inv) (simp add: port_new_def)
  moreover have "0 < port_cap ?q" by (simp add: port_new_def port_cap_def LFQueue_new_def)
  moreover have "\<forall>k. \<exists>m \<ge> k. 0 < alpha_env \<lparr>rand_result = (\<lambda>_. 7), junk = (\<lambda>_. 0), alpha_env = (\<lambda>_. 1)\<rparr> m" by auto
  ultimately show ?thesis
    using alpha_sends_all_orders [of ?q "\<lparr>rand_result = (\<lambda>_. 7), junk = (\<lambda>_. 0), alpha_env = (\<lambda>_. 1)\<rparr>"]
    by (auto simp: order_num_def)
qed

end
