(* ===== verification/Bench.thy ===== *)
theory Bench
  imports Float64
begin

text \<open>
  \<open>bench.h\<close>: the report of the latency samples.  \<open>showBenchmark\<close> sorts its copy of the samples and
  prints four of them; their indices are computed in \<open>double\<close> and cut off to \<open>size_t\<close>.  \<open>n\<close> is an
  \<open>int\<close>, so there have to be fewer than \<open>2 ^ 31\<close> samples.  The conversion to nanoseconds is defined in
  the source but never called: what is printed are cycles, and \<open>cpns\<close> has no effect.
\<close>

definition time_at :: "u64 list \<Rightarrow> nat \<Rightarrow> u64 result" where
  "time_at ts i = (if i < length ts then Inr (ts ! i) else Inl OutOfBounds)"

text \<open>The literals \<open>0.75\<close>, \<open>0.95\<close> and \<open>0.99\<close>, and \<open>n * c\<close> as an index.\<close>

definition c75 :: f64 where
  "c75 = (6755399441055744, - 53)"

definition c95 :: f64 where
  "c95 = (8556839292003942, - 53)"

definition c99 :: f64 where
  "c99 = (8917127262193582, - 53)"

definition times_index :: "nat \<Rightarrow> f64 \<Rightarrow> nat" where
  "times_index n c = f64_to_size (f64_mul (f64_of_nat n) c)"

record benchmark =
  p50 :: u64
  p75 :: u64
  p95 :: u64
  p99 :: u64

definition showBenchmark :: "u64 list \<Rightarrow> benchmark result" where
  "showBenchmark time =
     (let ts = sort time; n = length ts
      in bindR (time_at ts (n div 4)) (\<lambda>a.
           bindR (time_at ts (times_index n c75)) (\<lambda>b.
             bindR (time_at ts (times_index n c95)) (\<lambda>c.
               bindR (time_at ts (times_index n c99)) (\<lambda>d.
                 Inr \<lparr>p50 = a, p75 = b, p95 = c, p99 = d\<rparr>)))))"

subsection \<open>The indices\<close>

text \<open>The product with a number below 1 of 53 bits, before and after it is rounded.\<close>

lemma times_index_eq:
  assumes n: "0 < n" "n < 2 ^ 31" and a: "2 ^ 52 \<le> a" "a < 2 ^ 53"
  shows "\<exists>k \<le> 31. 2 ^ (52 + k) \<le> n * a \<and> n * a < 2 ^ (53 + k) \<and>
    times_index n (a, - 53) = rne_shift (n * a) k div 2 ^ (53 - k)"
proof -
  let ?K = "floorlog 2 (n * a)"
  have mul: "f64_mul (f64_of_nat n) (a, - 53) = f64_round (n * a) (- 53)"
    by (rule f64_mul_of_nat) (use n(2) in simp)
  have pos: "0 < n * a" using n(1) a(1) by (simp add: order_less_le_trans [of 0 "2 ^ 52"])
  note K = floorlog_bounds2 [OF pos]
  have "1 * 2 ^ 52 \<le> n * a" using n(1) a(1) by (intro mult_mono) simp_all
  then have K53: "53 \<le> ?K" by (intro floorlog_geI) simp_all
  have "n * a < 2 ^ 31 * 2 ^ 53" using n a(2) by (intro mult_strict_mono) simp_all
  then have K84: "?K \<le> 84" by (intro floorlog_leI) simp_all
  let ?k = "?K - 53"
  have k: "53 + ?k = ?K" "52 + ?k = ?K - 1" "?k \<le> 31" using K53 K84 by simp_all
  have bounds: "2 ^ (52 + ?k) \<le> n * a" "n * a < 2 ^ (53 + ?k)" using K(2,3) unfolding k(1,2) .
  have "f64_mul (f64_of_nat n) (a, - 53) = (rne_shift (n * a) ?k, - 53 + int ?k)"
    unfolding mul by (rule f64_round_shift [OF bounds]) simp
  moreover have "nat (53 - int ?k) = 53 - ?k" by simp
  ultimately have "times_index n (a, - 53) = rne_shift (n * a) ?k div 2 ^ (53 - ?k)"
    using k(3) by (simp add: times_index_def f64_to_size_def trunc_val_def)
  with bounds k(3) show ?thesis by blast
qed

text \<open>
  For a literal just below the fraction \<open>p / q\<close> the index is exactly the floor of \<open>n * p / q\<close>: a product
  that falls short of a whole number by less than half a unit is rounded up to it, and no product is
  rounded up to the next one.
\<close>

lemma rne_shift_just_below:
  assumes qy: "q * m + e = q * (y * 2 ^ k)" and small: "2 * e < q * 2 ^ k" and q: "0 < (q :: nat)"
  shows "rne_shift m k = y"
proof -
  have "q * m \<le> q * (y * 2 ^ k)" using qy by linarith
  then have le: "m \<le> y * 2 ^ k" using q by simp
  have "q * (2 * (y * 2 ^ k - m)) = 2 * e" using qy le by (simp add: right_diff_distrib')
  then have "2 * (y * 2 ^ k - m) < 2 ^ k" using small q by (metis mult_less_cancel1)
  then have "2 * (int (y * 2 ^ k) - int m) < 2 ^ k"
    using le by (metis of_nat_diff of_nat_less_iff of_nat_mult of_nat_numeral of_nat_power)
  moreover have "\<bar>int m - int (y * 2 ^ k)\<bar> = int (y * 2 ^ k) - int m"
    using le by (metis abs_minus_commute abs_of_nonneg diff_ge_0_iff_ge of_nat_le_iff)
  ultimately have "2 * \<bar>int m - int y * 2 ^ k\<bar> < 2 ^ k"
    by (metis of_nat_mult of_nat_numeral of_nat_power)
  then show ?thesis by (intro rne_shift_eq) simp
qed

lemma rne_shift_half: "2 * (rne_shift m k * 2 ^ k) \<le> 2 * m + 2 ^ k"
proof -
  have near: "2 * b \<le> 2 * a + c" if "2 * \<bar>a - b\<bar> \<le> c" for a b c :: int using that by arith
  have "2 * (int (rne_shift m k) * 2 ^ k) \<le> 2 * int m + 2 ^ k" by (rule near [OF rne_shift_error])
  moreover have "2 * (int (rne_shift m k) * 2 ^ k) = int (2 * (rne_shift m k * 2 ^ k))" "2 * int m + 2 ^ k = int (2 * m + 2 ^ k)"
    by simp_all
  ultimately show ?thesis by (simp only: of_nat_le_iff)
qed

lemma times_index_floor:
  assumes n: "0 < n" "n < 2 ^ 31" and a: "2 ^ 52 \<le> a" "a < 2 ^ 53"
    and frac: "q * a + d = p * 2 ^ 53" and d: "d \<le> 8" "2 * d * 2 ^ 53 \<le> q * a" and q: "0 < q" "q \<le> 100"
  shows "times_index n (a, - 53) = p * n div q"
proof -
  obtain k where k: "k \<le> 31" "2 ^ (52 + k) \<le> n * a" "n * a < 2 ^ (53 + k)"
    "times_index n (a, - 53) = rne_shift (n * a) k div 2 ^ (53 - k)"
    using times_index_eq [OF n a] by blast
  let ?m = "n * a" and ?x = "rne_shift (n * a) k"
  define t where "t = p * n div q"
  define r where "r = p * n mod q"
  have pn: "p * n = q * t + r" "r < q" using q by (simp_all add: t_def r_def)
  have qm: "q * ?m + d * n = (q * t + r) * 2 ^ 53"
    unfolding pn(1) [symmetric] using frac by (metis distrib_right mult.assoc mult.commute)
  have split53: "(2::nat) ^ 53 = 2 ^ (53 - k) * 2 ^ k" using k(1) by (simp flip: power_add)
  have "d * n \<le> 8 * 2 ^ 31" using d(1) n(2) by (intro mult_mono) simp_all
  then have dn: "d * n < 2 ^ 53" by simp
  have lower: "t * 2 ^ (53 - k) \<le> ?x"
  proof (cases "r = 0")
    case False
    then have "1 \<le> r" by linarith
    then have "(q * t + 1) * 2 ^ 53 \<le> (q * t + r) * 2 ^ 53"
      by (rule mult_right_mono [OF add_left_mono]) simp
    then have "q * (t * 2 ^ 53) + 2 ^ 53 \<le> q * ?m + d * n" unfolding qm by (simp only: distrib_right mult.assoc mult_1)
    then have "q * (t * 2 ^ 53) \<le> q * ?m" using dn by linarith
    then have "rne_shift (t * 2 ^ 53) k \<le> ?x" using q(1) by (intro rne_shift_mono) simp
    then show ?thesis unfolding split53 by (subst (asm) rne_shift_exact) simp_all
  next
    case True
    have "q * ?m + d * n = q * (t * 2 ^ (53 - k) * 2 ^ k)" using qm True unfolding split53 by simp
    moreover have "2 * d * 2 ^ 53 * n \<le> q * a * n" using d(2) by (rule mult_right_mono) simp
    then have "2 * (d * n) < q * 2 ^ k"
      using k(3) q(1) order_le_less_trans [of "2 * d * 2 ^ 53 * n" "q * a * n" "q * 2 ^ (53 + k)"]
      by (simp add: power_add mult.assoc mult.commute mult.left_commute)
    ultimately show ?thesis using q(1) by (simp add: rne_shift_just_below)
  qed
  have upper: "?x < (t + 1) * 2 ^ (53 - k)"
  proof -
    have "n * a < n * 2 ^ 53" using n(1) a(2) by simp
    with k(2) have "2 ^ (52 + k) < n * 2 ^ 53" by (rule le_less_trans)
    then have k2: "2 ^ k < 2 * n" by (simp add: power_add)
    have "(q * t + r + 1) * 2 ^ 53 \<le> (q * t + q) * 2 ^ 53" by (rule mult_right_mono) (use pn(2) in simp_all)
    then have "q * ?m + 2 ^ 53 \<le> q * ((t + 1) * 2 ^ 53)" using qm by (simp add: algebra_simps)
    moreover have "q * (2 * (?x * 2 ^ k)) \<le> q * (2 * ?m + 2 ^ k)" by (rule mult_left_mono [OF rne_shift_half]) simp
    moreover have "q * 2 ^ k \<le> 100 * (2 * n)" using k2 q(2) by (intro mult_mono) simp_all
    ultimately have "q * (2 * (?x * 2 ^ k)) < q * (2 * ((t + 1) * 2 ^ 53))"
      using n(2) by (simp add: distrib_left)
    then have "?x * 2 ^ k < (t + 1) * 2 ^ 53" by (simp only: mult_less_cancel1)
    then have "?x * 2 ^ k < ((t + 1) * 2 ^ (53 - k)) * 2 ^ k" unfolding split53 by (simp only: mult.assoc)
    then show ?thesis by (simp only: mult_less_cancel2)
  qed
  have "?x div 2 ^ (53 - k) = t" using lower upper by (simp add: div_nat_eqI mult.commute)
  with k(4) have "times_index n (a, - 53) = t" by simp
  then show ?thesis unfolding t_def .
qed

text \<open>The three literals.\<close>

lemma index_floors:
  assumes "0 < n" and "n < 2 ^ 31"
  shows "times_index n c75 = 3 * n div 4" and "times_index n c95 = 19 * n div 20"
    and "times_index n c99 = 99 * n div 100"
proof -
  show "times_index n c75 = 3 * n div 4"
    unfolding c75_def by (rule times_index_floor [OF assms, where d = 0]) simp_all
  show "times_index n c95 = 19 * n div 20"
    unfolding c95_def by (rule times_index_floor [OF assms, where d = 8]) simp_all
  show "times_index n c99 = 99 * n div 100"
    unfolding c99_def by (rule times_index_floor [OF assms, where d = 8]) simp_all
qed

lemma index_bounds:
  assumes "0 < (n :: nat)"
  shows "n div 4 < n" and "3 * n div 4 < n" and "19 * n div 20 < n" and "99 * n div 100 < n"
  using assms by linarith+

subsection \<open>The report\<close>

text \<open>
  C36. The report of up to \<open>2 ^ 31 - 1\<close> samples: the four indices are in range, the last three exactly
  the floors of 75, 95 and 99 percent of \<open>n\<close> although neither \<open>0.95\<close> nor \<open>0.99\<close> is exact, and the
  values are in ascending order.  The value printed as P50 is the sample a quarter up, not the
  median.
\<close>
theorem benchmark_percentiles:
  assumes "0 < length time" and "length time < 2 ^ 31"
  shows "\<exists>r. showBenchmark time = Inr r \<and> p50 r = sort time ! (length time div 4) \<and>
    p75 r = sort time ! (3 * length time div 4) \<and> p95 r = sort time ! (19 * length time div 20) \<and>
    p99 r = sort time ! (99 * length time div 100) \<and> p50 r \<le> p75 r \<and> p75 r \<le> p95 r \<and> p95 r \<le> p99 r \<and>
    {p50 r, p75 r, p95 r, p99 r} \<subseteq> set time"
proof -
  let ?n = "length time" and ?ts = "sort time"
  note i = index_bounds [OF assms(1)]
  have o: "?n div 4 \<le> 3 * ?n div 4" "3 * ?n div 4 \<le> 19 * ?n div 20" "19 * ?n div 20 \<le> 99 * ?n div 100"
    by linarith+
  have sorted: "?ts ! x \<le> ?ts ! y" if "x \<le> y" "y < ?n" for x y
    using that by (intro sorted_nth_mono) simp_all
  have in_set: "?ts ! x \<in> set time" if "x < ?n" for x
    using nth_mem [of x ?ts] that by simp
  show ?thesis
    using i o sorted in_set index_floors [OF assms] by (simp add: showBenchmark_def time_at_def Let_def)
qed

theorem benchmark_percentiles_witness:
  "\<exists>r. showBenchmark [40, 10, 30, 20] = Inr r \<and> p50 r = 20 \<and> p99 r = 40"
  using benchmark_percentiles [of "[40, 10, 30, 20]"] by auto

text \<open>
  Without a sample the report reads past the end of an empty vector: this is what the engine does
  at its end when it got no order, and for the times between orders when it got one.
\<close>
theorem benchmark_without_samples:
  assumes "length time < 2 ^ 31"
  shows "showBenchmark time = Inl OutOfBounds \<longleftrightarrow> time = []"
proof (cases "time = []")
  case False
  then have n: "0 < length time" by simp
  show ?thesis
    using False index_bounds [OF n] index_floors [OF n assms] by (simp add: showBenchmark_def time_at_def Let_def)
qed (simp add: showBenchmark_def time_at_def)

theorem benchmark_without_samples_witness: "showBenchmark [] = Inl OutOfBounds \<and> showBenchmark [7] \<noteq> Inl OutOfBounds"
  using benchmark_without_samples [of "[]"] benchmark_without_samples [of "[7]"] by simp

end
