(* ===== verification/ThreadStart.thy ===== *)
theory ThreadStart
  imports Prelude
begin

text \<open>
  \<open>header/Thread.h\<close>: \<open>createAndStartThread\<close>, as the interleaving of the thread that calls it and the
  thread it makes.  They share the flags \<open>running\<close> and \<open>failed\<close>; \<open>body_at\<close> and \<open>creator_at\<close> say which
  statement comes next.  Whether the operating system pins a thread to a core (\<open>setThreadCore\<close>) is
  the parameter \<open>can_pin\<close>.  The body uses the function it gets by reference, \<open>func\<close>, in \<open>BodyCalls\<close>.
\<close>

datatype body_pc = BodyPins | BodyAnnounces | BodyCalls | BodyRuns | BodyDone

text \<open>\<open>CreatorReturned b\<close>: the result is the new thread (\<open>b\<close>) or \<open>nullptr\<close>.\<close>

datatype creator_pc = CreatorWaits | CreatorJoins | CreatorReturned bool

record startup =
  running :: bool
  failed :: bool
  body_at :: body_pc
  creator_at :: creator_pc

definition startup_new :: startup where
  "startup_new = \<lparr>running = False, failed = False, body_at = BodyPins, creator_at = CreatorWaits\<rparr>"

text \<open>\<open>core_id >= 0 && !setThreadCore(core_id)\<close> is false.\<close>

definition pins :: "(int \<Rightarrow> bool) \<Rightarrow> int \<Rightarrow> bool" where
  "pins can_pin core_id \<longleftrightarrow> core_id < 0 \<or> can_pin core_id"

inductive startup_step :: "(int \<Rightarrow> bool) \<Rightarrow> int \<Rightarrow> startup \<Rightarrow> startup \<Rightarrow> bool" for can_pin core_id where
  pin_fails: "body_at s = BodyPins \<Longrightarrow> \<not> pins can_pin core_id \<Longrightarrow>
    startup_step can_pin core_id s (s\<lparr>failed := True, body_at := BodyDone\<rparr>)"
| pin_works: "body_at s = BodyPins \<Longrightarrow> pins can_pin core_id \<Longrightarrow>
    startup_step can_pin core_id s (s\<lparr>body_at := BodyAnnounces\<rparr>)"
| announce: "body_at s = BodyAnnounces \<Longrightarrow>
    startup_step can_pin core_id s (s\<lparr>running := True, body_at := BodyCalls\<rparr>)"
| call: "body_at s = BodyCalls \<Longrightarrow> startup_step can_pin core_id s (s\<lparr>body_at := BodyRuns\<rparr>)"
| func_returns: "body_at s = BodyRuns \<Longrightarrow> startup_step can_pin core_id s (s\<lparr>body_at := BodyDone\<rparr>)"
| wait: "creator_at s = CreatorWaits \<Longrightarrow> \<not> running s \<Longrightarrow> \<not> failed s \<Longrightarrow> startup_step can_pin core_id s s"
| sees_failed: "creator_at s = CreatorWaits \<Longrightarrow> failed s \<Longrightarrow>
    startup_step can_pin core_id s (s\<lparr>creator_at := CreatorJoins\<rparr>)"
| sees_running: "creator_at s = CreatorWaits \<Longrightarrow> running s \<Longrightarrow> \<not> failed s \<Longrightarrow>
    startup_step can_pin core_id s (s\<lparr>creator_at := CreatorReturned True\<rparr>)"
| joined: "creator_at s = CreatorJoins \<Longrightarrow> body_at s = BodyDone \<Longrightarrow>
    startup_step can_pin core_id s (s\<lparr>creator_at := CreatorReturned False\<rparr>)"

inductive_cases startup_stepE: "startup_step can_pin core_id s t"

inductive startup_reachable :: "(int \<Rightarrow> bool) \<Rightarrow> int \<Rightarrow> startup \<Rightarrow> bool" for can_pin core_id where
  start: "startup_reachable can_pin core_id startup_new"
| step: "startup_reachable can_pin core_id s \<Longrightarrow> startup_step can_pin core_id s t \<Longrightarrow>
    startup_reachable can_pin core_id t"

definition startup_inv :: "(int \<Rightarrow> bool) \<Rightarrow> int \<Rightarrow> startup \<Rightarrow> bool" where
  "startup_inv can_pin core_id s \<longleftrightarrow>
     (running s \<longleftrightarrow> pins can_pin core_id \<and> body_at s \<in> {BodyCalls, BodyRuns, BodyDone}) \<and>
     (failed s \<longleftrightarrow> \<not> pins can_pin core_id \<and> body_at s = BodyDone) \<and>
     (body_at s \<in> {BodyAnnounces, BodyCalls, BodyRuns} \<longrightarrow> pins can_pin core_id) \<and>
     (case creator_at s of
        CreatorWaits \<Rightarrow> True
      | CreatorJoins \<Rightarrow> failed s
      | CreatorReturned b \<Rightarrow> (b \<longrightarrow> running s) \<and> (\<not> b \<longrightarrow> failed s))"

lemma startup_step_inv:
  "startup_step can_pin core_id s t \<Longrightarrow> startup_inv can_pin core_id s \<Longrightarrow> startup_inv can_pin core_id t"
  by (induction rule: startup_step.induct) (fastforce simp: startup_inv_def split: creator_pc.splits)+

lemma startup_reachable_inv: "startup_reachable can_pin core_id s \<Longrightarrow> startup_inv can_pin core_id s"
proof (induction rule: startup_reachable.induct)
  case start
  then show ?case by (simp add: startup_inv_def startup_new_def)
next
  case (step s t)
  then show ?case using startup_step_inv by blast
qed

text \<open>Where one of the two threads can go on.\<close>

definition moves :: "(int \<Rightarrow> bool) \<Rightarrow> int \<Rightarrow> startup \<Rightarrow> bool" where
  "moves can_pin core_id s \<longleftrightarrow> (\<exists>t. startup_step can_pin core_id s t \<and> t \<noteq> s)"

lemma movesI:
  "startup_step can_pin core_id s t \<Longrightarrow> creator_at t \<noteq> creator_at s \<or> body_at t \<noteq> body_at s \<Longrightarrow>
    moves can_pin core_id s"
  by (auto simp: moves_def)

lemma body_moves: "body_at s \<noteq> BodyDone \<Longrightarrow> moves can_pin core_id s"
  using movesI [OF pin_fails] movesI [OF pin_works] movesI [OF announce] movesI [OF call] movesI [OF func_returns]
  by (cases "body_at s"; cases "pins can_pin core_id") auto

lemma creator_moves:
  assumes "startup_inv can_pin core_id s" and "body_at s = BodyDone" and "\<And>b. creator_at s \<noteq> CreatorReturned b"
  shows "moves can_pin core_id s"
proof (cases "creator_at s")
  case CreatorWaits
  then show ?thesis
    using assms(1,2) movesI [OF sees_failed] movesI [OF sees_running] by (auto simp: startup_inv_def)
next
  case CreatorJoins
  then show ?thesis using assms(2) movesI [OF joined] by simp
qed (use assms(3) in simp)

text \<open>
  C38. \<open>createAndStartThread\<close> returns the thread exactly when it could be pinned to its core, never
  before that is decided, and \<open>nullptr\<close> only after the thread has ended; the two threads never block
  each other: in every state they reach, one of them can take a step that changes it, or the
  creator has returned and the thread has ended.
\<close>
theorem thread_start_handshake:
  assumes "startup_reachable can_pin core_id s"
  shows "(\<forall>b. creator_at s = CreatorReturned b \<longrightarrow>
      b = pins can_pin core_id \<and> (if b then running s else failed s \<and> body_at s = BodyDone)) \<and>
    ((\<exists>t. startup_step can_pin core_id s t \<and> t \<noteq> s) \<or>
     (\<exists>b. creator_at s = CreatorReturned b) \<and> body_at s = BodyDone)"
proof -
  have inv: "startup_inv can_pin core_id s" using assms by (rule startup_reachable_inv)
  have "b = pins can_pin core_id \<and> (if b then running s else failed s \<and> body_at s = BodyDone)"
    if "creator_at s = CreatorReturned b" for b
    using inv that by (cases b) (auto simp: startup_inv_def)
  moreover have "moves can_pin core_id s" if "\<not> ((\<exists>b. creator_at s = CreatorReturned b) \<and> body_at s = BodyDone)"
    using that body_moves creator_moves [OF inv] by blast
  ultimately show ?thesis unfolding moves_def by blast
qed

theorem thread_start_handshake_witness:
  "\<exists>t. startup_step (\<lambda>_. True) 1 startup_new t \<and> t \<noteq> startup_new"
  using thread_start_handshake [OF startup_reachable.start, of "\<lambda>_. True" 1] by (simp add: startup_new_def)

text \<open>
  The creator does not wait until the new thread has called its function: it can return, and end
  the lifetime of the function object that it passed, while the thread, which holds it by reference,
  is still about to call it.  (\<open>Program\<close> has the fault that follows from that.)
\<close>
theorem thread_function_outlived:
  "\<exists>s. startup_reachable (\<lambda>_. True) core_id s \<and> creator_at s = CreatorReturned True \<and> body_at s = BodyCalls"
proof -
  let ?R = "startup_reachable (\<lambda>_. True) core_id"
  let ?s1 = "startup_new\<lparr>body_at := BodyAnnounces\<rparr>"
  let ?s2 = "?s1\<lparr>running := True, body_at := BodyCalls\<rparr>"
  have "?R ?s1"
    by (rule startup_reachable.step [OF start pin_works]) (simp_all add: startup_new_def pins_def)
  then have "?R ?s2" by (rule startup_reachable.step [OF _ announce]) (simp add: startup_new_def)
  then have "?R (?s2\<lparr>creator_at := CreatorReturned True\<rparr>)"
    by (rule startup_reachable.step [OF _ sees_running]) (simp_all add: startup_new_def)
  then show ?thesis
    by (intro exI [of _ "?s2\<lparr>creator_at := CreatorReturned True\<rparr>"]) (simp add: startup_new_def)
qed

end
