(* ===== verification/LogFlow.thy ===== *)
theory LogFlow
  imports Market GatewayProofs LoggerProofs
begin

text \<open>
  What flows to the logger: the engine and the gateway publish only elements whose payload fits
  their id, with the prices of the orders they handle, and publishing never reads: as long as the
  logger stands still, what it has read stays as it is.
\<close>

subsection \<open>The engine writes its log and never reads it\<close>

definition unread :: "ME \<Rightarrow> ME \<Rightarrow> bool" where
  "unread s s' \<longleftrightarrow> delivered (matchLog s') = delivered (matchLog s)"

lemma unread_simps [simp]: "unread s s"
  by (simp add: unread_def)

lemma unread_trans: "unread s s1 \<Longrightarrow> unread s1 s2 \<Longrightarrow> unread s s2"
  by (simp add: unread_def)

lemma unread_log_write: "log_env H = (\<lambda>_. 0) \<Longrightarrow> unread s (log_write H lid t v s)"
  by (simp add: unread_def log_write_def split_def Let_def publish_0_delivered)

lemma matchLog_frames [simp]:
  "matchLog (set_opp b bk s) = matchLog s" "matchLog (set_own b bk s) = matchLog s"
  "matchLog (snd (ack_attempt H a s)) = matchLog s" "matchLog (Ack H ord i t q s) = matchLog s"
  "matchLog (snd (bcast_attempt H x s)) = matchLog s" "matchLog (snd (now_cycle H s)) = matchLog s"
  by (simp_all add: set_opp_def set_own_def ack_attempt_def Ack_def bcast_attempt_def now_cycle_def split_def Let_def)

lemma ack_sniper_log: "ack_sniper H ord t s = Inr s' \<Longrightarrow> matchLog s' = matchLog s"
  by (auto simp: ack_sniper_def bindR_eq_Inr split: if_splits)

lemma bcast_spin_log:
  assumes "bcast_spin H msg s = Some s'"
  shows "matchLog s' = matchLog s"
  by (rule bcast_spin.raw_induct [where P = "\<lambda>H msg s s'. matchLog s' = matchLog s", OF _ assms])
    (auto split: if_splits)

lemma changeInQuantity_log: "changeInQuantity H i pr q t c s = Some (Inr s') \<Longrightarrow> matchLog s' = matchLog s"
  by (auto simp: changeInQuantity_def dest: bcast_spin_log)

lemma matchLog_if [simp]: "matchLog (if P then s else s') = (if P then matchLog s else matchLog s')"
  by simp

lemma unread_cong: "matchLog s1 = matchLog (log_write H lid t v s0) \<Longrightarrow> matchLog s0 = matchLog s \<Longrightarrow>
    log_env H = (\<lambda>_. 0) \<Longrightarrow> unread s s1"
  using unread_log_write [of H s0 lid t v] by (simp add: unread_def)

lemma unread_same: "matchLog s' = matchLog s \<Longrightarrow> unread s s'"
  by (simp add: unread_def)

lemma match_level_unread:
  assumes H: "log_env H = (\<lambda>_. 0)"
  shows "match_level H b idx cs s order = Inr (s', order') \<Longrightarrow> unread s s'"
proof (induction cs arbitrary: s order)
  case (Cons c cs)
  define x where "x = book (opp b s) ! idx ! c"
  show ?case
  proof (cases "quantity x = 0")
    case True
    with Cons show ?thesis by (simp add: x_def)
  next
    case False
    define t where "t = (if quantity x < quantity order then quantity x else quantity order)"
    define o1 where "o1 = order\<lparr>quantity := quantity order - t\<rparr>"
    define s1 where "s1 = set_opp b (set_quantity (opp b s) idx c (quantity x - t)) s"
    define s3 where "s3 = log_write H ME_AGGRESSIVE_MATCH (tsc H (clk s1)) (VLOBOrder o1) (s1\<lparr>clk := Suc (clk s1)\<rparr>)"
    define s4 where "s4 = (if trade_id order = 1 then Ack H o1 idx (CHR ''T'') t s3 else s3)"
    define s5 where "s5 = (if trade_id x = 1 then Ack H (x\<lparr>quantity := quantity x - t\<rparr>) idx (CHR ''T'') t s4 else s4)"
    have "match_level H b idx (c # cs) s order =
        bindR (if quantity x - t = 0 then bindR (deleteOrder (opp b s5) (int_of_size (unat (system_id x))))
            (\<lambda>bk. Inr (set_opp b bk s5)) else Inr s5)
          (\<lambda>s6. if quantity o1 = 0 then Inr (s6, o1) else match_level H b idx cs s6 o1)"
      using False
      by (simp add: Let_def x_def [symmetric] t_def [symmetric] now_cycle_def o1_def s1_def s3_def s4_def s5_def)
    note bindR_eq_Inr [THEN iffD1, OF trans [OF sym [OF this] Cons.prems]]
    then obtain s6 where
      del: "(if quantity x - t = 0 then bindR (deleteOrder (opp b s5) (int_of_size (unat (system_id x))))
            (\<lambda>bk. Inr (set_opp b bk s5)) else Inr s5) = Inr s6"
      and run: "(if quantity o1 = 0 then Inr (s6, o1) else match_level H b idx cs s6 o1) = Inr (s', order')"
      by blast
    have s6: "matchLog s6 = matchLog s5" using del by (auto simp: bindR_eq_Inr split: if_splits)
    have "matchLog s6 = matchLog s3" by (simp add: s6 s5_def s4_def)
    moreover have "matchLog (s1\<lparr>clk := Suc (clk s1)\<rparr>) = matchLog s" by (simp add: s1_def)
    ultimately have "unread s s6" unfolding s3_def using H by (rule unread_cong)
    with run Cons.IH show ?thesis using unread_trans by (fastforce split: if_splits)
  qed
qed simp

lemma aggresiveMatch_unread:
  assumes "log_env H = (\<lambda>_. 0)" and "aggresiveMatch H b s order = Some (Inr (s', order'))"
  shows "unread s s'"
proof -
  let ?P = "\<lambda>H (b :: bool) s (order :: LOBOrder) (y :: (ME \<times> LOBOrder) result). log_env H = (\<lambda>_. 0) \<longrightarrow> (\<forall>r. y = Inr r \<longrightarrow> unread s (fst r))"
  have "?P H b s order (Inr (s', order'))"
  proof (rule aggresiveMatch.raw_induct [where P = ?P, OF _ assms(2)])
    fix f H b s order y
    assume IH: "\<And>H b s order y. f H b s order = Some y \<Longrightarrow> ?P H b s order y"
      and body: "(if quantity order = 0 then Some (Inr (s, order))
        else bindO (Some (price_index (price order))) (\<lambda>pr.
          let best = get_optimal_price (opp b s)
          in if (if b then pr < best else best < pr) then Some (Inr (s, order))
             else case get_order_at_prize (opp b s) best of
               None \<Rightarrow> Some (Inr (s, order))
             | Some l \<Rightarrow>
                 if book (opp b s) ! l = [] then Some (Inr (s, order))
                 else bindO (Some (match_level H b l [0..<length (book (opp b s) ! l)] s order))
                        (\<lambda>r. f H b (fst r) (snd r)))) = Some y"
    show "?P H b s order y"
    proof (intro impI allI)
      fix r assume H: "log_env H = (\<lambda>_. 0)" and y: "y = Inr r"
      have "r = (s, order) \<or> (\<exists>l s1 o1. match_level H b l [0..<length (book (opp b s) ! l)] s order = Inr (s1, o1) \<and>
          f H b s1 o1 = Some (Inr r))"
        using body unfolding y
        by (auto simp: Let_def bindO_eq_Some_Inr simp del: match_level.simps split: if_splits option.splits)
      then show "unread s (fst r)"
      proof (elim disjE exE conjE)
        fix l s1 o1
        assume m: "match_level H b l [0..<length (book (opp b s) ! l)] s order = Inr (s1, o1)"
          and f: "f H b s1 o1 = Some (Inr r)"
        have "unread s1 (fst r)" using IH [OF f] H by simp
        with match_level_unread [OF H m] show ?thesis by (rule unread_trans)
      qed simp
    qed
  qed
  then show ?thesis using assms(1) by simp
qed

lemma create_order_unread:
  assumes H: "log_env H = (\<lambda>_. 0)" and run: "create_order H order b s = Some (Inr (t, order', s'))"
  shows "unread s s'"
proof -
  obtain s1 o1 where m: "aggresiveMatch H b s order = Some (Inr (s1, o1))"
    and "matchLog s' = matchLog s1 \<or> (\<exists>lid t v s0. matchLog s' = matchLog (log_write H lid t v s0) \<and> matchLog s0 = matchLog s1)"
    using run
    by (fastforce simp: create_order_def Let_def split_def bindO_eq_Some_Inr now_cycle_def
        dest: changeInQuantity_log ack_sniper_log split: if_splits)
  then have "unread s1 s'" using unread_cong [OF _ _ H] unread_same by blast
  with aggresiveMatch_unread [OF H m] show ?thesis by (rule unread_trans)
qed

lemma deleteOrder_ME_unread:
  assumes H: "log_env H = (\<lambda>_. 0)" and run: "deleteOrder_ME H r b s = Some (Inr (t, s'))"
  shows "unread s s'"
proof -
  have "\<exists>lid t v s0. matchLog s' = matchLog (log_write H lid t v s0) \<and> matchLog s0 = matchLog s"
    using run
    by (fastforce simp: deleteOrder_ME_def Let_def split_def bindO_eq_Some_Inr now_cycle_def
        dest: changeInQuantity_log ack_sniper_log)
  then show ?thesis using unread_cong [OF _ _ H] by blast
qed

lemma updateOrder_unread:
  assumes H: "log_env H = (\<lambda>_. 0)" and run: "updateOrder H order b s = Some (Inr (t, order', s'))"
  shows "unread s s'"
proof -
  obtain pe where pe: "peekOrder (own b s) (system_id order) = Inr pe"
    using run by (auto simp: updateOrder_def bindO_eq_Some_Inr)
  show ?thesis
  proof (cases pe)
    case None
    with run pe show ?thesis by (simp add: updateOrder_def)
  next
    case (Some pc)
    obtain p c where pc: "pc = (p, c)" by (cases pc)
    show ?thesis
    proof (cases "f32_eq (price order) (price (book (own b s) ! p ! c))")
      case True
      have "matchLog s' = matchLog s \<or> (\<exists>lid t v s0. matchLog s' = matchLog (log_write H lid t v s0) \<and> matchLog s0 = matchLog s)"
        using run pe Some pc True
        by (fastforce simp: updateOrder_def Let_def split_def bindO_eq_Some_Inr now_cycle_def
            dest: changeInQuantity_log ack_sniper_log split: if_splits)
      then show ?thesis using unread_cong [OF _ _ H] unread_same by blast
    next
      case False
      obtain t1 s1 t2 o2 s2 where d: "deleteOrder_ME H (InBook p c) b s = Some (Inr (t1, s1))"
        and c: "create_order H order b s1 = Some (Inr (t2, o2, s2))" and l: "matchLog s' = matchLog s2"
        using run pe Some pc False
        by (fastforce simp: updateOrder_def Let_def split_def bindO_eq_Some_Inr now_cycle_def)
      show ?thesis
        by (rule unread_trans [OF deleteOrder_ME_unread [OF H d] unread_trans [OF create_order_unread [OF H c] unread_same [OF l]]])
    qed
  qed
qed

lemma readOrder_unread:
  assumes H: "log_env H = (\<lambda>_. 0)" and run: "readOrder H s = Some (Inr s')"
  shows "unread s s'"
proof (cases "getNextToRead (LobOrderQueue s)")
  case None
  with run show ?thesis by (simp add: readOrder_def)
next
  case (Some i)
  define order where "order = read_slot i (LobOrderQueue s)"
  obtain t o1 s1 where d: "dispatch H order (received H order s) = Some (Inr (t, o1, s1))" and l: "matchLog s' = matchLog s1"
    using run by (auto simp: readOrder_dispatch [OF Some order_def] bindO_eq_Some_Inr split_def)
  have "unread s (received H order s)"
    by (rule unread_cong [OF _ _ H]) (simp add: received_def Let_def, simp)
  moreover have "unread (received H order s) s1"
    using d create_order_unread [OF H] updateOrder_unread [OF H] deleteOrder_ME_unread [OF H]
    by (auto simp: dispatch_def Let_def bindO_eq_Some_Inr split_def split: if_splits)
  ultimately show ?thesis using unread_same [OF l] unread_trans by blast
qed

subsection \<open>The log of the gateway\<close>

definition gw_log_ok :: "f32 set \<Rightarrow> LogElement \<Rightarrow> bool" where
  "gw_log_ok P e \<longleftrightarrow> log_typed e \<and> price_in (log_data e) \<in> P"

lemma gw_log_adds:
  "gw_log_ok P \<lparr>log_id = l, timestamp = t, log_data = v\<rparr> \<Longrightarrow> adds (gw_log_ok P) (gw_Logger g) (gw_Logger (gw_log H l t v g))"
  by (rule sends_adds [OF gw_log_sends]) simp

lemma gw_log_now_adds:
  "gw_log_ok P \<lparr>log_id = l, timestamp = gtsc H (gclk g), log_data = v\<rparr> \<Longrightarrow>
    adds (gw_log_ok P) (gw_Logger g) (gw_Logger (gw_log_now H l v g))"
  by (rule sends_adds [OF gw_log_now_sends]) simp

lemma gw_log_delivered:
  "glog_env H = (\<lambda>_. 0) \<Longrightarrow> delivered (gw_Logger (gw_log H l t v g)) = delivered (gw_Logger g)"
  "glog_env H = (\<lambda>_. 0) \<Longrightarrow> delivered (gw_Logger (gw_log_now H l v g)) = delivered (gw_Logger g)"
  by (simp_all add: gw_log_def gw_log_now_def split_def Let_def publish_0_delivered)

text \<open>What a part of the gateway's turn did to the log; \<open>P\<close> are the prices in the messages it handled.\<close>

definition gw_logged :: "gw_hw \<Rightarrow> f32 set \<Rightarrow> OrderGateway \<Rightarrow> OrderGateway \<Rightarrow> bool" where
  "gw_logged H P g g' \<longleftrightarrow> adds (gw_log_ok P) (gw_Logger g) (gw_Logger g') \<and>
     (glog_env H = (\<lambda>_. 0) \<longrightarrow> delivered (gw_Logger g') = delivered (gw_Logger g))"

lemma gw_logged_trans: "gw_logged H P g g1 \<Longrightarrow> gw_logged H P g1 g2 \<Longrightarrow> gw_logged H P g g2"
  using adds_trans by (auto simp: gw_logged_def)

lemma gw_logged_same: "gw_Logger g' = gw_Logger g \<Longrightarrow> gw_logged H P g g'"
  by (simp add: gw_logged_def)

lemma gw_log_logged:
  assumes "gw_log_ok P \<lparr>log_id = l, timestamp = t, log_data = v\<rparr>"
  shows "gw_logged H P g (gw_log H l t v g)"
  using gw_log_adds [OF assms] gw_log_delivered by (simp add: gw_logged_def)

lemma gw_log_now_logged:
  assumes "\<And>t. gw_log_ok P \<lparr>log_id = l, timestamp = t, log_data = v\<rparr>"
  shows "gw_logged H P g (gw_log_now H l v g)"
  using gw_log_now_adds [OF assms] gw_log_delivered by (simp add: gw_logged_def)

lemma gatewayOrderProcess_logged:
  assumes "gatewayOrderProcess H order g = Inr g'" and "uo_price order \<in> P"
  shows "gw_logged H P g g'"
proof -
  define g1 where "g1 = gw_log H GATEWAY_RECEIVE_USER_ORDER (gtsc H (gclk g)) (VUserOrder order) (g\<lparr>gclk := Suc (gclk g)\<rparr>)"
  have ok: "gw_log_ok P \<lparr>log_id = GATEWAY_RECEIVE_USER_ORDER, timestamp = t, log_data = VUserOrder order\<rparr>"
    "price x = uo_price order \<Longrightarrow> gw_log_ok P \<lparr>log_id = GATEWAY_SEND_TO_ME, timestamp = t, log_data = VLOBOrder x\<rparr>" for t x
    using assms(2) by (simp_all add: gw_log_ok_def log_typed_def price_in_def)
  have "gw_logged H P (g\<lparr>gclk := Suc (gclk g)\<rparr>) g1" unfolding g1_def by (rule gw_log_logged [OF ok(1)])
  moreover have "gw_logged H P g1 g'"
  proof -
    obtain i g2 where a: "AssignSystemId g1 (uo_order_id order) = Inr (i, g2)"
      using assms(1) by (auto simp: gatewayOrderProcess_def g1_def [symmetric] bindR_eq_Inr Let_def)
    have l2: "gw_Logger g2 = gw_Logger g1" using a by (auto simp: AssignSystemId_def Let_def split: if_splits)
    define x where "x = lob_order_of (gtsc H (gclk g)) i (gtsc H (gclk g2)) order"
    obtain b p where p: "publish (lob_env H (gacc g2)) x (gw_LobOrderQueue g2) = (b, p)" by fastforce
    show ?thesis
    proof (cases b)
      case False
      then have "g' = g2\<lparr>gw_LobOrderQueue := p, gacc := Suc (gacc g2)\<rparr>"
        using assms(1) a p by (simp add: gatewayOrderProcess_def g1_def [symmetric] x_def [symmetric])
      then show ?thesis using l2 by (intro gw_logged_same) simp
    next
      case True
      define g4 where "g4 = g2\<lparr>gw_LobOrderQueue := p, gacc := Suc (gacc g2), gclk := gclk g2 + 2,
        gw_order_gateway_time := gw_order_gateway_time g2 @ [gtsc H (Suc (gclk g2)) - gtsc H (gclk g)]\<rparr>"
      have "g' = gw_log_now H GATEWAY_SEND_TO_ME (VLOBOrder (x\<lparr>quantity := seen_quantity H (gacc g4) (quantity x)\<rparr>)) g4"
        using True assms(1) a p by (simp add: gatewayOrderProcess_def g1_def [symmetric] x_def [symmetric] g4_def)
      moreover have "price (x\<lparr>quantity := k\<rparr>) = uo_price order" for k by (simp add: x_def lob_order_of_def)
      ultimately have "gw_logged H P g4 g'" using gw_log_now_logged [OF ok(2)] by simp
      moreover have "gw_logged H P g1 g4" by (rule gw_logged_same) (simp add: g4_def l2)
      ultimately show ?thesis by (metis gw_logged_trans)
    qed
  qed
  ultimately have "gw_logged H P (g\<lparr>gclk := Suc (gclk g)\<rparr>) g'" by (rule gw_logged_trans)
  then show ?thesis by (simp add: gw_logged_def)
qed

lemma read_in_contents:
  assumes "lfq_inv q" and "getNextToRead q = Some i"
  shows "read_slot i q \<in> set (contents q)"
proof -
  have "contents q \<noteq> []" using empty_iff_contents [OF assms(1)] assms(2) by simp
  then obtain q' where "contents q = read_slot i q # contents q'"
    using release_contents [OF assms] updateReadIndex_after_get(2) [OF assms(2)] by metis
  then show ?thesis by simp
qed

lemma gatewayOrderProcess_inputs: "gatewayOrderProcess H order g = Inr g' \<Longrightarrow> same_inputs g g'"
  by (auto simp: gatewayOrderProcess_def AssignSystemId_def Let_def split_def same_inputs_def split: if_splits)

lemma take_sniper_logged:
  assumes "lfq_inv (gw_SniperOrderQueue g)" and "take_sniper H g = Inr g'"
    and "\<And>x. x \<in> set (contents (gw_SniperOrderQueue g)) \<Longrightarrow> uo_price x \<in> P"
  shows "gw_logged H P g g'" and "gw_MMorderQueue g' = gw_MMorderQueue g" and "gw_LobAckQueue g' = gw_LobAckQueue g"
proof -
  have "gw_logged H P g g' \<and> gw_MMorderQueue g' = gw_MMorderQueue g \<and> gw_LobAckQueue g' = gw_LobAckQueue g"
  proof (cases "getNextToRead (gw_SniperOrderQueue g)")
    case None
    with assms(2) show ?thesis by (simp add: take_sniper_def gw_logged_same)
  next
    case (Some i)
    obtain g1 q where g1: "gatewayOrderProcess H (read_slot i (gw_SniperOrderQueue g)) g = Inr g1"
      and g': "g' = g1\<lparr>gw_SniperOrderQueue := q\<rparr>"
      using assms(2) by (auto simp: take_sniper_def Some bindR_eq_Inr)
    have "gw_logged H P g g1"
      by (rule gatewayOrderProcess_logged [OF g1 assms(3) [OF read_in_contents [OF assms(1) Some]]])
    with gatewayOrderProcess_inputs [OF g1] show ?thesis by (simp add: g' gw_logged_def same_inputs_def)
  qed
  then show "gw_logged H P g g'" "gw_MMorderQueue g' = gw_MMorderQueue g" "gw_LobAckQueue g' = gw_LobAckQueue g"
    by simp_all
qed

lemma take_mm_logged:
  assumes "lfq_inv (gw_MMorderQueue g)" and "take_mm H g = Inr g'"
    and "\<And>x. x \<in> set (contents (gw_MMorderQueue g)) \<Longrightarrow> uo_price x \<in> P"
  shows "gw_logged H P g g'" and "gw_LobAckQueue g' = gw_LobAckQueue g"
proof -
  have "gw_logged H P g g' \<and> gw_LobAckQueue g' = gw_LobAckQueue g"
  proof (cases "getNextToRead (gw_MMorderQueue g)")
    case None
    with assms(2) show ?thesis by (simp add: take_mm_def gw_logged_same)
  next
    case (Some i)
    obtain g1 q where g1: "gatewayOrderProcess H (read_slot i (gw_MMorderQueue g)) g = Inr g1"
      and g': "g' = g1\<lparr>gw_MMorderQueue := q\<rparr>"
      using assms(2) by (auto simp: take_mm_def Some bindR_eq_Inr)
    have "gw_logged H P g g1"
      by (rule gatewayOrderProcess_logged [OF g1 assms(3) [OF read_in_contents [OF assms(1) Some]]])
    with gatewayOrderProcess_inputs [OF g1] show ?thesis by (simp add: g' gw_logged_def same_inputs_def)
  qed
  then show "gw_logged H P g g'" "gw_LobAckQueue g' = gw_LobAckQueue g" by simp_all
qed

lemma take_ack_logged:
  assumes "lfq_inv (gw_LobAckQueue g)" and "take_ack H g = Inr g'"
    and "\<And>a. a \<in> set (contents (gw_LobAckQueue g)) \<Longrightarrow> la_price a \<in> P"
  shows "gw_logged H P g g'"
proof (cases "getNextToRead (gw_LobAckQueue g)")
  case None
  with assms(2) show ?thesis by (simp add: take_ack_eq gw_logged_same)
next
  case (Some i)
  define a where "a = read_slot i (gw_LobAckQueue g)"
  have pr: "la_price a \<in> P" unfolding a_def by (rule assms(3) [OF read_in_contents [OF assms(1) Some]])
  define g1 where "g1 = gw_log_now H GATEWAY_RECEIVE_ME_ACK (VLOBAck a) g"
  obtain b p where p: "publish (uack_env H (gacc g1)) (user_ack_of g1 a) (gw_SniperOrderAck g) = (b, p)" by fastforce
  define g2 where "g2 = g1\<lparr>gw_SniperOrderAck := p, gacc := Suc (gacc g1)\<rparr>"
  have l1: "gw_logged H P g g1"
    unfolding g1_def by (rule gw_log_now_logged) (simp add: gw_log_ok_def log_typed_def price_in_def pr)
  moreover have "gw_logged H P g1 g2" by (rule gw_logged_same) (simp add: g2_def)
  ultimately have l2: "gw_logged H P g g2" by (rule gw_logged_trans)
  show ?thesis
  proof (cases b)
    case False
    then have "g' = g2" using assms(2) p by (simp add: take_ack_eq Some Let_def a_def [symmetric] g1_def [symmetric] g2_def)
    with l2 show ?thesis by simp
  next
    case True
    then obtain q where g': "g' = (gw_log_now H GATEWAY_SEND_USER_ACK (VUserAck (user_ack_of g1 a)) g2)\<lparr>gw_LobAckQueue := q\<rparr>"
      using assms(2) p
      by (auto simp: take_ack_eq Some Let_def a_def [symmetric] g1_def [symmetric] g2_def [symmetric] bindR_eq_Inr)
    have "gw_logged H P g2 (gw_log_now H GATEWAY_SEND_USER_ACK (VUserAck (user_ack_of g1 a)) g2)"
      by (rule gw_log_now_logged) (simp add: gw_log_ok_def log_typed_def price_in_def user_ack_of_def pr)
    with l2 have "gw_logged H P g (gw_log_now H GATEWAY_SEND_USER_ACK (VUserAck (user_ack_of g1 a)) g2)"
      by (rule gw_logged_trans)
    then show ?thesis by (simp add: g' gw_logged_def)
  qed
qed

lemma gateway_turn_logged:
  assumes ok: "gw_ok g" and run: "gateway_turn H g = Inr g'"
    and orders: "\<And>x. x \<in> set (contents (gw_SniperOrderQueue g)) \<union> set (contents (gw_MMorderQueue g)) \<Longrightarrow> uo_price x \<in> P"
    and acks: "\<And>a. a \<in> set (contents (gw_LobAckQueue g)) \<Longrightarrow> la_price a \<in> P"
  shows "gw_logged H P g g'"
proof -
  obtain g1 g2 where g: "take_sniper H g = Inr g1" "take_mm H g1 = Inr g2" "take_ack H g2 = Inr g'"
    using run unfolding gateway_turn_def bindR_eq_Inr by blast
  have q: "lfq_inv (gw_SniperOrderQueue g)" "lfq_inv (gw_MMorderQueue g)" "lfq_inv (gw_LobAckQueue g)"
    using ok by (simp_all add: gw_ok_def)
  note S = take_sniper_logged [OF q(1) g(1), of P]
  have s: "gw_logged H P g g1" "gw_MMorderQueue g1 = gw_MMorderQueue g" "gw_LobAckQueue g1 = gw_LobAckQueue g"
    using S orders by blast+
  have m: "gw_logged H P g1 g2" "gw_LobAckQueue g2 = gw_LobAckQueue g1"
    using take_mm_logged [of g1 H g2 P] g(2) q(2) orders s(2) by auto
  have "gw_logged H P g2 g'"
    using take_ack_logged [of g2 H g' P] g(3) q(3) acks s(3) m(2) by auto
  with s(1) m(1) show ?thesis by (metis gw_logged_trans)
qed

subsection \<open>What the logger finds in its queues\<close>

text \<open>A thread that only adds to a queue makes its contents longer.\<close>

lemma adds_contents:
  assumes "port_inv p" and "adds C p p'" and "delivered p' = delivered p"
  obtains ys where "port_inv p'" and "port_cap p' = port_cap p" and "published p' = published p @ ys"
    and "contents (chan p') = contents (chan p) @ ys" and "\<And>y. y \<in> set ys \<Longrightarrow> C y"
proof -
  obtain ys where ys: "port_inv p'" "port_cap p' = port_cap p" "published p' = published p @ ys" "\<forall>y \<in> set ys. C y"
    by (rule addsD [OF assms(2,1)])
  have "delivered p @ contents (chan p') = (delivered p @ contents (chan p)) @ ys"
    using ys(1,3) assms(1,3) by (simp add: port_inv_def)
  then have "contents (chan p') = contents (chan p) @ ys" by simp
  with ys that show thesis by blast
qed

end
