(* ===== verification/System.thy ===== *)
theory System
  imports AlphaProps EngineProps GatewayProps LogFlow PriceText
begin

text \<open>
  \<open>main.cpp\<close>: the generator, the gateway, the engine and the logger, each in a thread of its own, on
  the queues that \<open>main\<close> creates.

  A turn of a thread is one attempt of \<open>AlphaServer\<close> to publish its next order, one turn of the
  loop of \<open>OrderGateway::run\<close>, one \<open>readOrder\<close>, or one turn of the loop of \<open>Async_Logger::run\<close>; a
  schedule is any list of turns.  After a turn the other end of each queue sees the queue the turn
  left: \<open>reader_moved\<close> is the writer's end after its reader had a turn.  What is outside is a
  \<open>world\<close>: the random numbers, the clocks and what the gateway sees of a quantity it has already
  published.  \<open>main\<close> leaves the acknowledgements to the user and the broadcasts unread, and the
  orders of the market maker unwritten.
\<close>

record world =
  w_alpha :: alpha_hw
  w_gateway :: gw_hw
  w_engine :: hw

record system =
  sent :: nat
  alpha :: AlphaServer
  gateway :: OrderGateway
  engine :: ME
  logger :: Async_Logger

datatype thread = AlphaThread | GatewayThread | EngineThread | LoggerThread

definition queue_size :: nat where
  "queue_size = 200005"

definition max_price_tick :: nat where
  "max_price_tick = 10000"

definition alpha_part :: "world \<Rightarrow> alpha_hw" where
  "alpha_part W = (w_alpha W)\<lparr>alpha_env := (\<lambda>_. 0)\<rparr>"

definition gateway_part :: "world \<Rightarrow> gw_hw" where
  "gateway_part W = (w_gateway W)\<lparr>lob_env := (\<lambda>_. 0), uack_env := (\<lambda>_. 0), glog_env := (\<lambda>_. 0)\<rparr>"

definition engine_part :: "world \<Rightarrow> hw" where
  "engine_part W = (w_engine W)\<lparr>ack_env := (\<lambda>_. 0), bcast_env := (\<lambda>_. 0), log_env := (\<lambda>_. 0)\<rparr>"

definition reader_moved :: "'a LFQueue \<Rightarrow> 'a port \<Rightarrow> 'a port" where
  "reader_moved q p =
     p\<lparr>chan := q, delivered := take (length (published p) - length (contents q)) (published p)\<rparr>"

text \<open>The objects of \<open>main\<close>; the generator has filled its store before it waits for the start.\<close>

definition system_start :: "world \<Rightarrow> system" where
  "system_start W =
     \<lparr>sent = 0,
      alpha = fill_store (alpha_part W) [1..<order_num] (AlphaServer_new (port_new queue_size UserOrder_init)),
      gateway = OrderGateway_new queue_size,
      engine = ME_new max_price_tick queue_size,
      logger = \<lparr>matching_engine_queue = LFQueue_new queue_size LogElement_init,
        order_gateway_queue = LFQueue_new queue_size LogElement_init, file_text = []\<rparr>\<rparr>"

definition alpha_turn :: "world \<Rightarrow> system \<Rightarrow> system outcome" where
  "alpha_turn W z =
     (if sent z < length (TestStore (alpha z))
      then let (b, A) = alpha_attempt (alpha_part W) (TestStore (alpha z) ! sent z) (alpha z)
           in Some (Inr (z\<lparr>sent := (if b then Suc (sent z) else sent z), alpha := A,
                gateway := (gateway z)\<lparr>gw_SniperOrderQueue := chan (AlphaOrderQueue A)\<rparr>\<rparr>))
      else Some (Inr z))"

definition gateway_thread_turn :: "world \<Rightarrow> system \<Rightarrow> system outcome" where
  "gateway_thread_turn W z =
     bindO (Some (gateway_turn (gateway_part W) (gateway z))) (\<lambda>g. Some (Inr (z\<lparr>gateway := g,
       alpha := (alpha z)\<lparr>AlphaOrderQueue := reader_moved (gw_SniperOrderQueue g) (AlphaOrderQueue (alpha z))\<rparr>,
       engine := (engine z)\<lparr>LobOrderQueue := chan (gw_LobOrderQueue g),
         LobAck := reader_moved (gw_LobAckQueue g) (LobAck (engine z))\<rparr>,
       logger := (logger z)\<lparr>order_gateway_queue := chan (gw_Logger g)\<rparr>\<rparr>)))"

definition engine_turn :: "world \<Rightarrow> system \<Rightarrow> system outcome" where
  "engine_turn W z =
     bindO (readOrder (engine_part W) (engine z)) (\<lambda>s. Some (Inr (z\<lparr>engine := s,
       gateway := (gateway z)\<lparr>gw_LobOrderQueue := reader_moved (LobOrderQueue s) (gw_LobOrderQueue (gateway z)),
         gw_LobAckQueue := chan (LobAck s)\<rparr>,
       logger := (logger z)\<lparr>matching_engine_queue := chan (matchLog s)\<rparr>\<rparr>)))"

definition logger_thread_turn :: "world \<Rightarrow> system \<Rightarrow> system outcome" where
  "logger_thread_turn W z =
     bindO (Some (logger_turn (logger z))) (\<lambda>a. Some (Inr (z\<lparr>logger := a,
       engine := (engine z)\<lparr>matchLog := reader_moved (matching_engine_queue a) (matchLog (engine z))\<rparr>,
       gateway := (gateway z)\<lparr>gw_Logger := reader_moved (order_gateway_queue a) (gw_Logger (gateway z))\<rparr>\<rparr>)))"

fun thread_turn :: "world \<Rightarrow> thread \<Rightarrow> system \<Rightarrow> system outcome" where
  "thread_turn W AlphaThread = alpha_turn W"
| "thread_turn W GatewayThread = gateway_thread_turn W"
| "thread_turn W EngineThread = engine_turn W"
| "thread_turn W LoggerThread = logger_thread_turn W"

fun run_schedule :: "world \<Rightarrow> thread list \<Rightarrow> system \<Rightarrow> system outcome" where
  "run_schedule W [] z = Some (Inr z)"
| "run_schedule W (t # ts) z = bindO (thread_turn W t z) (run_schedule W ts)"

end
