(* ===== verification/SystemProofs.thy ===== *)
theory SystemProofs
  imports System
begin

text \<open>
  The four threads together: an invariant of the whole system that every turn of every thread
  keeps, and the progress each turn makes.
\<close>

subsection \<open>A reader's turn, seen from the writer\<close>

lemma reader_moved_simps [simp]:
  "chan (reader_moved q p) = q" "published (reader_moved q p) = published p"
  by (simp_all add: reader_moved_def)

lemma reader_moved_cap: "length (store q) = length (store (chan p)) \<Longrightarrow> port_cap (reader_moved q p) = port_cap p"
  by (simp add: port_cap_def)

lemma port_lfq: "port_inv p \<Longrightarrow> lfq_inv (chan p)"
  by (simp add: port_inv_def)

lemma take_front: "take (length (xs @ ys) - length ys) (xs @ ys) = xs"
  by simp

lemma reader_moved_inv:
  assumes "port_inv p" and "lfq_inv q" and "contents q = drop k (contents (chan p))"
  shows "port_inv (reader_moved q p)"
proof -
  have p: "published p = (delivered p @ take k (contents (chan p))) @ contents q"
    using assms(1,3) by (simp add: port_inv_def)
  have "take (length (published p) - length (contents q)) (published p) @ contents q = published p"
    unfolding p take_front ..
  then show ?thesis using assms(2) by (simp add: port_inv_def reader_moved_def)
qed

subsection \<open>The ids in the market\<close>

lemma match_walk_tags:
  assumes "\<And>p x. x \<in> set (lv p) \<Longrightarrow> tag x \<in> I" and "x \<in> set (fst (match_walk ps q lv) r)"
  shows "tag x \<in> I"
  using assms
proof (induction ps arbitrary: q lv)
  case (Cons p ps)
  obtain os q1 where f: "fill q (lv p) = (os, q1)" by fastforce
  have lv: "tag y \<in> I" if y: "y \<in> set ((lv(p := os)) s)" for s y
    by (rule fill_update_tags [where lv = lv and p = p and q = q and r = s]) (use y f Cons.prems(1) in auto)
  have "x \<in> set (fst (match_walk ps q1 (lv(p := os))) r)" using Cons.prems(2) f by simp
  with lv show ?case by (rule Cons.IH)
qed auto

lemma m_create_tags: "tags_of (m_create mx order pr b m) \<subseteq> touches order m"
proof -
  obtain lv q where w: "match_walk (path b mx pr) (quantity order) (side (\<not> b) m) = (lv, q)" by fastforce
  have lv: "tag x \<in> touches order m" if "x \<in> set (lv p)" for x p
    by (rule match_walk_tags [where lv = "side (\<not> b) m" and ps = "path b mx pr" and q = "quantity order"
          and r = p, OF touches_side]) (use w that in auto)
  have sides: "x \<in> set (side b (m_create mx order pr b m) p) \<Longrightarrow> tag x \<in> touches order m"
    "x \<in> set (side (\<not> b) (m_create mx order pr b m) p) \<Longrightarrow> tag x \<in> touches order m" for x p
    using lv touches_side [of x b m] by (auto simp: m_create_def w Let_def split: if_splits)
  have "tag x \<in> touches order m" if "x \<in> set (side c (m_create mx order pr b m) p)" for c x p
    using sides [of x p] that by (cases "c = b") auto
  then show ?thesis by (auto simp: tags_of_iff)
qed

definition ids_below :: "nat \<Rightarrow> u32 set" where
  "ids_below n = word_of_nat ` {..<n}"

lemma ids_below_Suc: "ids_below (Suc n) = insert (word_of_nat n) (ids_below n)"
  by (simp add: ids_below_def lessThan_Suc)

lemma ids_below_mono: "n \<le> m \<Longrightarrow> ids_below n \<subseteq> ids_below m"
  by (auto simp: ids_below_def)

lemma ids_below_unat:
  assumes "i \<in> ids_below n" and "n \<le> 99999"
  shows "unat i < n"
  using assms by (auto simp: ids_below_def unat_word_of_nat32)

text \<open>The orders of the generator in the market: ids that were assigned, prices that can be printed.\<close>

definition tags_below :: "nat \<Rightarrow> tag set" where
  "tags_below n = ids_below n \<times> {x. printable x}"

lemma tags_below_mono: "n \<le> m \<Longrightarrow> tags_below n \<subseteq> tags_below m"
  using ids_below_mono by (auto simp: tags_below_def)

lemma tags_below_iff: "t \<in> tags_below n \<longleftrightarrow> fst t \<in> ids_below n \<and> printable (snd t)"
  by (simp add: tags_below_def mem_Times_iff)

lemma tags_below_parts:
  "x \<in> snd ` tags_below n \<Longrightarrow> printable x" "i \<in> fst ` tags_below n \<Longrightarrow> i \<in> ids_below n"
  by (auto simp only: image_iff tags_below_iff)

lemma level_printable:
  assumes "p < max_price_tick"
  shows "printable (f32_of_nat p)"
proof -
  have "p < 2 ^ 24" using assms by (simp add: max_price_tick_def)
  note E = f32_of_nat_exact [OF this]
  show ?thesis
    by (rule printable_price) (use E assms in \<open>simp_all add: max_price_tick_def\<close>)
qed

lemma generated_printable: "printable (uo_price (alpha_order H i))"
proof -
  have r: "alpha_price k = alpha_price (k mod 401)" "k mod 401 \<le> 400" for k
    using mod_less_divisor [of 401 k] by (simp_all add: alpha_price_def less_Suc_eq_le [symmetric])
  let ?p = "alpha_price (rand_result H (3 * (i - 1)) mod 401)"
  have "f32_nonneg ?p" "f32_units ?p div 2 ^ 149 < 2 ^ 31"
    using alpha_price_small [OF r(2)] by (simp_all add: div_less_iff_less_mult)
  then have "printable ?p" by (rule printable_price)
  then show ?thesis using r(1) by (simp add: alpha_order_def Let_def)
qed

subsection \<open>A request of the generator\<close>

lemma generated_request_ok:
  assumes "forwards j (alpha_order H i) r" and "tags_of m \<subseteq> tags_below j" and "j < 99999"
  shows "request_ok max_price_tick r m" and "tags_of (m_request max_price_tick r m) \<subseteq> tags_below (Suc j)"
    and "touches r m \<subseteq> tags_below (Suc j)"
proof -
  obtain a t where r: "r = lob_order_of a j t (alpha_order H i)" using assms(1) unfolding forwards_def by blast
  have px: "price_index (price r) = Inr (gen_level H i)" "1100 \<le> gen_level H i" "gen_level H i \<le> 1500"
    using alpha_order_level [of H i] by (simp_all add: r lob_order_of_def gen_level_def less_Suc_eq_le [symmetric])
  have c: "req_type r = CHR ''c''" using alpha_order_fields(2) by (simp add: r lob_order_of_def)
  have id: "system_id r = word_of_nat j" by (simp add: r lob_order_of_def)
  then have unat_id: "unat (system_id r) = j" using assms(3) by (simp add: unat_word_of_nat32)
  have "unat (system_id x) \<noteq> j" if "x \<in> set (side (is_bid r) m p)" for x p
  proof -
    have "tag x \<in> tags_of m" using that by (auto simp: tags_of_iff)
    then have "system_id x \<in> ids_below j" using assms(2) by (auto simp: tags_below_def tag_def)
    then show ?thesis using ids_below_unat assms(3) by fastforce
  qed
  then have "find_order max_price_tick j (side (is_bid r) m) = None"
    by (simp add: find_order_None)
  then show "request_ok max_price_tick r m"
    using c px assms(3) by (simp add: request_ok_def unat_id LUT_SIZE_def price_ok_def max_price_tick_def)
  have "tags_of (m_request max_price_tick r m) \<subseteq> touches r m"
    using c px(1) m_create_tags [of max_price_tick r] by (simp add: m_request_def Let_def)
  also have "price r = uo_price (alpha_order H i)" by (simp add: r lob_order_of_def)
  then have "tag r \<in> tags_below (Suc j)"
    using generated_printable by (simp add: tag_def tags_below_def id ids_below_Suc)
  with assms(2) tags_below_mono [of j "Suc j"] show touch: "touches r m \<subseteq> tags_below (Suc j)"
    unfolding touches_def by auto
  finally show "tags_of (m_request max_price_tick r m) \<subseteq> tags_below (Suc j)" .
qed

subsection \<open>The invariant\<close>

abbreviation orders_sent :: "system \<Rightarrow> UserOrder list" where
  "orders_sent z \<equiv> published (AlphaOrderQueue (alpha z))"

abbreviation requests_made :: "system \<Rightarrow> LOBOrder list" where
  "requests_made z \<equiv> published (gw_LobOrderQueue (gateway z))"

abbreviation forwarded_count :: "system \<Rightarrow> nat" where
  "forwarded_count z \<equiv> gw_next_system_id (gateway z)"

definition handled :: "system \<Rightarrow> nat" where
  "handled z = length (tickToTrade (engine z))"

definition alpha_inv :: "world \<Rightarrow> system \<Rightarrow> bool" where
  "alpha_inv W z \<longleftrightarrow>
     sent z \<le> 99999 \<and> TestStore (alpha z) = all_orders (w_alpha W) \<and>
     port_inv (AlphaOrderQueue (alpha z)) \<and> port_cap (AlphaOrderQueue (alpha z)) = 200004 \<and>
     orders_sent z = take (sent z) (all_orders (w_alpha W)) \<and>
     contents (chan (AlphaOrderQueue (alpha z))) = drop (forwarded_count z) (orders_sent z) \<and>
     forwarded_count z \<le> sent z"

definition gateway_inv :: "world \<Rightarrow> system \<Rightarrow> bool" where
  "gateway_inv W z \<longleftrightarrow>
     gw_ok (gateway z) \<and> gw_SniperOrderQueue (gateway z) = chan (AlphaOrderQueue (alpha z)) \<and>
     contents (gw_MMorderQueue (gateway z)) = [] \<and>
     port_inv (gw_LobOrderQueue (gateway z)) \<and> port_cap (gw_LobOrderQueue (gateway z)) = 200004 \<and>
     length (requests_made z) = forwarded_count z \<and>
     (\<forall>j < forwarded_count z. forwards j (all_orders (w_alpha W) ! j) (requests_made z ! j) \<and>
        gw_LUT (gateway z) j = word_of_nat (Suc j)) \<and>
     contents (chan (gw_LobOrderQueue (gateway z))) = drop (handled z) (requests_made z) \<and>
     handled z \<le> forwarded_count z"

text \<open>The market that the requests \<open>rs\<close> make, one after the other.\<close>

definition market_after :: "LOBOrder list \<Rightarrow> market" where
  "market_after rs = fold (m_request max_price_tick) rs empty_market"

definition engine_inv :: "world \<Rightarrow> system \<Rightarrow> bool" where
  "engine_inv W z \<longleftrightarrow>
     LobOrderQueue (engine z) = chan (gw_LobOrderQueue (gateway z)) \<and>
     me_inv (handled z) max_price_tick (engine z) \<and>
     market_of (engine z) = market_after (take (handled z) (requests_made z)) \<and>
     tags_of (market_after (take (handled z) (requests_made z))) \<subseteq> tags_below (handled z) \<and>
     bcast_ready (engine_part W) (2 * (99999 - handled z)) (engine z)"

definition ack_inv :: "system \<Rightarrow> bool" where
  "ack_inv z \<longleftrightarrow>
     port_inv (LobAck (engine z)) \<and> gw_LobAckQueue (gateway z) = chan (LobAck (engine z)) \<and>
     (\<forall>a \<in> set (published (LobAck (engine z))). la_system_id a \<in> ids_below (handled z) \<and> printable (la_price a)) \<and>
     port_inv (gw_SniperOrderAck (gateway z)) \<and>
     (\<forall>u \<in> set (published (gw_SniperOrderAck (gateway z))). \<exists>j < handled z. ua_order_id u = word_of_nat (Suc j))"

text \<open>Whatever the engine or the gateway has logged can be written, and the file holds what was read.\<close>

definition log_inv :: "system \<Rightarrow> bool" where
  "log_inv z \<longleftrightarrow>
     port_inv (matchLog (engine z)) \<and> matching_engine_queue (logger z) = chan (matchLog (engine z)) \<and>
     port_inv (gw_Logger (gateway z)) \<and> order_gateway_queue (logger z) = chan (gw_Logger (gateway z)) \<and>
     port_cap (matchLog (engine z)) = 200004 \<and> port_cap (gw_Logger (gateway z)) = 200004 \<and>
     (\<forall>e \<in> set (published (matchLog (engine z))) \<union> set (published (gw_Logger (gateway z))). writable e) \<and>
     file_of (delivered (matchLog (engine z))) (delivered (gw_Logger (gateway z))) (file_text (logger z))"

text \<open>
  The latency samples: one per request, and one between any two of them when the time stamp counter
  never reads 0 (the source takes a \<open>lastOrderTime\<close> of 0 for none).
\<close>

definition clock_runs :: "world \<Rightarrow> bool" where
  "clock_runs W \<longleftrightarrow> (\<forall>k. tsc (w_engine W) k \<noteq> 0)"

definition sample_inv :: "world \<Rightarrow> system \<Rightarrow> bool" where
  "sample_inv W z \<longleftrightarrow>
     length (gw_order_gateway_time (gateway z)) = forwarded_count z \<and>
     length (QueueTime (engine z)) = handled z \<and> length (matchingProcessingTime (engine z)) = handled z \<and>
     (clock_runs W \<longrightarrow> length (Throughtput (engine z)) = handled z - 1 \<and> (lastOrderTime (engine z) = 0 \<longleftrightarrow> handled z = 0))"

definition system_inv :: "world \<Rightarrow> system \<Rightarrow> bool" where
  "system_inv W z \<longleftrightarrow>
     alpha_inv W z \<and> gateway_inv W z \<and> engine_inv W z \<and> ack_inv z \<and> log_inv z \<and> sample_inv W z"

lemma alpha_order_part [simp]: "alpha_order (alpha_part W) = alpha_order (w_alpha W)"
  by (rule ext) (simp add: alpha_order_def alpha_part_def)

lemma all_orders_ids:
  "j < 99999 \<Longrightarrow> uo_order_id (all_orders H ! j) = word_of_nat (Suc j)"
  by (simp add: all_orders_nth alpha_order_fields del: of_nat_Suc)

subsection \<open>What is logged\<close>

lemma log_inv_gateway:
  assumes L: "log_inv z" and g': "gw_logged H {x. printable x} (gateway z) g'" "glog_env H = (\<lambda>_. 0)"
    and z': "matchLog (engine z') = matchLog (engine z)" "gw_Logger (gateway z') = gw_Logger g'"
      "logger z' = (logger z)\<lparr>order_gateway_queue := chan (gw_Logger g')\<rparr>"
  shows "log_inv z'"
proof -
  note L' = L [unfolded log_inv_def]
  have "adds (gw_log_ok {x. printable x}) (gw_Logger (gateway z)) (gw_Logger g')"
    and same: "delivered (gw_Logger g') = delivered (gw_Logger (gateway z))"
    using g' by (simp_all add: gw_logged_def)
  moreover have "port_inv (gw_Logger (gateway z))" using L' by blast
  ultimately obtain ys where ys: "port_inv (gw_Logger g')" "port_cap (gw_Logger g') = port_cap (gw_Logger (gateway z))" "published (gw_Logger g') = published (gw_Logger (gateway z)) @ ys"
    "\<forall>y \<in> set ys. gw_log_ok {x. printable x} y"
    by (auto elim: addsD)
  then have "\<forall>y \<in> set ys. writable y" by (simp add: gw_log_ok_def writable_def)
  with L' ys(1-3) same show ?thesis unfolding log_inv_def by (auto simp: z')
qed

lemma log_inv_engine:
  assumes L: "log_inv z" and s': "log_grows (tags_below n) (engine z) s'" "unread (engine z) s'"
    and z': "matchLog (engine z') = matchLog s'" "gw_Logger (gateway z') = gw_Logger (gateway z)"
      "logger z' = (logger z)\<lparr>matching_engine_queue := chan (matchLog s')\<rparr>"
  shows "log_inv z'"
proof -
  note L' = L [unfolded log_inv_def]
  have same: "delivered (matchLog s') = delivered (matchLog (engine z))" using s'(2) by (simp add: unread_def)
  have "port_inv (matchLog (engine z))" using L' by blast
  with s'(1) obtain ys where ys: "port_inv (matchLog s')" "port_cap (matchLog s') = port_cap (matchLog (engine z))" "published (matchLog s') = published (matchLog (engine z)) @ ys"
    "\<forall>y \<in> set ys. log_ok (tags_below n) y"
    unfolding log_grows_def by (auto elim: addsD)
  then have "\<forall>y \<in> set ys. writable y"
    using tags_below_parts(1) unfolding log_ok_def writable_def by blast
  with L' ys(1-3) same show ?thesis unfolding log_inv_def by (auto simp: z')
qed

text \<open>What its reader takes out of a queue it has read.\<close>

lemma reader_moved_delivered:
  assumes "port_inv p" and "contents q = drop k (contents (chan p))"
  shows "delivered (reader_moved q p) = delivered p @ take k (contents (chan p))"
proof -
  have p: "published p = (delivered p @ take k (contents (chan p))) @ contents q"
    using assms by (simp add: port_inv_def)
  have "delivered (reader_moved q p) = take (length (published p) - length (contents q)) (published p)"
    by (simp add: reader_moved_def)
  then show ?thesis unfolding p take_front .
qed

lemma log_inv_logger:
  assumes L: "log_inv z"
  obtains a where "logger_turn (logger z) = Inr a"
    and "contents (matching_engine_queue a) = drop LIMIT (contents (matching_engine_queue (logger z)))"
    and "contents (order_gateway_queue a) = drop LIMIT (contents (order_gateway_queue (logger z)))"
    and "\<forall>z'. matchLog (engine z') = reader_moved (matching_engine_queue a) (matchLog (engine z)) \<and>
      gw_Logger (gateway z') = reader_moved (order_gateway_queue a) (gw_Logger (gateway z)) \<and> logger z' = a \<longrightarrow> log_inv z'"
proof -
  note L' = L [unfolded log_inv_def]
  let ?m = "matchLog (engine z)" and ?g = "gw_Logger (gateway z)"
  have ports: "port_inv ?m" "port_inv ?g" and q: "matching_engine_queue (logger z) = chan ?m"
    "order_gateway_queue (logger z) = chan ?g" using L' by blast+
  have "logger_ok (logger z)"
    using L' by (auto simp: logger_ok_def waiting_def port_lfq port_inv_def)
  then obtain a where a: "logger_turn (logger z) = Inr a" "logger_ok a"
    "file_text a = file_text (logger z) @ turn_text (contents (chan ?m)) (contents (chan ?g))"
    "contents (matching_engine_queue a) = drop LIMIT (contents (chan ?m))"
    "contents (order_gateway_queue a) = drop LIMIT (contents (chan ?g))"
    "length (store (matching_engine_queue a)) = length (store (chan ?m))"
    "length (store (order_gateway_queue a)) = length (store (chan ?g))"
    by (rule logger_turn_correct) (simp add: q)
  have inv: "lfq_inv (matching_engine_queue a)" "lfq_inv (order_gateway_queue a)" using a(2) by (simp_all add: logger_ok_def)
  have moved: "port_inv (reader_moved (matching_engine_queue a) ?m)" "port_inv (reader_moved (order_gateway_queue a) ?g)"
    by (rule reader_moved_inv [OF ports(1) inv(1) a(4)], rule reader_moved_inv [OF ports(2) inv(2) a(5)])
  have written: "file_of (delivered (reader_moved (matching_engine_queue a) ?m))
      (delivered (reader_moved (order_gateway_queue a) ?g)) (file_text a)"
    unfolding reader_moved_delivered [OF ports(1) a(4)] reader_moved_delivered [OF ports(2) a(5)] a(3)
    by (rule file_of_turn) (use L' in blast)
  note caps = reader_moved_cap [OF a(6)] reader_moved_cap [OF a(7)]
  show thesis
    by (rule that [OF a(1)]) (use L' q a(4,5) moved written caps in \<open>simp_all add: log_inv_def\<close>)
qed

lemma log_parts [simp]:
  "me_inv n mx (s\<lparr>matchLog := l\<rparr>) = me_inv n mx s" "market_of (s\<lparr>matchLog := l\<rparr>) = market_of s"
  "bcast_ready H k (s\<lparr>matchLog := l\<rparr>) = bcast_ready H k s" "gw_ok (g\<lparr>gw_Logger := l\<rparr>) = gw_ok g"
  by (simp_all add: me_inv_def own_def uncrossed_def market_of_def bcast_ready_def gw_ok_def ids_ok_def cong: if_cong)

subsection \<open>A turn of each thread\<close>

lemma alpha_turn_step:
  assumes inv: "system_inv W z"
  obtains z' where "alpha_turn W z = Some (Inr z')" and "system_inv W z'"
    and "sent z' = min 99999 (Suc (sent z))" and "forwarded_count z' = forwarded_count z" and "handled z' = handled z"
proof (cases "sent z < 99999")
  case False
  have A: "alpha_inv W z" using inv by (simp add: system_inv_def)
  have n: "sent z = 99999" "length (TestStore (alpha z)) = 99999" using A False by (simp_all add: alpha_inv_def)
  have "alpha_turn W z = Some (Inr z)" using n by (simp add: alpha_turn_def)
  with that [of z] inv n show thesis by simp
next
  case True
  have A: "alpha_inv W z" and G: "gateway_inv W z" and E: "engine_inv W z" and K: "ack_inv z" and L: "log_inv z" and S: "sample_inv W z"
    using inv by (simp_all add: system_inv_def)
  note A' = A [unfolded alpha_inv_def] and G' = G [unfolded gateway_inv_def]
  let ?x = "TestStore (alpha z) ! sent z" and ?p = "AlphaOrderQueue (alpha z)"
  obtain b p' where pub: "publish 0 ?x ?p = (b, p')" by fastforce
  have port: "port_inv ?p" using A' by blast
  have "length (published ?p) < port_cap ?p" using A' True by simp
  then have b: "b" using publish_room [OF port, of 0 ?x] pub by simp
  note P = publish_inv [OF port pub]
  have store: "TestStore (alpha z) = all_orders (w_alpha W)" using A' by blast
  then have len: "sent z < length (TestStore (alpha z))" using True by simp
  define a where "a = (alpha z)\<lparr>AlphaOrderQueue := p', aacc := Suc (aacc (alpha z))\<rparr>"
  define z' where "z' = z\<lparr>sent := Suc (sent z), alpha := a,
    gateway := (gateway z)\<lparr>gw_SniperOrderQueue := chan p'\<rparr>\<rparr>"
  have run: "alpha_turn W z = Some (Inr z')"
    using len b pub by (simp add: alpha_turn_def alpha_attempt_eq alpha_part_def z'_def a_def)
  have h: "handled z' = handled z" by (simp add: handled_def z'_def)
  have new: "published p' = take (Suc (sent z)) (all_orders (w_alpha W))"
    using P(2) b A' True by (simp add: store take_Suc_conv_app_nth)
  have c: "contents (chan p') = drop (forwarded_count z) (published p')"
  proof -
    have q: "contents (chan p') = contents (chan ?p) @ [?x]" by (rule publish_alone [OF port pub b])
    have "drop (forwarded_count z) (published ?p @ [?x]) = drop (forwarded_count z) (published ?p) @ [?x]"
      using A' True by simp
    with q P(2) b A' show ?thesis by simp
  qed
  have "alpha_inv W z'" using A' P(1,3) True new c store by (simp add: alpha_inv_def z'_def a_def)
  moreover have "lfq_inv (chan p')" using P(1) by (simp add: port_inv_def)
  then have "gateway_inv W z'"
    using G' gw_ok_queues(1) by (simp add: gateway_inv_def z'_def a_def handled_def)
  moreover have "engine_inv W z'" using E by (simp add: engine_inv_def z'_def handled_def)
  moreover have "ack_inv z'" using K by (simp add: ack_inv_def z'_def handled_def)
  moreover have "log_inv z'" using L by (simp add: log_inv_def z'_def)
  moreover have "sample_inv W z'" using S unfolding sample_inv_def h by (simp add: z'_def)
  ultimately have "system_inv W z'" by (simp add: system_inv_def)
  with run show thesis by (rule that) (use True h in \<open>simp_all add: z'_def\<close>)
qed

text \<open>One forwarded order, with the engine standing still.\<close>

lemma forwarded_requests:
  assumes "forwarded g g' os" and "port_inv (gw_LobOrderQueue g)"
    and "length (published (gw_LobOrderQueue g)) + length os \<le> port_cap (gw_LobOrderQueue g)"
    and "delivered (gw_LobOrderQueue g') = delivered (gw_LobOrderQueue g)"
  obtains rs where "length rs = length os"
    and "\<And>j. j < length os \<Longrightarrow> forwards (gw_next_system_id g + j) (os ! j) (rs ! j)"
    and "published (gw_LobOrderQueue g') = published (gw_LobOrderQueue g) @ rs"
    and "contents (chan (gw_LobOrderQueue g')) = contents (chan (gw_LobOrderQueue g)) @ rs"
    and "port_inv (gw_LobOrderQueue g')" and "port_cap (gw_LobOrderQueue g') = port_cap (gw_LobOrderQueue g)"
proof -
  obtain rs where rs: "length rs = length os" "\<forall>j < length os. forwards (gw_next_system_id g + j) (os ! j) (rs ! j)"
    "sends (gw_LobOrderQueue g) (gw_LobOrderQueue g') rs"
    using assms(1) unfolding forwarded_def by blast
  have p: "port_inv (gw_LobOrderQueue g')" "port_cap (gw_LobOrderQueue g') = port_cap (gw_LobOrderQueue g)"
    "published (gw_LobOrderQueue g') = published (gw_LobOrderQueue g) @ rs"
    using sendsD [OF rs(3) assms(2)] assms(3) rs(1) by metis+
  have "contents (chan (gw_LobOrderQueue g')) = contents (chan (gw_LobOrderQueue g)) @ rs"
    using p(1,3) assms(2,4) by (simp add: port_inv_def)
  with p rs(1,2) that show thesis by blast
qed

lemma user_ack_id:
  assumes "la_system_id a \<in> ids_below h" and "h \<le> k" and "k \<le> 99999" and "\<forall>j < k. gw_LUT g j = word_of_nat (Suc j)"
  shows "\<exists>j < h. ua_order_id (user_ack_of g a) = word_of_nat (Suc j)"
proof -
  let ?j = "unat (la_system_id a)"
  have j: "?j < h" using ids_below_unat [OF assms(1)] assms(2,3) by simp
  have "int_of_size ?j = int ?j" using j assms(2,3) by simp
  moreover have "SystemToOrderId g (int ?j) = word_of_nat (Suc ?j)"
    using j assms(2-4) by (subst SystemToOrderId_nat) (simp_all add: gw_size_def del: of_nat_Suc)
  ultimately have "ua_order_id (user_ack_of g a) = ucast (word_of_nat (Suc ?j) :: u64)"
    unfolding user_ack_of_def by (simp only: UserAck.simps)
  also have "\<dots> = word_of_nat (Suc ?j)"
  proof -
    have "take_bit 64 (Suc ?j) = Suc ?j" by (rule take_bit_nat_eq_self) (use j assms(2,3) in simp)
    then show ?thesis by (simp add: unsigned_of_nat del: of_nat_Suc)
  qed
  finally show ?thesis using j by blast
qed

lemma acks_inv_step:
  assumes K: "ack_inv z" and acks: "acks_handed g2 g'" and same: "gw_SniperOrderAck g2 = gw_SniperOrderAck (gateway z)"
    "gw_LobAckQueue g2 = gw_LobAckQueue (gateway z)"
    and h: "handled z \<le> k" "k \<le> 99999" and lut: "\<forall>j < k. gw_LUT g2 j = word_of_nat (Suc j)" and q: "lfq_inv (gw_LobAckQueue g')"
  shows "port_inv (reader_moved (gw_LobAckQueue g') (LobAck (engine z)))" and "port_inv (gw_SniperOrderAck g')"
    and "\<forall>u \<in> set (published (gw_SniperOrderAck g')). \<exists>j < handled z. ua_order_id u = word_of_nat (Suc j)"
proof -
  note K' = K [unfolded ack_inv_def]
  let ?c = "contents (gw_LobAckQueue (gateway z))"
  have "port_inv (gw_SniperOrderAck g2)" using K' same by simp
  then obtain m where m: "port_inv (gw_SniperOrderAck g')" "contents (gw_LobAckQueue g') = drop m ?c"
    "published (gw_SniperOrderAck g') = published (gw_SniperOrderAck (gateway z)) @ map (user_ack_of g2) (take m ?c)"
    using acks unfolding acks_handed_def same by blast
  show "port_inv (gw_SniperOrderAck g')" by (rule m(1))
  show "port_inv (reader_moved (gw_LobAckQueue g') (LobAck (engine z)))"
    by (rule reader_moved_inv [OF _ q]) (use K' m(2) in simp_all)
  have "la_system_id a \<in> ids_below (handled z)" if "a \<in> set ?c" for a
    using K' that by (auto simp: port_inv_def)
  then have "\<exists>j < handled z. ua_order_id (user_ack_of g2 a) = word_of_nat (Suc j)" if "a \<in> set (take m ?c)" for a
    using user_ack_id [OF _ h lut] that by (blast dest: in_set_takeD)
  then show "\<forall>u \<in> set (published (gw_SniperOrderAck g')). \<exists>j < handled z. ua_order_id u = word_of_nat (Suc j)"
    using K' unfolding m(3) by auto
qed

lemma engine_queues [simp]:
  "me_inv n mx (s\<lparr>LobOrderQueue := q, LobAck := p\<rparr>) = me_inv n mx s"
  "market_of (s\<lparr>LobOrderQueue := q, LobAck := p\<rparr>) = market_of s"
  "bcast_ready H k (s\<lparr>LobOrderQueue := q, LobAck := p\<rparr>) = bcast_ready H k s"
  by (simp_all add: me_inv_def own_def uncrossed_def market_of_def bcast_ready_def cong: if_cong)

text \<open>The system after the gateway's turn, and what that turn has done in it.\<close>

definition after_gateway :: "system \<Rightarrow> OrderGateway \<Rightarrow> system" where
  "after_gateway z g' = z\<lparr>gateway := g',
     alpha := (alpha z)\<lparr>AlphaOrderQueue := reader_moved (gw_SniperOrderQueue g') (AlphaOrderQueue (alpha z))\<rparr>,
     engine := (engine z)\<lparr>LobOrderQueue := chan (gw_LobOrderQueue g'),
       LobAck := reader_moved (gw_LobAckQueue g') (LobAck (engine z))\<rparr>,
     logger := (logger z)\<lparr>order_gateway_queue := chan (gw_Logger g')\<rparr>\<rparr>"

abbreviation next_order :: "system \<Rightarrow> UserOrder list" where
  "next_order z \<equiv> take 1 (contents (gw_SniperOrderQueue (gateway z)))"

definition gateway_did :: "world \<Rightarrow> system \<Rightarrow> OrderGateway \<Rightarrow> LOBOrder list \<Rightarrow> bool" where
  "gateway_did W z g' rs \<longleftrightarrow>
     gateway_turn (gateway_part W) (gateway z) = Inr g' \<and> gw_ok g' \<and>
     contents (gw_SniperOrderQueue g') = drop 1 (contents (gw_SniperOrderQueue (gateway z))) \<and>
     contents (gw_MMorderQueue g') = [] \<and> forwarded (gateway z) g' (next_order z) \<and>
     length (store (gw_SniperOrderQueue g')) = length (store (gw_SniperOrderQueue (gateway z))) \<and>
     (\<exists>g2. forwarded (gateway z) g2 (next_order z) \<and> acks_handed g2 g' \<and>
        gw_SniperOrderAck g2 = gw_SniperOrderAck (gateway z) \<and> gw_LobAckQueue g2 = gw_LobAckQueue (gateway z)) \<and>
     length rs = length (next_order z) \<and>
     (\<forall>j < length (next_order z). forwards (forwarded_count z + j) (next_order z ! j) (rs ! j)) \<and>
     published (gw_LobOrderQueue g') = requests_made z @ rs \<and>
     contents (chan (gw_LobOrderQueue g')) = contents (chan (gw_LobOrderQueue (gateway z))) @ rs \<and>
     port_inv (gw_LobOrderQueue g') \<and> port_cap (gw_LobOrderQueue g') = 200004"

lemma waiting_orders:
  assumes inv: "system_inv W z"
  shows "contents (gw_SniperOrderQueue (gateway z)) = drop (forwarded_count z) (take (sent z) (all_orders (w_alpha W)))"
    and "forwarded_count z \<le> sent z" and "sent z \<le> 99999"
    and "length (contents (gw_SniperOrderQueue (gateway z))) = sent z - forwarded_count z"
  using inv by (simp_all add: system_inv_def alpha_inv_def gateway_inv_def)

lemma gateway_does:
  assumes inv: "system_inv W z"
  obtains g' rs where "gateway_did W z g' rs"
proof -
  have G: "gateway_inv W z" using inv by (simp add: system_inv_def)
  note G = G [unfolded gateway_inv_def] and Q = waiting_orders [OF inv]
  let ?g = "gateway z" and ?c = "contents (gw_SniperOrderQueue (gateway z))"
  have ok: "gw_ok ?g" and mm: "contents (gw_MMorderQueue ?g) = []" and port: "port_inv (gw_LobOrderQueue ?g)"
    using G by blast+
  obtain g' where g': "gateway_turn (gateway_part W) ?g = Inr g'" "gw_ok g'"
    "contents (gw_SniperOrderQueue g') = drop 1 ?c"
    "contents (gw_MMorderQueue g') = drop 1 (contents (gw_MMorderQueue ?g))"
    "forwarded ?g g' (take 1 ?c @ take 1 (contents (gw_MMorderQueue ?g)))"
    "length (store (gw_SniperOrderQueue g')) = length (store (gw_SniperOrderQueue ?g))"
    "\<exists>g2. forwarded ?g g2 (take 1 ?c @ take 1 (contents (gw_MMorderQueue ?g))) \<and>
      acks_handed g2 g' \<and> gw_SniperOrderAck g2 = gw_SniperOrderAck ?g \<and> gw_LobAckQueue g2 = gw_LobAckQueue ?g"
    by (rule gateway_turn_correct [OF ok]) (use mm Q(2-4) in \<open>simp add: gw_size_def\<close>)
  have fw: "forwarded ?g g' (take 1 ?c)" using g'(5) mm by simp
  have same: "delivered (gw_LobOrderQueue g') = delivered (gw_LobOrderQueue ?g)"
    by (rule gateway_turn_delivered [OF g'(1)]) (simp add: gateway_part_def)
  obtain rs where rs: "length rs = length (take 1 ?c)"
    "\<And>j. j < length (take 1 ?c) \<Longrightarrow> forwards (forwarded_count z + j) (take 1 ?c ! j) (rs ! j)"
    "published (gw_LobOrderQueue g') = requests_made z @ rs"
    "contents (chan (gw_LobOrderQueue g')) = contents (chan (gw_LobOrderQueue ?g)) @ rs"
    "port_inv (gw_LobOrderQueue g')" "port_cap (gw_LobOrderQueue g') = port_cap (gw_LobOrderQueue ?g)"
    by (rule forwarded_requests [OF fw port _ same]) (use G Q(2-4) in auto)
  have "gateway_did W z g' rs"
    unfolding gateway_did_def using g'(1-4,6,7) fw rs mm G by simp
  then show thesis by (rule that)
qed

lemma gateway_did_id: "system_inv W z \<Longrightarrow> gateway_did W z g' rs \<Longrightarrow>
    gw_next_system_id g' = min (sent z) (Suc (forwarded_count z))"
  using waiting_orders(2-4) [of W z] by (auto simp: gateway_did_def forwarded_def)

lemma handled_after_gateway [simp]: "handled (after_gateway z g') = handled z"
  by (simp add: handled_def after_gateway_def)

lemma after_gateway_alpha:
  assumes inv: "system_inv W z" and D: "gateway_did W z g' rs"
  shows "alpha_inv W (after_gateway z g')"
proof -
  have A: "alpha_inv W z" and G: "gateway_inv W z" using inv by (simp_all add: system_inv_def)
  note A = A [unfolded alpha_inv_def] and G = G [unfolded gateway_inv_def] and D' = D [unfolded gateway_did_def]
  let ?p = "reader_moved (gw_SniperOrderQueue g') (AlphaOrderQueue (alpha z))"
  have "port_inv ?p" by (rule reader_moved_inv [where k = 1]) (use A G D' in \<open>simp_all add: gw_ok_def\<close>)
  moreover have "port_cap ?p = 200004" using A G D' by (subst reader_moved_cap) simp_all
  moreover have "contents (gw_SniperOrderQueue g') =
      drop (min (sent z) (Suc (forwarded_count z))) (take (sent z) (all_orders (w_alpha W)))"
    using D' waiting_orders [OF inv] by (cases "forwarded_count z = sent z") simp_all
  ultimately show ?thesis using A gateway_did_id [OF inv D] by (simp add: alpha_inv_def after_gateway_def)
qed

lemma after_gateway_gateway:
  assumes inv: "system_inv W z" and D: "gateway_did W z g' rs"
  shows "gateway_inv W (after_gateway z g')"
proof -
  have "gateway_inv W z" using inv by (simp add: system_inv_def)
  note G = this [unfolded gateway_inv_def] and D' = D [unfolded gateway_did_def] and Q = waiting_orders [OF inv]
    and n' = gateway_did_id [OF inv D]
  let ?k = "forwarded_count z" and ?all = "all_orders (w_alpha W)"
  have "forwards j (?all ! j) ((requests_made z @ rs) ! j) \<and> gw_LUT g' j = word_of_nat (Suc j)"
    if j: "j < gw_next_system_id g'" for j
  proof (cases "j < ?k")
    case True
    then show ?thesis using G D' by (simp add: nth_append forwarded_def)
  next
    case False
    then have jk: "j = ?k" "?k < sent z" using j n' by auto
    then have len: "0 < length (next_order z)" using Q(4) by simp
    have first: "next_order z ! 0 = ?all ! ?k" using jk(2) Q(1,3) by simp
    have "forwards (?k + 0) (next_order z ! 0) (rs ! 0)" "gw_LUT g' (?k + 0) = uo_order_id (next_order z ! 0)"
      using D' len unfolding forwarded_def by blast+
    moreover have "(requests_made z @ rs) ! j = rs ! 0" using G jk by (simp add: nth_append)
    ultimately show ?thesis using first jk Q(3) all_orders_ids by (simp del: of_nat_Suc)
  qed
  then show ?thesis
    using G D' n' Q(2-4) unfolding gateway_inv_def handled_after_gateway by (auto simp: after_gateway_def)
qed

lemma after_gateway_acks:
  assumes inv: "system_inv W z" and D: "gateway_did W z g' rs"
  shows "ack_inv (after_gateway z g')"
proof -
  have K: "ack_inv z" and G: "gateway_inv W z" using inv by (simp_all add: system_inv_def)
  note G = G [unfolded gateway_inv_def]
  obtain g2 where g2: "forwarded (gateway z) g2 (next_order z)" "acks_handed g2 g'"
    "gw_SniperOrderAck g2 = gw_SniperOrderAck (gateway z)" "gw_LobAckQueue g2 = gw_LobAckQueue (gateway z)"
    using D unfolding gateway_did_def by blast
  have "\<forall>j < forwarded_count z. gw_LUT g2 j = word_of_nat (Suc j)" using g2(1) G by (simp add: forwarded_def)
  moreover have "handled z \<le> forwarded_count z" "forwarded_count z \<le> 99999"
    using G waiting_orders(2,3) [OF inv] by simp_all
  moreover have "lfq_inv (gw_LobAckQueue g')" using D by (simp add: gateway_did_def gw_ok_def)
  ultimately show ?thesis
    using acks_inv_step [OF K g2(2-4)] K unfolding ack_inv_def handled_after_gateway by (simp add: after_gateway_def)
qed

lemma after_gateway_log:
  assumes inv: "system_inv W z" and D: "gateway_did W z g' rs"
  shows "log_inv (after_gateway z g')"
proof (rule log_inv_gateway)
  show "log_inv z" using inv by (simp add: system_inv_def)
  have K: "ack_inv z" and G: "gateway_inv W z" using inv by (simp_all add: system_inv_def)
  let ?c = "contents (gw_SniperOrderQueue (gateway z))"
  have "set ?c \<subseteq> set (all_orders (w_alpha W))"
    unfolding waiting_orders(1) [OF inv] using set_drop_subset set_take_subset by (rule subset_trans)
  then have "printable (uo_price x)" if "x \<in> set ?c" for x
    using that generated_printable by (auto simp: all_orders_def)
  moreover have "printable (la_price a)" if "a \<in> set (contents (gw_LobAckQueue (gateway z)))" for a
    using K that by (auto simp: ack_inv_def port_inv_def)
  moreover have "gw_ok (gateway z)" "contents (gw_MMorderQueue (gateway z)) = []" using G by (auto simp: gateway_inv_def)
  moreover have "gateway_turn (gateway_part W) (gateway z) = Inr g'" using D by (simp add: gateway_did_def)
  ultimately show "gw_logged (gateway_part W) {x. printable x} (gateway z) g'"
    by (intro gateway_turn_logged) auto
qed (simp_all add: gateway_part_def after_gateway_def)

lemma gateway_turn_step:
  assumes inv: "system_inv W z"
  obtains z' where "gateway_thread_turn W z = Some (Inr z')" and "system_inv W z'"
    and "sent z' = sent z" and "forwarded_count z' = min (sent z) (Suc (forwarded_count z))" and "handled z' = handled z"
proof -
  obtain g' rs where D: "gateway_did W z g' rs" by (rule gateway_does [OF inv])
  note D' = D [unfolded gateway_did_def] and n' = gateway_did_id [OF inv D]
  have "gateway_inv W z" and E: "engine_inv W z" and S: "sample_inv W z" using inv by (simp_all add: system_inv_def)
  note G = this(1) [unfolded gateway_inv_def]
  let ?z = "after_gateway z g'"
  have run: "gateway_thread_turn W z = Some (Inr ?z)" using D' by (simp add: gateway_thread_turn_def after_gateway_def)
  have "take (handled z) (published (gw_LobOrderQueue g')) = take (handled z) (requests_made z)"
    using G D' by simp
  then have "engine_inv W ?z"
    using E unfolding engine_inv_def handled_after_gateway by (simp add: after_gateway_def)
  moreover have "sample_inv W ?z"
    using S gateway_turn_timed [of "gateway_part W" "gateway z" g'] D' G n' waiting_orders(2,4) [OF inv]
    unfolding sample_inv_def handled_after_gateway by (auto simp: after_gateway_def timed_def)
  ultimately have "system_inv W ?z"
    using after_gateway_alpha [OF inv D] after_gateway_gateway [OF inv D] after_gateway_acks [OF inv D]
      after_gateway_log [OF inv D] by (simp add: system_inv_def)
  with run show thesis by (rule that) (use n' in \<open>simp_all add: after_gateway_def handled_def\<close>)
qed

text \<open>The system after the engine's turn, in which it handled \<open>k\<close> requests, one or none.\<close>

definition after_engine :: "system \<Rightarrow> ME \<Rightarrow> system" where
  "after_engine z s' = z\<lparr>engine := s', gateway := (gateway z)
     \<lparr>gw_LobOrderQueue := reader_moved (LobOrderQueue s') (gw_LobOrderQueue (gateway z)),
       gw_LobAckQueue := chan (LobAck s')\<rparr>,
     logger := (logger z)\<lparr>matching_engine_queue := chan (matchLog s')\<rparr>\<rparr>"

definition engine_did :: "world \<Rightarrow> system \<Rightarrow> nat \<Rightarrow> ME \<Rightarrow> bool" where
  "engine_did W z k s' \<longleftrightarrow>
     (let n = handled z + k; m = market_after (take n (requests_made z))
      in readOrder (engine_part W) (engine z) = Some (Inr s') \<and>
         lfq_inv (LobOrderQueue s') \<and> contents (LobOrderQueue s') = drop k (contents (LobOrderQueue (engine z))) \<and>
         length (store (LobOrderQueue s')) = length (store (LobOrderQueue (engine z))) \<and>
         length (tickToTrade s') = n \<and> n \<le> forwarded_count z \<and>
         me_inv n max_price_tick s' \<and> market_of s' = m \<and> tags_of m \<subseteq> tags_below n \<and>
         bcast_ready (engine_part W) (2 * (99999 - n)) s' \<and>
         acked max_price_tick (tags_below n) (engine z) s' \<and> log_grows (tags_below n) (engine z) s' \<and> unread (engine z) s' \<and>
         length (QueueTime s') = n \<and> length (matchingProcessingTime s') = n \<and>
         (clock_runs W \<longrightarrow> length (Throughtput s') = n - 1 \<and> (lastOrderTime s' = 0 \<longleftrightarrow> n = 0)))"

lemma waiting_requests:
  assumes inv: "system_inv W z"
  shows "lfq_inv (LobOrderQueue (engine z))" and "contents (LobOrderQueue (engine z)) = drop (handled z) (requests_made z)"
    and "handled z \<le> forwarded_count z" and "length (requests_made z) = forwarded_count z" and "forwarded_count z \<le> 99999"
  using inv by (simp_all add: system_inv_def alpha_inv_def gateway_inv_def engine_inv_def port_lfq)

lemma engine_idle:
  assumes inv: "system_inv W z" and "handled z = forwarded_count z"
  shows "engine_did W z 0 (engine z)"
proof -
  note Q = waiting_requests [OF inv]
  have "engine_inv W z" "sample_inv W z" using inv by (simp_all add: system_inv_def)
  moreover have "contents (LobOrderQueue (engine z)) = []" using Q(2,4) assms(2) by simp
  then have "readOrder (engine_part W) (engine z) = Some (Inr (engine z))"
    using empty_iff_contents [OF Q(1)] by (intro readOrder_idle) simp
  ultimately show ?thesis
    using Q(1,3) by (simp add: engine_did_def engine_inv_def sample_inv_def acked_same log_grows_same)
      (simp add: handled_def)
qed

lemma next_request:
  assumes inv: "system_inv W z" and less: "handled z < forwarded_count z"
  defines "r \<equiv> requests_made z ! handled z" and "m \<equiv> market_of (engine z)"
  shows "contents (LobOrderQueue (engine z)) = r # drop (Suc (handled z)) (requests_made z)"
    and "request_ok max_price_tick r m" and "tags_of (m_request max_price_tick r m) \<subseteq> tags_below (Suc (handled z))"
    and "touches r m \<subseteq> tags_below (Suc (handled z))"
    and "market_after (take (Suc (handled z)) (requests_made z)) = m_request max_price_tick r m"
proof -
  note Q = waiting_requests [OF inv]
  have G: "gateway_inv W z" and E: "engine_inv W z" using inv by (simp_all add: system_inv_def)
  show "contents (LobOrderQueue (engine z)) = r # drop (Suc (handled z)) (requests_made z)"
    using Q(2,4) less by (simp add: r_def Cons_nth_drop_Suc)
  have "forwards (handled z) (alpha_order (w_alpha W) (Suc (handled z))) r"
    using G less Q(5) all_orders_nth [of "handled z" "w_alpha W"] by (fastforce simp: gateway_inv_def r_def)
  moreover have "tags_of m \<subseteq> tags_below (handled z)" using E by (simp add: engine_inv_def m_def)
  ultimately show "request_ok max_price_tick r m" "touches r m \<subseteq> tags_below (Suc (handled z))"
    "tags_of (m_request max_price_tick r m) \<subseteq> tags_below (Suc (handled z))"
    using generated_request_ok less_le_trans [OF less Q(5)] by blast+
  show "market_after (take (Suc (handled z)) (requests_made z)) = m_request max_price_tick r m"
    using E less Q(4) by (simp add: engine_inv_def market_after_def take_Suc_conv_app_nth r_def m_def)
qed

lemma engine_works:
  assumes inv: "system_inv W z" and less: "handled z < forwarded_count z"
  obtains s' where "engine_did W z 1 s'"
proof -
  let ?s = "engine z" and ?H = "engine_part W" and ?h = "handled z" and ?rs = "requests_made z"
  let ?r = "requests_made z ! handled z"
  note Q = waiting_requests [OF inv] and R = next_request [OF inv less]
  have "engine_inv W z" and S: "sample_inv W z" using inv by (simp_all add: system_inv_def)
  note E = this(1) [unfolded engine_inv_def]
  have small: "Suc ?h < 2 ^ 31" using less Q(5) by simp
  have two: "2 * (99999 - ?h) = Suc (Suc (2 * (99999 - Suc ?h)))" using less Q(5) by arith
  have inv_s: "me_inv ?h max_price_tick ?s" and "bcast_ready ?H (2 * (99999 - ?h)) ?s" using E by simp_all
  then have ready: "bcast_ready ?H (Suc (Suc (2 * (99999 - Suc ?h)))) ?s" unfolding two by simp
  obtain s' where s': "readOrder ?H ?s = Some (Inr s')" "me_inv (Suc ?h) max_price_tick s'"
    "market_of s' = m_request max_price_tick ?r (market_of ?s)" "bcast_ready ?H (2 * (99999 - Suc ?h)) s'"
    "lfq_inv (LobOrderQueue s')" "contents (LobOrderQueue s') = drop (Suc ?h) ?rs"
    "length (tickToTrade s') = Suc (length (tickToTrade ?s))"
    "log_grows (touches ?r (market_of ?s)) ?s s'" "acked max_price_tick (touches ?r (market_of ?s)) ?s s'"
    "length (store (LobOrderQueue s')) = length (store (LobOrderQueue ?s))"
    "length (QueueTime s') = Suc (length (QueueTime ?s))"
    "length (matchingProcessingTime s') = Suc (length (matchingProcessingTime ?s))"
    "length (Throughtput s') = length (Throughtput ?s) + (if lastOrderTime ?s = 0 then 0 else 1)"
    "lastOrderTime s' = tsc ?H (clk ?s)"
    by (rule readOrder_refines [OF inv_s small ready Q(1) R(1,2)])
  have "unread ?s s'" by (rule readOrder_unread [OF _ s'(1)]) (simp add: engine_part_def)
  moreover have "acked max_price_tick (tags_below (Suc ?h)) ?s s'" "log_grows (tags_below (Suc ?h)) ?s s'"
    using acked_mono [OF s'(9) R(4)] log_grows_mono [OF s'(8) R(4)] by blast+
  moreover have "length (Throughtput s') = Suc ?h - 1 \<and> (lastOrderTime s' = 0 \<longleftrightarrow> Suc ?h = 0)" if "clock_runs W"
  proof -
    have "tsc ?H (clk ?s) \<noteq> 0" using that by (simp add: clock_runs_def engine_part_def)
    moreover have "length (Throughtput ?s) = ?h - 1" "lastOrderTime ?s = 0 \<longleftrightarrow> ?h = 0"
      using S that by (simp_all add: sample_inv_def)
    ultimately show ?thesis using s'(13,14) by simp
  qed
  moreover have "length (QueueTime s') = Suc ?h" "length (matchingProcessingTime s') = Suc ?h" "length (tickToTrade s') = Suc ?h"
    using S s'(7,11,12) by (simp_all add: sample_inv_def handled_def)
  ultimately have "engine_did W z 1 s'"
    using s'(1-6,10) R(1,3,5) less by (simp add: engine_did_def)
  then show thesis by (rule that)
qed

lemma handled_after_engine: "engine_did W z k s' \<Longrightarrow> handled (after_engine z s') = handled z + k"
  by (simp add: handled_def after_engine_def engine_did_def Let_def)

lemma after_engine_gateway:
  assumes inv: "system_inv W z" and D: "engine_did W z k s'"
  shows "gateway_inv W (after_engine z s')"
proof -
  have "gateway_inv W z" "engine_inv W z" "ack_inv z" using inv by (simp_all add: system_inv_def)
  note G = this(1) [unfolded gateway_inv_def] and E = this(2) [unfolded engine_inv_def] and K = this(3) [unfolded ack_inv_def]
    and D' = D [unfolded engine_did_def Let_def]
  let ?p = "reader_moved (LobOrderQueue s') (gw_LobOrderQueue (gateway z))"
  have "port_inv ?p" by (rule reader_moved_inv [where k = k]) (use G E D' in simp_all)
  moreover have "port_cap ?p = 200004" using G E D' by (subst reader_moved_cap) simp_all
  moreover have "adds (ack_ok max_price_tick (tags_below (handled z + k))) (LobAck (engine z)) (LobAck s')"
    using D' unfolding acked_def by blast
  then have "lfq_inv (chan (LobAck s'))" using K by (auto elim: addsD simp: port_lfq)
  ultimately show ?thesis
    using G E D' gw_ok_queues(2) unfolding gateway_inv_def handled_after_engine [OF D]
    by (simp add: after_engine_def drop_drop add.commute)
qed

lemma after_engine_acks:
  assumes inv: "system_inv W z" and D: "engine_did W z k s'"
  shows "ack_inv (after_engine z s')"
proof -
  have "ack_inv z" using inv by (simp add: system_inv_def)
  note K = this [unfolded ack_inv_def] and D' = D [unfolded engine_did_def Let_def]
  have "adds (ack_ok max_price_tick (tags_below (handled z + k))) (LobAck (engine z)) (LobAck s')"
    using D' unfolding acked_def by blast
  then obtain as where as: "port_inv (LobAck s')" "published (LobAck s') = published (LobAck (engine z)) @ as"
    "\<forall>a \<in> set as. ack_ok max_price_tick (tags_below (handled z + k)) a"
    by (rule addsD) (use K in blast)
  have "la_system_id a \<in> ids_below (handled z + k) \<and> printable (la_price a)" if "a \<in> set as" for a
    using bspec [OF as(3) that] level_printable tags_below_parts(2) by (auto simp only: ack_ok_def)
  moreover have "ids_below (handled z) \<subseteq> ids_below (handled z + k)" by (rule ids_below_mono) simp
  ultimately have "\<forall>a \<in> set (published (LobAck (engine z)) @ as).
      la_system_id a \<in> ids_below (handled z + k) \<and> printable (la_price a)"
    using K unfolding set_append by blast
  moreover have "\<forall>u \<in> set (published (gw_SniperOrderAck (gateway z))).
      \<exists>j < handled z + k. ua_order_id u = word_of_nat (Suc j)"
    using K by (blast intro: trans_less_add1)
  ultimately show ?thesis
    using K as(1,2) unfolding ack_inv_def handled_after_engine [OF D] by (simp add: after_engine_def del: of_nat_Suc)
qed

lemma engine_moved:
  assumes inv: "system_inv W z" and D: "engine_did W z k s'"
  shows "system_inv W (after_engine z s')"
proof -
  note D' = D [unfolded engine_did_def Let_def] and h = handled_after_engine [OF D]
  have A: "alpha_inv W z" and L: "log_inv z" and S: "sample_inv W z" using inv by (simp_all add: system_inv_def)
  have "alpha_inv W (after_engine z s')" using A by (simp add: alpha_inv_def after_engine_def)
  moreover have "engine_inv W (after_engine z s')"
    using D' unfolding engine_inv_def h by (simp add: after_engine_def)
  moreover have log: "log_grows (tags_below (handled z + k)) (engine z) s'" "unread (engine z) s'" using D' by blast+
  have "log_inv (after_engine z s')" by (rule log_inv_engine [OF L log]) (simp_all add: after_engine_def)
  moreover have "sample_inv W (after_engine z s')"
    using S D' unfolding sample_inv_def h by (simp add: after_engine_def)
  ultimately show ?thesis
    using after_engine_gateway [OF inv D] after_engine_acks [OF inv D] by (simp add: system_inv_def)
qed

lemma engine_turn_step:
  assumes inv: "system_inv W z"
  obtains z' where "engine_turn W z = Some (Inr z')" and "system_inv W z'"
    and "sent z' = sent z" and "forwarded_count z' = forwarded_count z"
    and "handled z' = min (forwarded_count z) (Suc (handled z))"
proof -
  obtain k s' where D: "engine_did W z k s'" and k: "handled z + k = min (forwarded_count z) (Suc (handled z))"
  proof (cases "handled z < forwarded_count z")
    case True
    obtain s' where "engine_did W z 1 s'" by (rule engine_works [OF inv True])
    with that [of 1] True show thesis by simp
  next
    case False
    then have "handled z = forwarded_count z" using waiting_requests(3) [OF inv] by simp
    with that [of 0] engine_idle [OF inv] show thesis by simp
  qed
  have "engine_turn W z = Some (Inr (after_engine z s'))"
    using D by (simp add: engine_turn_def after_engine_def engine_did_def Let_def)
  then show thesis
    by (rule that) (use engine_moved [OF inv D] handled_after_engine [OF D] k in \<open>simp_all add: after_engine_def\<close>)
qed

lemma logger_turn_step:
  assumes inv: "system_inv W z"
  obtains z' where "logger_thread_turn W z = Some (Inr z')" and "system_inv W z'"
    and "contents (matching_engine_queue (logger z')) = drop LIMIT (contents (matching_engine_queue (logger z)))"
    and "contents (order_gateway_queue (logger z')) = drop LIMIT (contents (order_gateway_queue (logger z)))"
    and "published (matchLog (engine z')) = published (matchLog (engine z))"
    and "published (gw_Logger (gateway z')) = published (gw_Logger (gateway z))"
    and "sent z' = sent z" and "forwarded_count z' = forwarded_count z" and "handled z' = handled z"
proof -
  have I: "alpha_inv W z" "gateway_inv W z" "engine_inv W z" "ack_inv z" and L: "log_inv z" and S: "sample_inv W z"
    using inv by (simp_all add: system_inv_def)
  obtain a where a: "logger_turn (logger z) = Inr a"
    "contents (matching_engine_queue a) = drop LIMIT (contents (matching_engine_queue (logger z)))"
    "contents (order_gateway_queue a) = drop LIMIT (contents (order_gateway_queue (logger z)))"
    "\<forall>z'. matchLog (engine z') = reader_moved (matching_engine_queue a) (matchLog (engine z)) \<and>
      gw_Logger (gateway z') = reader_moved (order_gateway_queue a) (gw_Logger (gateway z)) \<and> logger z' = a \<longrightarrow> log_inv z'"
    by (rule log_inv_logger [OF L])
  define z' where "z' = z\<lparr>logger := a,
    engine := (engine z)\<lparr>matchLog := reader_moved (matching_engine_queue a) (matchLog (engine z))\<rparr>,
    gateway := (gateway z)\<lparr>gw_Logger := reader_moved (order_gateway_queue a) (gw_Logger (gateway z))\<rparr>\<rparr>"
  have run: "logger_thread_turn W z = Some (Inr z')" using a(1) by (simp add: logger_thread_turn_def z'_def)
  have h: "handled z' = handled z" by (simp add: handled_def z'_def)
  have "alpha_inv W z'" using I(1) by (simp add: alpha_inv_def z'_def)
  moreover have "gateway_inv W z'" using I(2) unfolding gateway_inv_def h by (simp add: z'_def)
  moreover have "engine_inv W z'" using I(3) unfolding engine_inv_def h by (simp add: z'_def)
  moreover have "ack_inv z'" using I(4) unfolding ack_inv_def h by (simp add: z'_def)
  moreover have "log_inv z'" by (rule a(4) [rule_format]) (simp add: z'_def)
  moreover have "sample_inv W z'" using S unfolding sample_inv_def h by (simp add: z'_def)
  ultimately have "system_inv W z'" by (simp add: system_inv_def)
  with run show thesis by (rule that) (use h a(2,3) in \<open>simp_all add: z'_def\<close>)
qed

subsection \<open>Schedules\<close>

lemma system_start_inv: "system_inv W (system_start W)" and system_start_counts:
  "sent (system_start W) = 0" "forwarded_count (system_start W) = 0" "handled (system_start W) = 0"
proof -
  let ?z = "system_start W"
  have ports: "port_inv (port_new queue_size d)" "port_cap (port_new queue_size d) = 200004"
    "published (port_new queue_size d) = []" "chan (port_new queue_size d) = LFQueue_new queue_size d"
    "lfq_inv (LFQueue_new queue_size d)" "contents (LFQueue_new queue_size d) = []" for d :: 'a
    by (simp_all add: port_new_inv LFQueue_new_inv LFQueue_new_contents queue_size_def)
      (simp_all add: port_new_def port_cap_def LFQueue_new_def)
  have alpha: "AlphaOrderQueue (alpha ?z) = port_new queue_size UserOrder_init" "TestStore (alpha ?z) = all_orders (w_alpha W)"
    by (simp_all add: system_start_def fill_store_eq AlphaServer_new_def all_orders_def)
  show counts: "sent ?z = 0" "forwarded_count ?z = 0" "handled ?z = 0"
    by (simp_all add: system_start_def OrderGateway_new_def handled_def ME_new_def)
  have gw: "gateway ?z = OrderGateway_new queue_size" and eng: "engine ?z = ME_new max_price_tick queue_size"
    by (simp_all add: system_start_def)
  note N = ME_new_inv [of max_price_tick queue_size]
  have "alpha_inv W ?z" by (simp add: alpha_inv_def alpha counts ports)
  moreover have "gw_ok (gateway ?z)" "contents (gw_MMorderQueue (gateway ?z)) = []"
    using ids_ok_new [of queue_size] unfolding gw by (simp_all add: gw_ok_def OrderGateway_new_def ports)
  then have "gateway_inv W ?z"
    by (simp add: gateway_inv_def counts alpha ports) (simp add: gw OrderGateway_new_def ports)
  moreover have "engine_inv W ?z"
  proof -
    have "LobOrderQueue (engine ?z) = chan (gw_LobOrderQueue (gateway ?z))"
      by (simp add: gw eng OrderGateway_new_def ME_new_def ports)
    moreover have "bcast_ready (engine_part W) 199998 (engine ?z)"
      using N(3-5) by (simp add: eng bcast_ready_def queue_size_def max_price_tick_def)
    moreover have "market_of (engine ?z) = market_after []" "tags_of (market_after []) = {}"
      using N(2) by (auto simp: eng market_after_def empty_market_def tags_of_def side_def queue_size_def max_price_tick_def)
    ultimately show ?thesis
      using N(1) by (simp add: engine_inv_def counts) (simp add: eng queue_size_def max_price_tick_def)
  qed
  moreover have "ack_inv ?z"
    by (simp add: ack_inv_def counts) (simp add: gw eng OrderGateway_new_def ME_new_def ports)
  moreover have "log_inv ?z"
  proof -
    have logs: "matchLog (engine ?z) = port_new queue_size LogElement_init"
      "gw_Logger (gateway ?z) = port_new queue_size LogElement_init"
      by (simp_all add: gw eng OrderGateway_new_def ME_new_def)
    have "delivered (port_new queue_size LogElement_init) = []" by (simp add: port_new_def)
    then show ?thesis
      unfolding log_inv_def logs by (simp add: ports) (simp add: system_start_def file_of_Nil)
  qed
  moreover have "sample_inv W ?z"
    by (simp add: sample_inv_def counts) (simp add: gw eng OrderGateway_new_def ME_new_def)
  ultimately show "system_inv W ?z" by (simp add: system_inv_def)
qed

lemma thread_turn_step:
  assumes "system_inv W z"
  shows "\<exists>z'. thread_turn W t z = Some (Inr z') \<and> system_inv W z' \<and>
    sent z' = (if t = AlphaThread then min 99999 (Suc (sent z)) else sent z) \<and>
    forwarded_count z' = (if t = GatewayThread then min (sent z) (Suc (forwarded_count z)) else forwarded_count z) \<and>
    handled z' = (if t = EngineThread then min (forwarded_count z) (Suc (handled z)) else handled z)"
proof (cases t)
  case AlphaThread
  obtain z' where "alpha_turn W z = Some (Inr z')" "system_inv W z'" "sent z' = min 99999 (Suc (sent z))"
    "forwarded_count z' = forwarded_count z" "handled z' = handled z"
    by (rule alpha_turn_step [OF assms])
  with AlphaThread show ?thesis by simp
next
  case GatewayThread
  obtain z' where "gateway_thread_turn W z = Some (Inr z')" "system_inv W z'" "sent z' = sent z"
    "forwarded_count z' = min (sent z) (Suc (forwarded_count z))" "handled z' = handled z"
    by (rule gateway_turn_step [OF assms])
  with GatewayThread show ?thesis by simp
next
  case EngineThread
  obtain z' where "engine_turn W z = Some (Inr z')" "system_inv W z'" "sent z' = sent z"
    "forwarded_count z' = forwarded_count z" "handled z' = min (forwarded_count z) (Suc (handled z))"
    by (rule engine_turn_step [OF assms])
  with EngineThread show ?thesis by simp
next
  case LoggerThread
  obtain z' where "logger_thread_turn W z = Some (Inr z')" "system_inv W z'" "sent z' = sent z"
    "forwarded_count z' = forwarded_count z" "handled z' = handled z"
    by (rule logger_turn_step [OF assms])
  with LoggerThread show ?thesis by simp
qed

lemma system_inv_counts:
  assumes "system_inv W z"
  shows "sent z \<le> 99999" and "forwarded_count z \<le> sent z" and "handled z \<le> forwarded_count z"
  using assms by (simp_all add: system_inv_def alpha_inv_def gateway_inv_def)

text \<open>What a schedule gets done: a thread is never held up once those before it are finished.\<close>

lemma run_schedule_inv:
  assumes "system_inv W z"
  obtains z' where "run_schedule W ts z = Some (Inr z')" and "system_inv W z'"
    and "sent z' = min 99999 (sent z + count_list ts AlphaThread)"
    and "sent z = 99999 \<longrightarrow> forwarded_count z' = min 99999 (forwarded_count z + count_list ts GatewayThread)"
    and "forwarded_count z = 99999 \<longrightarrow> handled z' = min 99999 (handled z + count_list ts EngineThread)"
  using assms
proof (induction ts arbitrary: z thesis)
  case Nil
  with system_inv_counts [OF Nil.prems(2)] show ?case by simp
next
  case (Cons t ts)
  obtain z1 where z1: "thread_turn W t z = Some (Inr z1)" "system_inv W z1"
    "sent z1 = (if t = AlphaThread then min 99999 (Suc (sent z)) else sent z)"
    "forwarded_count z1 = (if t = GatewayThread then min (sent z) (Suc (forwarded_count z)) else forwarded_count z)"
    "handled z1 = (if t = EngineThread then min (forwarded_count z) (Suc (handled z)) else handled z)"
    using thread_turn_step [OF Cons.prems(2)] by blast
  note N = system_inv_counts [OF Cons.prems(2)]
  obtain z' where z': "run_schedule W ts z1 = Some (Inr z')" "system_inv W z'"
    "sent z' = min 99999 (sent z1 + count_list ts AlphaThread)"
    "sent z1 = 99999 \<longrightarrow> forwarded_count z' = min 99999 (forwarded_count z1 + count_list ts GatewayThread)"
    "forwarded_count z1 = 99999 \<longrightarrow> handled z' = min 99999 (handled z1 + count_list ts EngineThread)"
    by (rule Cons.IH [OF _ z1(2)])
  have run: "run_schedule W (t # ts) z = Some (Inr z')" using z1(1) z'(1) by simp
  show ?case
    by (rule Cons.prems(1) [OF run z'(2)]) (use N z1(3-5) z'(3-5) in \<open>cases t; auto\<close>)+
qed

lemma run_schedule_append:
  "run_schedule W ts z = Some (Inr z1) \<Longrightarrow> run_schedule W (ts @ us) z = run_schedule W us z1"
proof (induction ts arbitrary: z)
  case (Cons t ts)
  then obtain z2 where "thread_turn W t z = Some (Inr z2)" "run_schedule W ts z2 = Some (Inr z1)"
    by (auto simp: bindO_eq_Some_Inr)
  with Cons.IH show ?case by simp
qed simp

end
