(* ===== verification/SystemProps.thy ===== *)
theory SystemProps
  imports SystemProofs
begin

text \<open>
  What the program of \<open>main.cpp\<close> promises, for every interleaving of its threads, all random numbers
  and all clocks.
\<close>

subsection \<open>Every schedule\<close>

lemma any_schedule:
  obtains z where "run_schedule W ts (system_start W) = Some (Inr z)" and "system_inv W z"
  using run_schedule_inv [OF system_start_inv] by blast

text \<open>
  C2. No thread ever faults or hangs: in every schedule of their turns the four threads get through,
  and at each moment the books of the engine are the market made, one after the other, by as many
  requests of the gateway as it has taken latency samples, and the books are not crossed.
\<close>
theorem system_runs:
  "\<exists>z. run_schedule W ts (system_start W) = Some (Inr z) \<and>
    market_of (engine z) = fold (m_request max_price_tick)
      (take (length (tickToTrade (engine z))) (published (gw_LobOrderQueue (gateway z)))) empty_market \<and>
    length (tickToTrade (engine z)) \<le> length (published (gw_LobOrderQueue (gateway z))) \<and>
    length (published (gw_LobOrderQueue (gateway z))) \<le> length (published (AlphaOrderQueue (alpha z))) \<and>
    uncrossed (engine z)"
proof -
  obtain z where z: "run_schedule W ts (system_start W) = Some (Inr z)" and inv: "system_inv W z"
    by (rule any_schedule)
  have "alpha_inv W z" "gateway_inv W z" "engine_inv W z" using inv by (simp_all add: system_inv_def)
  note I = this [unfolded alpha_inv_def gateway_inv_def engine_inv_def]
  have "me_inv (handled z) max_price_tick (engine z)" using I(3) by blast
  then have "uncrossed (engine z)" by (rule me_invD(7))
  with z I show ?thesis
    by (intro exI [of _ z]) (simp add: handled_def market_after_def)
qed

text \<open>
  C6. No order is lost, repeated, overtaken or changed on its way to the engine: in every schedule
  the gateway's requests are the first orders of the generator, one for each, in their order, with
  the system ids 0, 1, 2, ...
\<close>
theorem system_forwards_in_order:
  "\<exists>z stamps. run_schedule W ts (system_start W) = Some (Inr z) \<and>
    published (AlphaOrderQueue (alpha z)) = take (sent z) (map (alpha_order (w_alpha W)) [1..<order_num]) \<and>
    published (gw_LobOrderQueue (gateway z)) =
      map (\<lambda>(j, a, t). lob_order_of a j t (alpha_order (w_alpha W) (Suc j))) (zip [0..<length stamps] stamps) \<and>
    length stamps \<le> sent z"
proof -
  obtain z where z: "run_schedule W ts (system_start W) = Some (Inr z)" and inv: "system_inv W z"
    by (rule any_schedule)
  have A: "alpha_inv W z" and G: "gateway_inv W z" using inv by (simp_all add: system_inv_def)
  note A' = A [unfolded alpha_inv_def] and G' = G [unfolded gateway_inv_def]
  note N = system_inv_counts [OF inv]
  let ?k = "forwarded_count z"
  have "\<exists>p. requests_made z ! j = lob_order_of (fst p) j (snd p) (alpha_order (w_alpha W) (Suc j))" if "j < ?k" for j
  proof -
    have "forwards j (alpha_order (w_alpha W) (Suc j)) (requests_made z ! j)"
      using G' that N all_orders_nth [of j "w_alpha W"] by fastforce
    then show ?thesis by (auto simp: forwards_def)
  qed
  then obtain f where f: "\<And>j. j < ?k \<Longrightarrow>
      requests_made z ! j = lob_order_of (fst (f j)) j (snd (f j)) (alpha_order (w_alpha W) (Suc j))"
    by metis
  have "requests_made z = map (\<lambda>(j, a, t). lob_order_of a j t (alpha_order (w_alpha W) (Suc j)))
      (zip [0..<?k] (map f [0..<?k]))"
    using G' f by (intro nth_equalityI) (simp_all add: split_def)
  with z A' N show ?thesis
    by (intro exI [of _ z] exI [of _ "map f [0..<?k]"]) (simp add: all_orders_def)
qed

text \<open>
  C17. Every acknowledgement a user gets is for an order of the generator that the engine has handled:
  in every schedule of whole turns the order ids of all of them are among the ids \<open>1, ..., n\<close> of the
  first \<open>n\<close> orders, those the engine has finished at the end of the schedule, although engine and gateway know the orders by their system ids.
\<close>
theorem system_acks_refer_to_orders:
  "\<exists>z. run_schedule W ts (system_start W) = Some (Inr z) \<and>
    ua_order_id ` set (published (gw_SniperOrderAck (gateway z))) \<subseteq>
      word_of_nat ` {1..length (tickToTrade (engine z))}"
proof -
  obtain z where z: "run_schedule W ts (system_start W) = Some (Inr z)" and inv: "system_inv W z"
    by (rule any_schedule)
  have K: "ack_inv z" using inv by (simp add: system_inv_def)
  note known = K [unfolded ack_inv_def, THEN conjunct2, THEN conjunct2, THEN conjunct2, THEN conjunct2]
  have "ua_order_id u \<in> word_of_nat ` {1..length (tickToTrade (engine z))}"
    if "u \<in> set (published (gw_SniperOrderAck (gateway z)))" for u
  proof -
    note u = bspec [OF known that]
    obtain j where j: "j < handled z" "ua_order_id u = word_of_nat (Suc j)"
      using u by blast
    then have "Suc j \<in> {1..length (tickToTrade (engine z))}" by (simp add: handled_def)
    with j(2) show ?thesis by (simp only: image_eqI)
  qed
  with z show ?thesis by blast
qed

subsection \<open>Fair schedules\<close>

lemma count_list_replicate: "count_list (replicate n x) x = n"
  by (induction n) simp_all

text \<open>
  C15. The program gets through: in every schedule that gives the generator 99999 turns, after that
  the gateway 99999 turns and after that the engine 99999 turns, with whatever other turns in
  between, every generated order has become a request, the engine has handled all of them and its
  books are the market they make.
\<close>
theorem system_completes:
  assumes "99999 \<le> count_list as AlphaThread" and "99999 \<le> count_list gs GatewayThread"
    and "99999 \<le> count_list es EngineThread"
  shows "\<exists>z. run_schedule W (as @ gs @ es) (system_start W) = Some (Inr z) \<and>
    length (published (gw_LobOrderQueue (gateway z))) = 99999 \<and> length (tickToTrade (engine z)) = 99999 \<and>
    market_of (engine z) = fold (m_request max_price_tick) (published (gw_LobOrderQueue (gateway z))) empty_market"
proof -
  let ?z = "system_start W"
  obtain z1 where z1: "run_schedule W as ?z = Some (Inr z1)" "system_inv W z1"
    "sent z1 = min 99999 (sent ?z + count_list as AlphaThread)"
    by (rule run_schedule_inv [OF system_start_inv])
  have s1: "sent z1 = 99999" using z1(3) assms(1) system_start_counts(1) by simp
  obtain z2 where z2: "run_schedule W gs z1 = Some (Inr z2)" "system_inv W z2"
    "sent z2 = min 99999 (sent z1 + count_list gs AlphaThread)"
    "sent z1 = 99999 \<longrightarrow> forwarded_count z2 = min 99999 (forwarded_count z1 + count_list gs GatewayThread)"
    by (rule run_schedule_inv [OF z1(2)])
  have s2: "sent z2 = 99999" "forwarded_count z2 = 99999" using z2(3,4) s1 assms(2) by simp_all
  obtain z where z: "run_schedule W es z2 = Some (Inr z)" "system_inv W z"
    "sent z = min 99999 (sent z2 + count_list es AlphaThread)"
    "sent z2 = 99999 \<longrightarrow> forwarded_count z = min 99999 (forwarded_count z2 + count_list es GatewayThread)"
    "forwarded_count z2 = 99999 \<longrightarrow> handled z = min 99999 (handled z2 + count_list es EngineThread)"
    by (rule run_schedule_inv [OF z2(2)])
  have done': "forwarded_count z = 99999" "handled z = 99999" using z(4,5) s2 assms(3) by simp_all
  have "run_schedule W (as @ gs @ es) ?z = Some (Inr z)"
    using run_schedule_append [OF z1(1)] run_schedule_append [OF z2(1)] z(1) by simp
  moreover have "gateway_inv W z" "engine_inv W z" using z(2) by (simp_all add: system_inv_def)
  note I = this [unfolded gateway_inv_def engine_inv_def]
  then have "length (requests_made z) = 99999"
    "market_of (engine z) = market_after (take 99999 (requests_made z))"
    using done' by simp_all
  ultimately show ?thesis using done'(2) by (auto simp: handled_def market_after_def)
qed

definition demo_world :: world where
  "demo_world = \<lparr>w_alpha = \<lparr>rand_result = (\<lambda>n. n), junk = (\<lambda>_. 0), alpha_env = (\<lambda>_. 0)\<rparr>,
     w_gateway = demo_gw_hw, w_engine = demo_hw\<rparr>"

theorem system_completes_witness:
  "\<exists>z. run_schedule demo_world (replicate 99999 AlphaThread @ replicate 99999 GatewayThread @ replicate 99999 EngineThread)
      (system_start demo_world) = Some (Inr z) \<and> length (tickToTrade (engine z)) = 99999"
  using system_completes [of "replicate 99999 AlphaThread" "replicate 99999 GatewayThread"
      "replicate 99999 EngineThread" demo_world]
  unfolding count_list_replicate by blast

subsection \<open>Updates and cancellations\<close>

text \<open>
  C13. A user can neither change nor cancel an order: the gateway gives every user order, whatever it
  asks for, the next system id, so when all orders in the books came through the gateway, the
  request it publishes for an update leaves market and users untouched, and the one for a
  cancellation ends the engine with a fault.
\<close>
theorem gateway_breaks_updates:
  assumes gate: "ids_ok g" "gw_next_system_id g < gw_size" "gatewayOrderProcess HG order g = Inr g'"
    "port_inv (gw_LobOrderQueue g)" "published (gw_LobOrderQueue g') = published (gw_LobOrderQueue g) @ [r]"
    and eng: "me_inv n mx s" "ids_of (market_of s) \<subseteq> word_of_nat ` {..<gw_next_system_id g}"
    "lfq_inv (LobOrderQueue s)" "contents (LobOrderQueue s) = r # rest"
  shows "(uo_req_type order = CHR ''d'' \<longrightarrow> readOrder H s = Some (Inl OutOfBounds)) \<and>
    (uo_req_type order = CHR ''u'' \<longrightarrow> (\<exists>s'. readOrder H s = Some (Inr s') \<and> market_of s' = market_of s \<and>
       BroadCastQ s' = BroadCastQ s \<and> LobAck s' = LobAck s \<and> contents (LobOrderQueue s') = rest))"
proof -
  let ?k = "gw_next_system_id g"
  obtain g1 ord where g1: "gatewayOrderProcess HG order g = Inr g1" "forwards ?k order ord"
    "sends (gw_LobOrderQueue g) (gw_LobOrderQueue g1) [ord]"
    by (rule gatewayOrderProcess_correct [OF gate(1,2)])
  have "g1 = g'" using g1(1) gate(3) by simp
  then obtain ys where "published (gw_LobOrderQueue g') = published (gw_LobOrderQueue g) @ ys" "subseq ys [ord]"
    using sendsD [OF g1(3) gate(4)] by metis
  then have "subseq [r] [ord]" using gate(5) by simp
  then have "r = ord" by (simp split: if_splits)
  then obtain a t where r: "r = lob_order_of a ?k t order" using g1(2) by (auto simp: forwards_def)
  have k: "?k < 2 ^ 32" using gate(2) by (simp add: gw_size_def)
  then have id: "unat (system_id r) = ?k" by (simp add: r lob_order_of_def unat_word_of_nat32)
  have lut: "unat (system_id r) < LUT_SIZE" using gate(2) by (simp add: id gw_size_def LUT_SIZE_def)
  have "unat (system_id x) \<noteq> ?k" if x: "x \<in> set (side (is_bid r) (market_of s) p)" for x p
  proof -
    have "system_id x \<in> ids_of (market_of s)" using x by (auto simp: ids_of_def)
    then obtain j where j: "j < ?k" "system_id x = word_of_nat j" using eng(2) by auto
    then have "unat (system_id x) = j" using k by (simp add: unat_word_of_nat32)
    with j(1) show ?thesis by simp
  qed
  then have "find_order mx ?k (side (is_bid r) (market_of s)) = None" by (simp add: find_order_None)
  then have "LUT (own (is_bid r) s) (unat (system_id r)) = (NPOS, NPOS)"
    using find_order_fresh [OF me_invD(1,3) [OF eng(1)] lut] by (simp add: id side_market_of)
  note readOrder_unknown [OF eng(1,3,4) lut this, of H]
  moreover have "req_type r = uo_req_type order" by (simp add: r lob_order_of_def)
  ultimately show ?thesis by simp
qed

theorem gateway_breaks_updates_witness:
  "\<exists>g' r. gatewayOrderProcess demo_gw_hw (demo_user_order 5 (CHR ''d'') 3) (OrderGateway_new 4) = Inr g' \<and>
    published (gw_LobOrderQueue g') = [r] \<and>
    readOrder demo_hw (new_engine 30 8 \<lparr>store = [r, r], next_write_index = 1, next_read_index = 0\<rparr>) =
      Some (Inl OutOfBounds)"
proof -
  let ?g = "OrderGateway_new 4" and ?o = "demo_user_order 5 (CHR ''d'') 3"
  have n: "gw_next_system_id ?g = 0" and port: "port_inv (gw_LobOrderQueue ?g)"
    and cap: "port_cap (gw_LobOrderQueue ?g) = 3" and pub: "published (gw_LobOrderQueue ?g) = []"
    by (simp_all add: OrderGateway_new_def port_new_inv) (simp_all add: port_new_def port_cap_def LFQueue_new_def)
  have room: "gw_next_system_id ?g < gw_size" by (simp add: n gw_size_def)
  obtain g' r where g': "gatewayOrderProcess demo_gw_hw ?o ?g = Inr g'"
    "sends (gw_LobOrderQueue ?g) (gw_LobOrderQueue g') [r]"
    by (rule gatewayOrderProcess_correct [OF ids_ok_new room])
  have made: "published (gw_LobOrderQueue g') = [r]" using sendsD [OF g'(2) port] cap pub by (auto elim: sendsD)
  let ?s = "new_engine 30 8 \<lparr>store = [r, r], next_write_index = 1, next_read_index = 0\<rparr>"
  have "me_inv 0 30 ?s" "market_of ?s = empty_market"
    by (rule new_engine_start [where H = demo_hw and k = 0]; simp)+
  moreover have "lfq_inv (LobOrderQueue ?s)" "contents (LobOrderQueue ?s) = [r]"
    using demo_user_queue [of r r] by (simp_all add: new_engine_def)
  moreover have "ids_of empty_market = {}" by (auto simp: ids_of_def side_def empty_market_def)
  ultimately have "readOrder demo_hw ?s = Some (Inl OutOfBounds)"
    using gateway_breaks_updates [OF ids_ok_new room g'(1) port, of r 0 30 ?s "[]" demo_hw] made pub n
    by (simp add: demo_user_order_def)
  with g'(1) made show ?thesis by blast
qed

end
