(* ===== verification/SystemLogProps.thy ===== *)
theory SystemLogProps
  imports SystemProps LoggerProps
begin

text \<open>
  What the log of the whole program promises (\<open>main.cpp\<close>, \<open>header/logger.h\<close>), for every
  interleaving of its threads: everything that is logged can be written, and the file is the text of
  what the logger has read, in order.
\<close>

lemma any_schedule_logs:
  obtains z where "run_schedule W ts (system_start W) = Some (Inr z)" and "log_inv z"
  using any_schedule system_inv_def by blast

lemma log_inv_file:
  assumes "log_inv z"
  shows "\<exists>ms gs ws. published (matchLog (engine z)) = ms @ contents (matching_engine_queue (logger z)) \<and>
    published (gw_Logger (gateway z)) = gs @ contents (order_gateway_queue (logger z)) \<and>
    ws \<in> shuffles ms gs \<and> map Inr (map render ws) = map write_element ws \<and>
    file_text (logger z) = concat (map render ws)"
proof -
  note L' = assms [unfolded log_inv_def]
  let ?m = "matchLog (engine z)" and ?g = "gw_Logger (gateway z)"
  have pub: "published ?m = delivered ?m @ contents (matching_engine_queue (logger z))"
    "published ?g = delivered ?g @ contents (order_gateway_queue (logger z))"
    using L' by (simp_all add: port_inv_def)
  obtain ws where ws: "ws \<in> shuffles (delivered ?m) (delivered ?g)" "file_text (logger z) = concat (map render ws)"
    using L' unfolding file_of_def by blast
  have "\<forall>e \<in> set ws. writable e" using L' pub set_shuffles [OF ws(1)] by auto
  then have "map Inr (map render ws) = map write_element ws" by (simp add: write_element_ok(1))
  with pub ws show ?thesis by blast
qed

text \<open>
  C16. Every element that the engine or the gateway puts into its log queue conforms to its id: in
  every schedule the payload is the alternative that \<open>drainBatch\<close> takes out of the variant for this
  id, and the text of the element, prices included, is written without a fault in at most 400 characters.
\<close>
theorem system_logs_conform:
  "\<exists>z. run_schedule W ts (system_start W) = Some (Inr z) \<and>
    (\<forall>e \<in> set (published (matchLog (engine z))) \<union> set (published (gw_Logger (gateway z))).
       log_typed e \<and> (\<exists>t. write_element e = Inr t \<and> length t \<le> 400))"
proof -
  obtain z where z: "run_schedule W ts (system_start W) = Some (Inr z)" and L: "log_inv z"
    by (rule any_schedule_logs)
  have "\<forall>e \<in> set (published (matchLog (engine z))) \<union> set (published (gw_Logger (gateway z))). writable e"
    using L unfolding log_inv_def by blast
  with z write_element_ok(1,2) show ?thesis unfolding writable_def by blast
qed

theorem system_logs_conform_witness:
  "\<exists>z. run_schedule demo_world [AlphaThread, GatewayThread, EngineThread] (system_start demo_world) = Some (Inr z) \<and>
    list_all log_typed (published (matchLog (engine z)) @ published (gw_Logger (gateway z)))"
  using system_logs_conform [of demo_world "[AlphaThread, GatewayThread, EngineThread]"]
  by (auto simp: list_all_iff)

text \<open>
  C11. The log file is faithful: in every schedule it is the text of an interleaving of what the engine
  has logged and what the gateway has logged, each in its own order, nothing missing, repeated or
  torn; what is not yet in the file still waits in the two queues.
\<close>
theorem system_file_faithful:
  "\<exists>z ms gs ws. run_schedule W ts (system_start W) = Some (Inr z) \<and>
    published (matchLog (engine z)) = ms @ contents (matching_engine_queue (logger z)) \<and>
    published (gw_Logger (gateway z)) = gs @ contents (order_gateway_queue (logger z)) \<and>
    ws \<in> shuffles ms gs \<and> map Inr (map render ws) = map write_element ws \<and>
    file_text (logger z) = concat (map render ws)"
proof -
  obtain z where z: "run_schedule W ts (system_start W) = Some (Inr z)" and L: "log_inv z"
    by (rule any_schedule_logs)
  with log_inv_file [OF L] show ?thesis by blast
qed

lemma logger_alone:
  assumes "system_inv W z"
  shows "\<exists>z'. run_schedule W (replicate k LoggerThread) z = Some (Inr z') \<and> system_inv W z' \<and>
    contents (matching_engine_queue (logger z')) = drop (k * LIMIT) (contents (matching_engine_queue (logger z))) \<and>
    contents (order_gateway_queue (logger z')) = drop (k * LIMIT) (contents (order_gateway_queue (logger z))) \<and>
    published (matchLog (engine z')) = published (matchLog (engine z)) \<and>
    published (gw_Logger (gateway z')) = published (gw_Logger (gateway z))"
  using assms
proof (induction k arbitrary: z)
  case (Suc k)
  obtain z1 where z1: "logger_thread_turn W z = Some (Inr z1)" "system_inv W z1"
    "contents (matching_engine_queue (logger z1)) = drop LIMIT (contents (matching_engine_queue (logger z)))"
    "contents (order_gateway_queue (logger z1)) = drop LIMIT (contents (order_gateway_queue (logger z)))"
    "published (matchLog (engine z1)) = published (matchLog (engine z))"
    "published (gw_Logger (gateway z1)) = published (gw_Logger (gateway z))"
    by (rule logger_turn_step [OF Suc.prems])
  with Suc.IH [OF z1(2)] show ?case by (auto simp: drop_drop add.commute)
qed simp

text \<open>
  C25. Nothing logged is lost while the logger runs: after any schedule, 2001 further turns of the
  logger, whose queues hold at most 200004 elements each, leave both queues empty, and the file is
  then the text of everything that the engine and the gateway ever got into their log queues.
\<close>
theorem system_log_drained:
  "\<exists>z z' ws. run_schedule W ts (system_start W) = Some (Inr z) \<and>
    run_schedule W (ts @ replicate 2001 LoggerThread) (system_start W) = Some (Inr z') \<and>
    contents (matching_engine_queue (logger z')) = [] \<and> contents (order_gateway_queue (logger z')) = [] \<and>
    ws \<in> shuffles (published (matchLog (engine z))) (published (gw_Logger (gateway z))) \<and>
    file_text (logger z') = concat (map render ws)"
proof -
  obtain z where z: "run_schedule W ts (system_start W) = Some (Inr z)" "system_inv W z"
    by (rule any_schedule)
  obtain z' where z': "run_schedule W (replicate 2001 LoggerThread) z = Some (Inr z')" "system_inv W z'"
    "contents (matching_engine_queue (logger z')) = drop (2001 * LIMIT) (contents (matching_engine_queue (logger z)))"
    "contents (order_gateway_queue (logger z')) = drop (2001 * LIMIT) (contents (order_gateway_queue (logger z)))"
    "published (matchLog (engine z')) = published (matchLog (engine z))"
    "published (gw_Logger (gateway z')) = published (gw_Logger (gateway z))"
    using logger_alone [OF z(2)] by blast
  have "log_inv z" "log_inv z'" using z(2) z'(2) by (simp_all add: system_inv_def)
  note L = this [unfolded log_inv_def]
  have "length (contents (chan p)) \<le> port_cap p" if "port_inv p" for p :: "LogElement port"
    using lfq_size_less [OF port_lfq [OF that]] by (simp add: port_cap_def)
  then have "length (contents (matching_engine_queue (logger z))) \<le> 200004"
    "length (contents (order_gateway_queue (logger z))) \<le> 200004"
    using L(1) by metis+
  then have empty: "contents (matching_engine_queue (logger z')) = []" "contents (order_gateway_queue (logger z')) = []"
    using z'(3,4) by (simp_all add: LIMIT_def)
  have "delivered (matchLog (engine z')) = published (matchLog (engine z))"
    "delivered (gw_Logger (gateway z')) = published (gw_Logger (gateway z))"
    using L(2) empty z'(5,6) by (simp_all add: port_inv_def)
  then obtain ws where "ws \<in> shuffles (published (matchLog (engine z))) (published (gw_Logger (gateway z)))"
    "file_text (logger z') = concat (map render ws)"
    using L(2) unfolding file_of_def by metis
  moreover have "run_schedule W (ts @ replicate 2001 LoggerThread) (system_start W) = Some (Inr z')"
    using run_schedule_append [OF z(1)] z'(1) by simp
  ultimately show ?thesis using z(1) empty by blast
qed

end
