(* ===== verification/Fairness.thy ===== *)
theory Fairness
  imports Prelude
begin

text \<open>
  Runs of several actors that take their steps in any order, and what is needed to show that fair
  runs come to an end (locale \<open>fair_system\<close>): an invariant, a measure that no step raises, and in each
  state an actor that is awaited, whose step lowers the measure and whom the others leave awaited.
  A step may fault; the interface says exactly when, and with which fault.
\<close>

fun run_steps :: "('a \<Rightarrow> 's \<Rightarrow> 's outcome) \<Rightarrow> 'a list \<Rightarrow> 's \<Rightarrow> 's outcome" where
  "run_steps step [] s = Some (Inr s)"
| "run_steps step (a # as) s = bindO (step a s) (run_steps step as)"

lemma run_steps_append:
  "run_steps step as s = Some (Inr s1) \<Longrightarrow> run_steps step (as @ bs) s = run_steps step bs s1"
  by (induction as arbitrary: s) (auto simp: bindO_eq_Some_Inr)

lemma run_steps_fault:
  "run_steps step as s = Some (Inl e) \<Longrightarrow> run_steps step (as @ bs) s = Some (Inl e)"
proof (induction as arbitrary: s)
  case (Cons a as)
  then show ?case by (cases "step a s" rule: option.exhaust) (auto simp: bindO_def split: sum.splits)
qed simp

lemma run_steps_inv:
  assumes "\<And>a s s'. I s \<Longrightarrow> step a s = Some (Inr s') \<Longrightarrow> I s'" and "I s" and "run_steps step as s = Some (Inr s')"
  shows "I s'"
  using assms(2,3)
proof (induction as arbitrary: s)
  case (Cons a as)
  then obtain s1 where "step a s = Some (Inr s1)" "run_steps step as s1 = Some (Inr s')"
    by (auto simp: bindO_eq_Some_Inr)
  with Cons assms(1) show ?case by blast
qed simp

text \<open>The run ends with a fault, in a step to which the interface gives this fault.\<close>

definition faults_as_said :: "('a \<Rightarrow> 's \<Rightarrow> 's outcome) \<Rightarrow> ('s \<Rightarrow> bool) \<Rightarrow> ('a \<Rightarrow> 's \<Rightarrow> fault option) \<Rightarrow> 'a list \<Rightarrow> 's \<Rightarrow> bool" where
  "faults_as_said step I fault_at as s \<longleftrightarrow>
     (\<exists>e bs a cs s'. run_steps step as s = Some (Inl e) \<and> as = bs @ a # cs \<and>
        run_steps step bs s = Some (Inr s') \<and> I s' \<and> fault_at a s' = Some e)"

lemma faults_as_said_append:
  assumes "faults_as_said step I fault_at as s"
  shows "faults_as_said step I fault_at (as @ bs) s"
  using assms unfolding faults_as_said_def by (metis append.assoc append_Cons run_steps_fault)

lemma faults_as_said_later:
  assumes "run_steps step as s = Some (Inr s1)" and "faults_as_said step I fault_at bs s1"
  shows "faults_as_said step I fault_at (as @ bs) s"
  using assms(2) unfolding faults_as_said_def by (metis append.assoc run_steps_append [OF assms(1)])

lemma faults_as_said_none [simp]: "faults_as_said step I (\<lambda>_ _. None) as s = False"
  by (simp add: faults_as_said_def)

locale fair_system =
  fixes step :: "'a \<Rightarrow> 's \<Rightarrow> 's outcome"
    and inv :: "'s \<Rightarrow> bool"
    and over :: "'s \<Rightarrow> bool"
    and rank :: "'s \<Rightarrow> nat"
    and awaited :: "'s \<Rightarrow> 'a"
    and fault_at :: "'a \<Rightarrow> 's \<Rightarrow> fault option"
  assumes step_fails: "inv s \<Longrightarrow> fault_at a s = Some e \<Longrightarrow> step a s = Some (Inl e)"
    and step_goes: "inv s \<Longrightarrow> fault_at a s = None \<Longrightarrow> \<exists>s'. step a s = Some (Inr s') \<and> inv s' \<and> rank s' \<le> rank s \<and>
      (\<not> over s \<longrightarrow> (if a = awaited s then rank s' < rank s else \<not> over s' \<and> awaited s' = awaited s))"
    and over_stays: "inv s \<Longrightarrow> over s \<Longrightarrow> step a s = Some (Inr s)"
    and rank_zero: "inv s \<Longrightarrow> rank s = 0 \<Longrightarrow> over s"
begin

text \<open>A run gets through, or it ends with the step that faults.\<close>

abbreviation faults :: "'a list \<Rightarrow> 's \<Rightarrow> bool" where
  "faults \<equiv> faults_as_said step inv fault_at"

lemma run_cases:
  assumes "inv s"
  shows "faults as s \<or>
    (\<exists>s'. run_steps step as s = Some (Inr s') \<and> inv s' \<and> rank s' \<le> rank s \<and>
      (\<not> over s \<and> awaited s \<in> set as \<longrightarrow> rank s' < rank s))"
  using assms
proof (induction as arbitrary: s)
  case (Cons a as)
  show ?case
  proof (cases "fault_at a s")
    case (Some e)
    have "run_steps step (a # as) s = Some (Inl e)" using step_fails [OF Cons.prems Some] by simp
    moreover have "a # as = [] @ a # as" "run_steps step [] s = Some (Inr s)" by simp_all
    ultimately show ?thesis using Cons.prems Some unfolding faults_as_said_def by blast
  next
    case None
    obtain s1 where s1: "step a s = Some (Inr s1)" "inv s1" "rank s1 \<le> rank s"
      "\<not> over s \<longrightarrow> (if a = awaited s then rank s1 < rank s else \<not> over s1 \<and> awaited s1 = awaited s)"
      using step_goes [OF Cons.prems None] by blast
    have one: "run_steps step [a] s = Some (Inr s1)" using s1(1) by simp
    from Cons.IH [OF s1(2)] show ?thesis
    proof
      assume "faults as s1"
      then show ?thesis using faults_as_said_later [OF one] by simp
    next
      assume "\<exists>s'. run_steps step as s1 = Some (Inr s') \<and> inv s' \<and> rank s' \<le> rank s1 \<and>
        (\<not> over s1 \<and> awaited s1 \<in> set as \<longrightarrow> rank s' < rank s1)"
      then obtain s' where s': "run_steps step as s1 = Some (Inr s')" "inv s'" "rank s' \<le> rank s1"
        "\<not> over s1 \<and> awaited s1 \<in> set as \<longrightarrow> rank s' < rank s1"
        by blast
      have "rank s' < rank s" if "\<not> over s" "awaited s \<in> set (a # as)"
        using s'(3,4) s1(3,4) that by (auto split: if_splits)
      then show ?thesis using s' s1(1,3) by auto
    qed
  qed
qed simp

lemma run_over: "inv s \<Longrightarrow> over s \<Longrightarrow> run_steps step as s = Some (Inr s)"
  by (induction as) (simp_all add: over_stays)

text \<open>As many rounds as the measure says bring the run to its end, if each holds the awaited actor.\<close>

lemma rounds_end:
  assumes "inv s" and "\<forall>as \<in> set rounds. \<forall>s. inv s \<and> \<not> over s \<longrightarrow> awaited s \<in> set as" and "rank s \<le> length rounds"
  shows "faults (concat rounds) s \<or> (\<exists>s'. run_steps step (concat rounds) s = Some (Inr s') \<and> inv s' \<and> over s')"
  using assms
proof (induction rounds arbitrary: s)
  case Nil
  then show ?case using rank_zero by simp
next
  case (Cons as rounds)
  show ?case
  proof (cases "over s")
    case True
    then show ?thesis using run_over [OF Cons.prems(1) True] Cons.prems(1) by blast
  next
    case False
    then have await: "awaited s \<in> set as" using Cons.prems(1,2) by simp
    from run_cases [OF Cons.prems(1), of as] show ?thesis
    proof
      assume "faults as s"
      then show ?thesis by (simp add: faults_as_said_append)
    next
      assume "\<exists>s'. run_steps step as s = Some (Inr s') \<and> inv s' \<and> rank s' \<le> rank s \<and>
        (\<not> over s \<and> awaited s \<in> set as \<longrightarrow> rank s' < rank s)"
      then obtain s1 where s1: "run_steps step as s = Some (Inr s1)" "inv s1" "rank s1 < rank s"
        using False await by blast
      then have "rank s1 \<le> length rounds" using Cons.prems(3) by simp
      then show ?thesis
        using Cons.IH [OF s1(2)] Cons.prems(2) run_steps_append [OF s1(1)] faults_as_said_later [OF s1(1)] by auto
    qed
  qed
qed

text \<open>The same after any beginning.\<close>

lemma fair_end:
  assumes "inv s" and "\<forall>as \<in> set rounds. \<forall>s. inv s \<and> \<not> over s \<longrightarrow> awaited s \<in> set as" and "rank s \<le> length rounds"
  shows "faults (as @ concat rounds) s \<or>
    (\<exists>s'. run_steps step (as @ concat rounds) s = Some (Inr s') \<and> inv s' \<and> over s')"
  using run_cases [OF assms(1), of as]
proof
  assume "faults as s"
  then show ?thesis by (simp add: faults_as_said_append)
next
  assume "\<exists>s'. run_steps step as s = Some (Inr s') \<and> inv s' \<and> rank s' \<le> rank s \<and>
    (\<not> over s \<and> awaited s \<in> set as \<longrightarrow> rank s' < rank s)"
  then obtain s1 where s1: "run_steps step as s = Some (Inr s1)" "inv s1" "rank s1 \<le> rank s" by blast
  then have "rank s1 \<le> length rounds" using assms(3) by simp
  then show ?thesis
    using rounds_end [OF s1(2) assms(2)] run_steps_append [OF s1(1)] faults_as_said_later [OF s1(1)] by auto
qed

end

end
