(* ===== verification/Prewarm.thy ===== *)
theory Prewarm
  imports Fairness
begin

text \<open>
  \<open>header/prewarmer.h\<close>: \<open>prewarm\<close> makes one thread for each core, which count until they see the flag
  \<open>stop_warming\<close>, sleeps, sets the flag and joins them one after the other.  The flag is a local
  variable that the threads hold by reference.  An actor is the caller (\<open>None\<close>) or a thread; the
  number of cores is a parameter, whether a thread could be pinned is never looked at, and the time it
  sleeps is however many steps the others take meanwhile.
\<close>

datatype warmer = Spinning u64 | Done

datatype caller_at = Spawning | Sleeping | Joining nat | Warmed

record prewarmer =
  warm_at :: caller_at
  stop_warming :: bool
  warmers :: "warmer list"

definition num_cores :: "nat \<Rightarrow> nat" where
  "num_cores hardware_concurrency = (if hardware_concurrency = 0 then 4 else hardware_concurrency)"

definition prewarm_start :: prewarmer where
  "prewarm_start = \<lparr>warm_at = Spawning, stop_warming = False, warmers = []\<rparr>"

definition caller_step :: "nat \<Rightarrow> prewarmer \<Rightarrow> prewarmer" where
  "caller_step cores s =
     (case warm_at s of
        Spawning \<Rightarrow>
          if length (warmers s) < num_cores cores then s\<lparr>warmers := warmers s @ [Spinning 0]\<rparr>
          else s\<lparr>warm_at := Sleeping\<rparr>
      | Sleeping \<Rightarrow> s\<lparr>stop_warming := True, warm_at := Joining 0\<rparr>
      | Joining k \<Rightarrow>
          if k < length (warmers s) then (if warmers s ! k = Done then s\<lparr>warm_at := Joining (Suc k)\<rparr> else s)
          else s\<lparr>warm_at := Warmed\<rparr>
      | Warmed \<Rightarrow> s)"

definition warmer_step :: "nat \<Rightarrow> prewarmer \<Rightarrow> prewarmer" where
  "warmer_step k s =
     (if k < length (warmers s)
      then case warmers s ! k of
          Spinning sink \<Rightarrow> s\<lparr>warmers := (warmers s)[k := (if stop_warming s then Done else Spinning (sink + 1))]\<rparr>
        | Done \<Rightarrow> s
      else s)"

fun warm_step :: "nat \<Rightarrow> nat option \<Rightarrow> prewarmer \<Rightarrow> prewarmer outcome" where
  "warm_step cores None s = Some (Inr (caller_step cores s))"
| "warm_step cores (Some k) s = Some (Inr (warmer_step k s))"

subsection \<open>The invariant and the measure\<close>

fun warm_inv_at :: "nat \<Rightarrow> bool \<Rightarrow> warmer list \<Rightarrow> caller_at \<Rightarrow> bool" where
  "warm_inv_at n stop ws Spawning \<longleftrightarrow> length ws \<le> n \<and> \<not> stop"
| "warm_inv_at n stop ws Sleeping \<longleftrightarrow> length ws = n \<and> \<not> stop"
| "warm_inv_at n stop ws (Joining k) \<longleftrightarrow> length ws = n \<and> stop \<and> k \<le> n \<and> (\<forall>j < k. ws ! j = Done)"
| "warm_inv_at n stop ws Warmed \<longleftrightarrow> length ws = n \<and> stop \<and> (\<forall>j < n. ws ! j = Done)"

definition warm_inv :: "nat \<Rightarrow> prewarmer \<Rightarrow> bool" where
  "warm_inv cores s \<longleftrightarrow> warm_inv_at (num_cores cores) (stop_warming s) (warmers s) (warm_at s)"

fun caller_rank :: "nat \<Rightarrow> nat \<Rightarrow> caller_at \<Rightarrow> nat" where
  "caller_rank n made Spawning = 2 * (n - made) + n + 3"
| "caller_rank n made Sleeping = n + 2"
| "caller_rank n made (Joining k) = n + 1 - k"
| "caller_rank n made Warmed = 0"

definition spinning :: "warmer list \<Rightarrow> nat" where
  "spinning ws = length (filter (\<lambda>w. w \<noteq> Done) ws)"

definition warm_rank :: "nat \<Rightarrow> prewarmer \<Rightarrow> nat" where
  "warm_rank cores s = caller_rank (num_cores cores) (length (warmers s)) (warm_at s) + spinning (warmers s)"

definition warm_awaited :: "prewarmer \<Rightarrow> nat option" where
  "warm_awaited s =
     (case warm_at s of
        Joining k \<Rightarrow> if k < length (warmers s) \<and> warmers s ! k \<noteq> Done then Some k else None
      | _ \<Rightarrow> None)"

lemma spinning_simps [simp]:
  "spinning [] = 0" "spinning (w # ws) = (if w = Done then 0 else 1) + spinning ws"
  "spinning (vs @ ws) = spinning vs + spinning ws"
  by (simp_all add: spinning_def)

lemma spinning_update:
  assumes "k < length ws"
  shows "spinning (ws[k := w]) + (if ws ! k = Done then 0 else 1) = spinning ws + (if w = Done then 0 else 1)"
  using arg_cong [OF id_take_nth_drop [OF assms], of spinning]
    arg_cong [OF upd_conv_take_nth_drop [OF assms, of w], of spinning] by simp

lemma caller_step_fair:
  assumes inv: "warm_inv cores s"
  shows "warm_inv cores (caller_step cores s)" and "warm_rank cores (caller_step cores s) \<le> warm_rank cores s"
    and "warm_at s \<noteq> Warmed \<Longrightarrow> warm_awaited s = None \<Longrightarrow> warm_rank cores (caller_step cores s) < warm_rank cores s"
    and "warm_awaited s \<noteq> None \<Longrightarrow> caller_step cores s = s"
  using inv
  by (cases "warm_at s"; force simp: warm_inv_def caller_step_def warm_rank_def spinning_def warm_awaited_def less_Suc_eq
      split: if_splits)+

lemma warmer_step_fair:
  assumes inv: "warm_inv cores s"
  shows "warm_inv cores (warmer_step k s)" and "warm_rank cores (warmer_step k s) \<le> warm_rank cores s"
    and "warm_awaited s = Some k \<Longrightarrow> warm_rank cores (warmer_step k s) < warm_rank cores s"
    and "warm_awaited s \<noteq> Some k \<Longrightarrow> warm_awaited (warmer_step k s) = warm_awaited s"
    and "warm_at (warmer_step k s) = warm_at s"
proof -
  have stop: "stop_warming s" if "warm_awaited s = Some k"
    using that inv by (auto simp: warm_inv_def warm_awaited_def split: caller_at.splits if_splits)
  have "warm_inv cores (warmer_step k s) \<and> warm_rank cores (warmer_step k s) \<le> warm_rank cores s \<and>
    (warm_awaited s = Some k \<longrightarrow> warm_rank cores (warmer_step k s) < warm_rank cores s) \<and>
    (warm_awaited s \<noteq> Some k \<longrightarrow> warm_awaited (warmer_step k s) = warm_awaited s) \<and>
    warm_at (warmer_step k s) = warm_at s"
  proof (cases "k < length (warmers s) \<and> warmers s ! k \<noteq> Done")
    case True
    then obtain c where c: "k < length (warmers s)" "warmers s ! k = Spinning c" by (cases "warmers s ! k") auto
    let ?w = "if stop_warming s then Done else Spinning (c + 1)"
    have s': "warmer_step k s = s\<lparr>warmers := (warmers s)[k := ?w]\<rparr>" using c by (simp add: warmer_step_def)
    note U = spinning_update [OF c(1), of ?w]
    have done': "(warmers s)[k := ?w] ! j = Done" if "warmers s ! j = Done" "j < length (warmers s)" for j
      using that c by (cases "j = k") auto
    have "warm_inv cores (warmer_step k s)"
      using inv done' unfolding s' warm_inv_def by (cases "warm_at s") auto
    moreover have "warm_awaited (warmer_step k s) = warm_awaited s" if "warm_awaited s \<noteq> Some k"
      using that c unfolding s' warm_awaited_def by (auto simp: nth_list_update split: caller_at.splits)
    ultimately show ?thesis using U c(2) stop unfolding s' by (auto simp: warm_rank_def split: if_splits)
  next
    case False
    then have "warmer_step k s = s" by (auto simp: warmer_step_def split: warmer.splits)
    moreover have "warm_awaited s \<noteq> Some k" using False by (auto simp: warm_awaited_def split: caller_at.splits)
    ultimately show ?thesis using inv by simp
  qed
  then show "warm_inv cores (warmer_step k s)" "warm_rank cores (warmer_step k s) \<le> warm_rank cores s"
    "warm_awaited s = Some k \<Longrightarrow> warm_rank cores (warmer_step k s) < warm_rank cores s"
    "warm_awaited s \<noteq> Some k \<Longrightarrow> warm_awaited (warmer_step k s) = warm_awaited s"
    "warm_at (warmer_step k s) = warm_at s"
    by simp_all
qed

lemma warm_over: "warm_inv cores s \<Longrightarrow> warm_at s = Warmed \<Longrightarrow> warm_step cores a s = Some (Inr s)"
  by (cases a) (auto simp: caller_step_def warmer_step_def warm_inv_def split: warmer.splits)

text \<open>It is a fair system; nothing faults.\<close>

interpretation warm: fair_system "warm_step cores" "warm_inv cores" "\<lambda>s. warm_at s = Warmed" "warm_rank cores"
  warm_awaited "\<lambda>_ _. None" for cores
proof
  fix a s
  assume inv: "warm_inv cores s"
  show "\<exists>s'. warm_step cores a s = Some (Inr s') \<and> warm_inv cores s' \<and> warm_rank cores s' \<le> warm_rank cores s \<and>
    (warm_at s \<noteq> Warmed \<longrightarrow>
      (if a = warm_awaited s then warm_rank cores s' < warm_rank cores s
       else warm_at s' \<noteq> Warmed \<and> warm_awaited s' = warm_awaited s))"
  proof (cases a)
    case None
    then show ?thesis
      using caller_step_fair [OF inv] inv by (cases "warm_awaited s = None") auto
  qed (use warmer_step_fair [OF inv] in auto)
  show "warm_at s = Warmed \<Longrightarrow> warm_step cores a s = Some (Inr s)" by (rule warm_over [OF inv])
  show "warm_rank cores s = 0 \<Longrightarrow> warm_at s = Warmed"
    using inv by (cases "warm_at s") (auto simp: warm_rank_def warm_inv_def)
qed simp

lemma prewarm_start_inv: "warm_inv cores prewarm_start"
  by (simp add: warm_inv_def prewarm_start_def)

text \<open>
  C40. \<open>prewarm\<close> returns, and leaves no thread behind that could still look at its local flag: in every
  order of steps, when it has returned each of its threads, one for each core, has seen the flag and
  ended; and after any beginning it has returned after \<open>3 n + 3\<close> fair rounds, each with a step of the
  caller and of each of the \<open>n\<close> threads.
\<close>
theorem prewarm_returns:
  "\<exists>s. run_steps (warm_step cores) as prewarm_start = Some (Inr s) \<and>
    (warm_at s = Warmed \<longrightarrow> warmers s = replicate (num_cores cores) Done) \<and>
    (\<forall>rounds. (\<forall>bs \<in> set rounds. insert None (Some ` {..<num_cores cores}) \<subseteq> set bs) \<and> 3 * num_cores cores + 3 \<le> length rounds \<longrightarrow>
      (\<exists>s'. run_steps (warm_step cores) (as @ concat rounds) prewarm_start = Some (Inr s') \<and>
        warm_at s' = Warmed \<and> warmers s' = replicate (num_cores cores) Done))"
proof -
  let ?n = "num_cores cores"
  have done': "warmers s = replicate ?n Done" if "warm_inv cores s" "warm_at s = Warmed" for s
    using that by (auto simp: warm_inv_def intro: nth_equalityI)
  obtain s where s: "run_steps (warm_step cores) as prewarm_start = Some (Inr s)" "warm_inv cores s"
    using warm.run_cases [OF prewarm_start_inv, of cores as] by auto
  have "\<exists>s'. run_steps (warm_step cores) (as @ concat rounds) prewarm_start = Some (Inr s') \<and>
      warm_at s' = Warmed \<and> warmers s' = replicate ?n Done"
    if fair: "\<forall>bs \<in> set rounds. insert None (Some ` {..<?n}) \<subseteq> set bs" and len: "3 * ?n + 3 \<le> length rounds" for rounds
  proof -
    have "warm_awaited s \<in> insert None (Some ` {..<?n})" if "warm_inv cores s" for s
      using that by (auto simp: warm_inv_def warm_awaited_def split: caller_at.splits)
    then have F: "\<forall>bs \<in> set rounds. \<forall>s. warm_inv cores s \<and> warm_at s \<noteq> Warmed \<longrightarrow> warm_awaited s \<in> set bs"
      using fair by blast
    have "warm_rank cores prewarm_start \<le> length rounds" using len by (simp add: warm_rank_def prewarm_start_def)
    from warm.fair_end [OF prewarm_start_inv F this] show ?thesis
      using done' unfolding faults_as_said_none by blast
  qed
  with s done' show ?thesis by blast
qed

text \<open>A machine that does not tell its number of cores counts as one with four.\<close>

theorem prewarm_returns_witness:
  "\<exists>s. run_steps (warm_step 0) (concat (replicate 15 [None, Some 0, Some 1, Some 2, Some 3])) prewarm_start = Some (Inr s) \<and>
    warmers s = [Done, Done, Done, Done]"
proof -
  have n: "num_cores 0 = 4" by (simp add: num_cores_def)
  have "\<forall>bs \<in> set (replicate 15 [None, Some 0, Some 1, Some 2, Some 3]). insert None (Some ` {..<num_cores 0}) \<subseteq> set bs"
    unfolding n by (auto simp: numeral_eq_Suc less_Suc_eq)
  moreover have "3 * num_cores 0 + 3 \<le> length (replicate 15 [None, Some 0, Some 1, Some 2, Some (3::nat)])" by (simp add: n)
  ultimately have "\<exists>s. run_steps (warm_step 0) ([] @ concat (replicate 15 [None, Some 0, Some 1, Some 2, Some 3])) prewarm_start =
      Some (Inr s) \<and> warm_at s = Warmed \<and> warmers s = replicate (num_cores 0) Done"
    using prewarm_returns [of 0 "[]"] by blast
  then show ?thesis by (simp add: n numeral_eq_Suc)
qed

end
