(* ===== verification/Program.thy ===== *)
theory Program
  imports System Bench ThreadStart Fairness
begin

text \<open>
  The life of the program (\<open>main.cpp\<close>): \<open>main\<close> makes the four threads, lets three of them start,
  stops them, joins them, then stops and joins the logger; the threads wait for their start flag
  (\<open>matchingEngine\<close>, \<open>OrderGateway::run\<close>, \<open>AlphaServer::AlphaRun\<close>), work, look at their stop flag,
  and two of them print their latency samples at the end.

  A step is one access to a flag, one turn of a loop (\<open>System\<close>), one report, or one statement of
  \<open>main\<close>; a schedule is any list of steps.  The machine is a parameter: its clocks and random numbers,
  the cores it can pin a thread to, and whether the log file can be opened.  Sleeping and the warm-up
  change nothing but the schedule.

  A statement of \<open>main\<close> that makes a thread is two steps, \<open>Create\<close> and \<open>Await\<close>: \<open>createAndStartThread\<close>
  makes the thread and waits for one of its flags, and when it has seen one it returns and the
  temporaries of the statement die, among them the lambda that the new thread holds by reference.
  The body of the thread is two steps, too: it pins itself and sets its flag, then it calls
  the lambda, which is a fault when that is dead.  (\<open>ThreadStart\<close> has all of this in smaller steps;
  \<open>ProgramProofs\<close> shows that these two steps are runs of those.)
\<close>

record machine =
  m_world :: world
  m_can_pin :: "int \<Rightarrow> bool"
  m_log_opens :: bool

text \<open>
  Where a thread is: not made; about to pin itself; ended because it could not; about to call its
  function; about to load its start flag or, in the same loop, its stop flag; about to load the flag
  that ends its loop; in the loop's body; about to print; returned.
\<close>

datatype phase =
  Unborn | AtPin | NotPinned | AtCall | AskStart | AskStop | AskEnd | AtWork | AtReport | Returned

datatype main_action = Create thread | Await thread | Start thread | Stop thread | Join thread

datatype actor = Main | Worker thread

record program =
  todo :: "main_action list"
  started :: "thread \<Rightarrow> bool"
  stopped :: "thread \<Rightarrow> bool"
  phase_of :: "thread \<Rightarrow> phase"
  sys :: system
  printed :: "(thread \<times> benchmark list) list"

fun core_id :: "thread \<Rightarrow> int" where
  "core_id EngineThread = 1"
| "core_id GatewayThread = 2"
| "core_id AlphaThread = 3"
| "core_id LoggerThread = 4"

definition main_script :: "main_action list" where
  "main_script =
     [Create EngineThread, Await EngineThread, Create GatewayThread, Await GatewayThread,
      Create AlphaThread, Await AlphaThread, Create LoggerThread, Await LoggerThread,
      Start EngineThread, Start GatewayThread, Start AlphaThread,
      Stop EngineThread, Stop GatewayThread, Stop AlphaThread,
      Join AlphaThread, Join GatewayThread, Join EngineThread, Stop LoggerThread, Join LoggerThread]"

definition program_start :: "machine \<Rightarrow> program" where
  "program_start M =
     \<lparr>todo = main_script, started = (\<lambda>_. False), stopped = (\<lambda>_. False), phase_of = (\<lambda>_. Unborn),
      sys = system_start (m_world M), printed = []\<rparr>"

definition go :: "thread \<Rightarrow> phase \<Rightarrow> program \<Rightarrow> program" where
  "go t ph P = P\<lparr>phase_of := (phase_of P)(t := ph)\<rparr>"

text \<open>Where the function of a new thread begins: the logger opens its file and has no start flag.\<close>

definition first_phase :: "machine \<Rightarrow> thread \<Rightarrow> phase" where
  "first_phase M t = (if t = LoggerThread then (if m_log_opens M then AskEnd else Returned) else AskStart)"

text \<open>
  \<open>Await t\<close> is a turn of \<open>while (!running && !failed)\<close>, and what comes after the loop.  The creator of a
  thread that could not be pinned joins and deletes it, and gets a null pointer.
\<close>

fun main_step :: "machine \<Rightarrow> main_action list \<Rightarrow> program \<Rightarrow> program outcome" where
  "main_step M [] P = Some (Inr P)"
| "main_step M (Create t # as) P =
     Some (Inr ((go t AtPin P)\<lparr>todo := as\<rparr>))"
| "main_step M (Await t # as) P = Some (Inr (if phase_of P t = AtPin then P else P\<lparr>todo := as\<rparr>))"
| "main_step M (Start t # as) P = Some (Inr (P\<lparr>started := (started P)(t := True), todo := as\<rparr>))"
| "main_step M (Stop t # as) P = Some (Inr (P\<lparr>stopped := (stopped P)(t := True), todo := as\<rparr>))"
| "main_step M (Join t # as) P =
     (if phase_of P t \<in> {Unborn, NotPinned} then Some (Inl NullPointer)
      else if phase_of P t = Returned then Some (Inr (P\<lparr>todo := as\<rparr>)) else Some (Inr P))"

text \<open>The samples a thread reports at its end, and the report.\<close>

fun samples :: "thread \<Rightarrow> system \<Rightarrow> u64 list list" where
  "samples EngineThread z =
     [QueueTime (engine z), Throughtput (engine z), matchingProcessingTime (engine z), tickToTrade (engine z)]"
| "samples GatewayThread z = [gw_order_gateway_time (gateway z)]"
| "samples AlphaThread z = []"
| "samples LoggerThread z = []"

fun reports :: "u64 list list \<Rightarrow> benchmark list result" where
  "reports [] = Inr []"
| "reports (ts # tss) = bindR (showBenchmark ts) (\<lambda>b. bindR (reports tss) (\<lambda>bs. Inr (b # bs)))"

text \<open>
  One step of each of the four functions that run in the threads.  A function that has not been
  called or has returned does nothing.
\<close>

definition matchingEngine_step :: "machine \<Rightarrow> program \<Rightarrow> program outcome" where
  "matchingEngine_step M P =
     (let t = EngineThread
      in case phase_of P t of
           AskStart \<Rightarrow> Some (Inr (go t (if started P t then AskEnd else AskStop) P))
         | AskStop \<Rightarrow> Some (Inr (go t (if stopped P t then Returned else AskStart) P))
         | AskEnd \<Rightarrow> Some (Inr (go t (if stopped P t then AtReport else AtWork) P))
         | AtWork \<Rightarrow> bindO (engine_turn (m_world M) (sys P)) (\<lambda>z. Some (Inr (go t AskEnd (P\<lparr>sys := z\<rparr>))))
         | AtReport \<Rightarrow> bindO (Some (reports (samples t (sys P)))) (\<lambda>bs.
             Some (Inr (go t Returned (P\<lparr>printed := printed P @ [(t, bs)]\<rparr>))))
         | _ \<Rightarrow> Some (Inr P))"

definition gateway_run_step :: "machine \<Rightarrow> program \<Rightarrow> program outcome" where
  "gateway_run_step M P =
     (let t = GatewayThread
      in case phase_of P t of
           AskStart \<Rightarrow> Some (Inr (go t (if started P t then AskEnd else AskStop) P))
         | AskStop \<Rightarrow> Some (Inr (go t (if stopped P t then Returned else AskStart) P))
         | AskEnd \<Rightarrow> Some (Inr (go t (if stopped P t then AtReport else AtWork) P))
         | AtWork \<Rightarrow> bindO (gateway_thread_turn (m_world M) (sys P)) (\<lambda>z. Some (Inr (go t AskEnd (P\<lparr>sys := z\<rparr>))))
         | AtReport \<Rightarrow> bindO (Some (reports (samples t (sys P)))) (\<lambda>bs.
             Some (Inr (go t Returned (P\<lparr>printed := printed P @ [(t, bs)]\<rparr>))))
         | _ \<Rightarrow> Some (Inr P))"

text \<open>The generator never looks at its stop flag again once it sends.\<close>

definition AlphaRun_step :: "machine \<Rightarrow> program \<Rightarrow> program outcome" where
  "AlphaRun_step M P =
     (let t = AlphaThread
      in case phase_of P t of
           AskStart \<Rightarrow> Some (Inr (go t (if started P t then AtWork else AskStop) P))
         | AskStop \<Rightarrow> Some (Inr (go t (if stopped P t then Returned else AskStart) P))
         | AtWork \<Rightarrow>
             if sent (sys P) < length (TestStore (alpha (sys P)))
             then bindO (alpha_turn (m_world M) (sys P)) (\<lambda>z. Some (Inr (go t AtWork (P\<lparr>sys := z\<rparr>))))
             else Some (Inr (go t Returned P))
         | _ \<Rightarrow> Some (Inr P))"

text \<open>\<open>stop\<close> clears \<open>running\<close>, the flag the logger looks at; the logger prints nothing.\<close>

definition logger_run_step :: "machine \<Rightarrow> program \<Rightarrow> program outcome" where
  "logger_run_step M P =
     (let t = LoggerThread
      in case phase_of P t of
           AskEnd \<Rightarrow> Some (Inr (go t (if stopped P t then Returned else AtWork) P))
         | AtWork \<Rightarrow> bindO (logger_thread_turn (m_world M) (sys P)) (\<lambda>z. Some (Inr (go t AskEnd (P\<lparr>sys := z\<rparr>))))
         | _ \<Rightarrow> Some (Inr P))"

fun function_step :: "machine \<Rightarrow> thread \<Rightarrow> program \<Rightarrow> program outcome" where
  "function_step M EngineThread P = matchingEngine_step M P"
| "function_step M GatewayThread P = gateway_run_step M P"
| "function_step M AlphaThread P = AlphaRun_step M P"
| "function_step M LoggerThread P = logger_run_step M P"

text \<open>The lambda of a thread is alive as long as the statement of \<open>main\<close> that makes the thread.\<close>

definition function_alive :: "thread \<Rightarrow> program \<Rightarrow> bool" where
  "function_alive t P \<longleftrightarrow> Await t \<in> set (todo P)"

definition worker_step :: "machine \<Rightarrow> thread \<Rightarrow> program \<Rightarrow> program outcome" where
  "worker_step M t P =
     (case phase_of P t of
        AtPin \<Rightarrow> Some (Inr (go t (if pins (m_can_pin M) (core_id t) then AtCall else NotPinned) P))
      | AtCall \<Rightarrow>
          if function_alive t P then Some (Inr (go t (first_phase M t) P)) else Some (Inl DanglingReference)
      | _ \<Rightarrow> function_step M t P)"

lemmas worker_step_defs =
  worker_step_def matchingEngine_step_def gateway_run_step_def AlphaRun_step_def logger_run_step_def

fun program_step :: "machine \<Rightarrow> actor \<Rightarrow> program \<Rightarrow> program outcome" where
  "program_step M Main P = main_step M (todo P) P"
| "program_step M (Worker t) P = worker_step M t P"

abbreviation run_program :: "machine \<Rightarrow> actor list \<Rightarrow> program \<Rightarrow> program outcome" where
  "run_program M \<equiv> run_steps (program_step M)"

end
