(* ===== verification/ProgramProofs.thy ===== *)
theory ProgramProofs
  imports Program SystemLogProps "HOL-Library.Sublist"
begin

text \<open>
  The invariant of the program and the measure that every fair round of its threads lowers.
\<close>

subsection \<open>Reports\<close>

lemma showBenchmark_some:
  assumes "0 < length time" and "length time < 2 ^ 31"
  obtains r where "showBenchmark time = Inr r"
  using index_bounds [OF assms(1)] index_floors [OF assms] that
  by (simp add: showBenchmark_def time_at_def Let_def)

lemma showBenchmark_none [simp]: "showBenchmark [] = Inl OutOfBounds"
  by (simp add: showBenchmark_def time_at_def)

lemma reports_some:
  assumes "\<forall>ts \<in> set tss. ts \<noteq> [] \<and> length ts < 2 ^ 31"
  shows "\<exists>bs. reports tss = Inr bs \<and> map showBenchmark tss = map Inr bs"
  using assms
proof (induction tss)
  case (Cons ts tss)
  then obtain bs where "reports tss = Inr bs" "map showBenchmark tss = map Inr bs" by auto
  moreover obtain r where "showBenchmark ts = Inr r" by (rule showBenchmark_some [of ts]) (use Cons.prems in auto)
  ultimately show ?case by (intro exI [of _ "r # bs"]) simp
qed simp

lemma reports_none:
  assumes "[] \<in> set tss" and "\<forall>ts \<in> set tss. length ts < 2 ^ 31"
  shows "reports tss = Inl OutOfBounds"
  using assms
proof (induction tss)
  case (Cons ts tss)
  show ?case
  proof (cases "ts = []")
    case False
    then have "0 < length ts" "length ts < 2 ^ 31" using Cons.prems(2) by simp_all
    then obtain r where "showBenchmark ts = Inr r" by (rule showBenchmark_some)
    moreover have "reports tss = Inl OutOfBounds" using Cons False by simp
    ultimately show ?thesis by simp
  qed simp
qed simp

lemma reports_values: "reports tss = Inr bs \<Longrightarrow> map showBenchmark tss = map Inr bs"
  by (induction tss arbitrary: bs) (auto simp: bindR_eq_Inr)

text \<open>Too few samples: no request for the gateway, fewer than two for the engine.\<close>

definition too_few :: "thread \<Rightarrow> system \<Rightarrow> bool" where
  "too_few t z \<longleftrightarrow> t = EngineThread \<and> handled z < 2 \<or> t = GatewayThread \<and> forwarded_count z = 0"

lemma report_result:
  assumes "system_inv W z" and "clock_runs W" and "t \<in> {EngineThread, GatewayThread}"
  shows "if too_few t z then reports (samples t z) = Inl OutOfBounds else \<exists>bs. reports (samples t z) = Inr bs"
proof -
  note N = system_inv_counts [OF assms(1)]
  have S: "sample_inv W z" using assms(1) by (simp add: system_inv_def)
  note S' = S [unfolded sample_inv_def]
  have L: "map length (samples EngineThread z) = [handled z, handled z - 1, handled z, handled z]"
    "map length (samples GatewayThread z) = [forwarded_count z]"
    using S' assms(2) by (simp_all add: handled_def)
  have empty: "[] \<in> set tss \<longleftrightarrow> 0 \<in> set (map length tss)" for tss :: "u64 list list" by force
  have small: "\<forall>ts \<in> set (samples t z). length ts < 2 ^ 31"
  proof -
    have "set (map length (samples t z)) \<subseteq> {handled z, handled z - 1, forwarded_count z}"
      using assms(3) L by auto
    then have "length ts \<in> {handled z, handled z - 1, forwarded_count z}" if "ts \<in> set (samples t z)" for ts
      using that by fastforce
    then show ?thesis using N by fastforce
  qed
  have few: "[] \<in> set (samples t z) \<longleftrightarrow> too_few t z"
    unfolding empty using assms(3) L by (auto simp: too_few_def)
  show ?thesis
    using few small reports_none [of "samples t z"] reports_some [of "samples t z"] by auto
qed

subsection \<open>The invariant\<close>

definition is_reporter :: "thread \<Rightarrow> bool" where
  "is_reporter t \<longleftrightarrow> t = EngineThread \<or> t = GatewayThread"

text \<open>The flags follow the script; a thread is where the flags allow it to be.\<close>

definition flags_at :: "machine \<Rightarrow> main_action list \<Rightarrow> thread \<Rightarrow> bool \<Rightarrow> bool \<Rightarrow> phase \<Rightarrow> bool" where
  "flags_at M as t start stop ph \<longleftrightarrow>
     (start \<longleftrightarrow> t \<noteq> LoggerThread \<and> Start t \<notin> set as) \<and> (stop \<longleftrightarrow> Stop t \<notin> set as) \<and>
     (ph = Unborn \<longleftrightarrow> Create t \<in> set as) \<and> (ph = AtPin \<longrightarrow> Await t \<in> set as) \<and>
     (ph = NotPinned \<longrightarrow> \<not> pins (m_can_pin M) (core_id t)) \<and> (Join t \<notin> set as \<longrightarrow> ph = Returned)"

definition flags_inv :: "machine \<Rightarrow> program \<Rightarrow> bool" where
  "flags_inv M P \<longleftrightarrow>
     (\<exists>k. todo P = drop k main_script) \<and>
     (\<forall>t. flags_at M (todo P) t (started P t) (stopped P t) (phase_of P t))"

fun phase_at :: "thread \<Rightarrow> bool \<Rightarrow> nat \<Rightarrow> phase \<Rightarrow> bool" where
  "phase_at t stop n Unborn \<longleftrightarrow> (t = AlphaThread \<longrightarrow> n = 0)"
| "phase_at t stop n AtPin \<longleftrightarrow> (t = AlphaThread \<longrightarrow> n = 0)"
| "phase_at t stop n NotPinned \<longleftrightarrow> (t = AlphaThread \<longrightarrow> n = 0)"
| "phase_at t stop n AtCall \<longleftrightarrow> (t = AlphaThread \<longrightarrow> n = 0)"
| "phase_at t stop n AskStart \<longleftrightarrow> t \<noteq> LoggerThread \<and> (t = AlphaThread \<longrightarrow> n = 0)"
| "phase_at t stop n AskStop \<longleftrightarrow> t \<noteq> LoggerThread \<and> (t = AlphaThread \<longrightarrow> n = 0)"
| "phase_at t stop n AskEnd \<longleftrightarrow> t \<noteq> AlphaThread"
| "phase_at t stop n AtWork \<longleftrightarrow> True"
| "phase_at t stop n AtReport \<longleftrightarrow> is_reporter t \<and> stop"
| "phase_at t stop n Returned \<longleftrightarrow> (t = AlphaThread \<longrightarrow> n = 0 \<or> n = 99999)"

lemma phase_at_stop: "phase_at t s n ph \<Longrightarrow> phase_at t True n ph"
  by (cases ph) simp_all

definition phase_inv :: "program \<Rightarrow> bool" where
  "phase_inv P \<longleftrightarrow> (\<forall>t. phase_at t (stopped P t) (sent (sys P)) (phase_of P t))"

definition printed_inv :: "program \<Rightarrow> bool" where
  "printed_inv P \<longleftrightarrow>
     distinct (map fst (printed P)) \<and>
     (\<forall>t bs. (t, bs) \<in> set (printed P) \<longrightarrow> is_reporter t \<and> phase_of P t = Returned \<and> reports (samples t (sys P)) = Inr bs)"

definition program_inv :: "machine \<Rightarrow> program \<Rightarrow> bool" where
  "program_inv M P \<longleftrightarrow>
     system_inv (m_world M) (sys P) \<and> flags_inv M P \<and> phase_inv P \<and> printed_inv P"

lemma go_simps [simp]:
  "phase_of (go t ph P) = (phase_of P)(t := ph)" "todo (go t ph P) = todo P" "started (go t ph P) = started P"
  "stopped (go t ph P) = stopped P" "sys (go t ph P) = sys P" "printed (go t ph P) = printed P"
  by (simp_all add: go_def)

lemma program_frame [simp]:
  "go t ph (P\<lparr>printed := l\<rparr>) = (go t ph P)\<lparr>printed := l\<rparr>"
  "flags_inv M (P\<lparr>printed := l\<rparr>) = flags_inv M P" "phase_inv (P\<lparr>printed := l\<rparr>) = phase_inv P"
  "flags_inv M (P\<lparr>sys := z\<rparr>) = flags_inv M P"
  by (simp_all add: go_def flags_inv_def phase_inv_def)

lemma program_start_inv: "program_inv M (program_start M)"
proof -
  have "flags_inv M (program_start M)"
    unfolding flags_inv_def
  proof (intro conjI allI)
    show "\<exists>k. todo (program_start M) = drop k main_script"
      by (intro exI [of _ 0]) (simp add: program_start_def)
  next
    fix t
    show "flags_at M (todo (program_start M)) t (started (program_start M) t) (stopped (program_start M) t)
      (phase_of (program_start M) t)"
      by (cases t) (simp_all add: program_start_def main_script_def flags_at_def)
  qed
  then show ?thesis
    using system_start_inv system_start_counts(1)
    by (simp add: program_inv_def phase_inv_def printed_inv_def program_start_def)
qed

text \<open>A suffix of the script: no statement comes twice, and none comes that is not in it.\<close>

lemma script_suffix:
  assumes "todo P = drop k main_script" and "todo P = a # as"
  shows "as = drop (Suc k) main_script" and "a \<notin> set as" and "a \<in> set main_script"
proof -
  have D: "drop k main_script = a # as" using assms by simp
  then show "as = drop (Suc k) main_script" by (metis drop_Suc list.sel(3) tl_drop)
  have "distinct main_script" by (simp add: main_script_def)
  then have "distinct (a # as)" unfolding D [symmetric] by (rule distinct_drop)
  then show "a \<notin> set as" by simp
  show "a \<in> set main_script" using D by (metis in_set_dropD list.set_intros(1))
qed

lemma script_order:
  assumes "drop k main_script = a # as"
  shows "case a of Create t \<Rightarrow> Await t \<in> set as \<and> Join t \<in> set as
    | Await t \<Rightarrow> Create t \<notin> set as
    | Join t \<Rightarrow> Create t \<notin> set as \<and> Await t \<notin> set as \<and> Start t \<notin> set as \<and> Stop t \<notin> set as
    | _ \<Rightarrow> True"
proof -
  have "\<forall>xs \<in> set (suffixes main_script). \<forall>a as. xs = a # as \<longrightarrow>
      (case a of Create t \<Rightarrow> Await t \<in> set as \<and> Join t \<in> set as
       | Await t \<Rightarrow> Create t \<notin> set as
       | Join t \<Rightarrow> Create t \<notin> set as \<and> Await t \<notin> set as \<and> Start t \<notin> set as \<and> Stop t \<notin> set as
       | _ \<Rightarrow> True)"
    by (simp add: main_script_def)
  moreover have "drop k main_script \<in> set (suffixes main_script)" by (simp add: suffix_drop)
  ultimately show ?thesis using assms by blast
qed

lemma started_thread: "Start t \<in> set main_script \<Longrightarrow> t \<noteq> LoggerThread"
  by (auto simp: main_script_def)

text \<open>A step of \<open>main\<close>: it faults exactly when it joins a thread that could not be pinned.\<close>

definition joins_null :: "program \<Rightarrow> bool" where
  "joins_null P \<longleftrightarrow> (\<exists>t as. todo P = Join t # as \<and> phase_of P t = NotPinned)"

lemma joins_null_fault: "joins_null P \<Longrightarrow> main_step M (todo P) P = Some (Inl NullPointer)"
  by (auto simp: joins_null_def)

lemma main_step_inv:
  assumes inv: "program_inv M P" and no_null: "\<not> joins_null P"
  shows "\<exists>P'. main_step M (todo P) P = Some (Inr P') \<and> program_inv M P' \<and> sys P' = sys P"
proof (cases "todo P")
  case Nil
  then show ?thesis using inv by simp
next
  case (Cons a as)
  have S: "system_inv (m_world M) (sys P)" and F: "flags_inv M P" and H: "phase_inv P" and R: "printed_inv P"
    using inv by (simp_all add: program_inv_def)
  obtain k where k: "todo P = drop k main_script" using F by (auto simp: flags_inv_def)
  note sfx = script_suffix [OF k Cons]
  note order = script_order [OF trans [OF k [symmetric] Cons]]
  have rest: "\<exists>k. as = drop k main_script" using sfx(1) by blast
  note F' = F [unfolded flags_inv_def Cons, THEN conjunct2, rule_format]
  note flags = F' [unfolded flags_at_def]
  show ?thesis
  proof (cases a)
    case (Create t)
    have born: "phase_of P t = Unborn" using flags [of t] by (simp add: Create)
    let ?P = "(go t AtPin P)\<lparr>todo := as\<rparr>"
    have J: "Await t \<in> set as \<and> Join t \<in> set as" using order by (simp add: Create)
    have "flags_at M as u (started ?P u) (stopped ?P u) (phase_of ?P u)" for u
      using flags [of u] sfx(2) born J by (cases "u = t") (simp_all add: flags_at_def Create)
    then have "flags_inv M ?P" using rest by (simp add: flags_inv_def)
    moreover have "phase_inv ?P"
      using H [unfolded phase_inv_def, rule_format, of t] H born by (auto simp: phase_inv_def)
    moreover have "printed_inv ?P" using R born by (fastforce simp: printed_inv_def)
    ultimately show ?thesis using S by (simp add: Cons Create program_inv_def)
  next
    case (Await t)
    show ?thesis
    proof (cases "phase_of P t = AtPin")
      case False
      let ?P = "P\<lparr>todo := as\<rparr>"
      have "flags_at M as u (started ?P u) (stopped ?P u) (phase_of ?P u)" for u
        using flags [of u] sfx(2) False by (cases "u = t") (simp_all add: flags_at_def Await)
      then have "flags_inv M ?P" using rest by (simp add: flags_inv_def)
      moreover have "phase_inv ?P" "printed_inv ?P" using H R by (simp_all add: phase_inv_def printed_inv_def)
      ultimately show ?thesis using S False by (simp add: Cons Await program_inv_def)
    qed (use inv in \<open>simp add: Cons Await\<close>)
  next
    case (Start t)
    have t: "t \<noteq> LoggerThread" using started_thread sfx(3) by (simp add: Start)
    let ?P = "P\<lparr>started := (started P)(t := True), todo := as\<rparr>"
    have "flags_at M as u (started ?P u) (stopped ?P u) (phase_of ?P u)" for u
      using flags [of u] sfx(2) t by (cases "u = t") (simp_all add: flags_at_def Start)
    then have "flags_inv M ?P" using rest by (simp add: flags_inv_def)
    moreover have "phase_inv ?P" "printed_inv ?P" using H R by (simp_all add: phase_inv_def printed_inv_def)
    ultimately show ?thesis using S by (simp add: Cons Start program_inv_def)
  next
    case (Stop t)
    let ?P = "P\<lparr>stopped := (stopped P)(t := True), todo := as\<rparr>"
    have "flags_at M as u (started ?P u) (stopped ?P u) (phase_of ?P u)" for u
      using flags [of u] sfx(2) by (cases "u = t") (simp_all add: flags_at_def Stop)
    then have "flags_inv M ?P" using rest by (simp add: flags_inv_def)
    moreover have "phase_inv ?P" using H by (auto simp: phase_inv_def intro: phase_at_stop)
    moreover have "printed_inv ?P" using R by (simp add: printed_inv_def)
    ultimately show ?thesis using S by (simp add: Cons Stop program_inv_def)
  next
    case (Join t)
    show ?thesis
    proof (cases "phase_of P t = Returned")
      case True
      let ?P = "P\<lparr>todo := as\<rparr>"
      have "flags_at M as u (started ?P u) (stopped ?P u) (phase_of ?P u)" for u
        using flags [of u] sfx(2) True by (cases "u = t") (simp_all add: flags_at_def Join)
      then have "flags_inv M ?P" using rest by (simp add: flags_inv_def)
      moreover have "phase_inv ?P" "printed_inv ?P" using H R by (simp_all add: phase_inv_def printed_inv_def)
      ultimately show ?thesis using S True by (simp add: Cons Join program_inv_def)
    next
      case False
      have "Create t \<notin> set as" using order by (simp add: Join)
      then have "phase_of P t \<notin> {Unborn, NotPinned}"
        using flags [of t] no_null by (simp add: Join Cons joins_null_def)
      then show ?thesis using False inv by (simp add: Cons Join)
    qed
  qed
qed

subsection \<open>A step of a thread\<close>

lemma go_inv:
  assumes inv: "program_inv M P" and t: "phase_of P t \<notin> {Unborn, Returned}"
    and ph: "ph \<notin> {Unborn, AtPin}" "phase_at t (stopped P t) (sent (sys P)) ph"
    and pin: "ph = NotPinned \<longrightarrow> \<not> pins (m_can_pin M) (core_id t)"
  shows "program_inv M (go t ph P)"
proof -
  have F: "flags_inv M P" and H: "phase_inv P" and R: "printed_inv P"
    using inv by (simp_all add: program_inv_def)
  note flags = F [unfolded flags_inv_def, THEN conjunct2, rule_format, unfolded flags_at_def]
  have "flags_at M (todo P) u (started P u) (stopped P u) (((phase_of P)(t := ph)) u)" for u
    using flags [of u] t ph(1) pin by (cases "u = t") (auto simp: flags_at_def)
  then have "flags_inv M (go t ph P)" using F by (simp add: flags_inv_def)
  moreover have "phase_inv (go t ph P)" using H ph(2) by (simp add: phase_inv_def)
  moreover have "printed_inv (go t ph P)" using R t unfolding printed_inv_def by auto
  ultimately show ?thesis using inv by (simp add: program_inv_def)
qed

lemma samples_kept:
  assumes "thread_turn W t z = Some (Inr z')" and "u \<noteq> t"
  shows "samples u z' = samples u z"
  using assms
  by (cases t; cases u)
    (auto simp: alpha_turn_def gateway_thread_turn_def engine_turn_def logger_thread_turn_def bindO_eq_Some_Inr
      split: if_splits prod.splits)

lemma turn_inv:
  assumes inv: "program_inv M P" and t: "phase_of P t = AtWork"
    and z: "thread_turn (m_world M) t (sys P) = Some (Inr z)" "system_inv (m_world M) z"
      "t \<noteq> AlphaThread \<longrightarrow> sent z = sent (sys P)"
  shows "program_inv M (P\<lparr>sys := z\<rparr>)"
proof -
  have F: "flags_inv M P" and H: "phase_inv P" and R: "printed_inv P"
    using inv by (simp_all add: program_inv_def)
  have "phase_at u (stopped P u) (sent z) (phase_of P u)" for u
  proof (cases "u = AlphaThread \<and> t = AlphaThread")
    case False
    have "phase_at u s n ph \<longleftrightarrow> phase_at u s n' ph" if "u \<noteq> AlphaThread" for s n n' ph
      using that by (cases ph) simp_all
    then show ?thesis using H z(3) False unfolding phase_inv_def by metis
  qed (use t in auto)
  then have "phase_inv (P\<lparr>sys := z\<rparr>)" by (simp add: phase_inv_def)
  moreover have "printed_inv (P\<lparr>sys := z\<rparr>)"
    unfolding printed_inv_def
  proof (intro conjI allI impI)
    fix u bs
    assume u: "(u, bs) \<in> set (printed (P\<lparr>sys := z\<rparr>))"
    then have "is_reporter u" "phase_of P u = Returned" "reports (samples u (sys P)) = Inr bs"
      using R by (simp_all add: printed_inv_def)
    moreover from this(2) have "u \<noteq> t" using t by auto
    ultimately show "is_reporter u" "phase_of (P\<lparr>sys := z\<rparr>) u = Returned"
      "reports (samples u (sys (P\<lparr>sys := z\<rparr>))) = Inr bs"
      using samples_kept [OF z(1)] by simp_all
  qed (use R in \<open>simp add: printed_inv_def\<close>)
  ultimately show ?thesis using F z(2) by (simp add: program_inv_def)
qed

lemma report_inv:
  assumes inv: "program_inv M P" and t: "phase_of P t = AtReport" and bs: "reports (samples t (sys P)) = Inr bs"
  shows "program_inv M (go t Returned (P\<lparr>printed := printed P @ [(t, bs)]\<rparr>))"
proof -
  have R: "printed_inv P" and H: "phase_inv P" using inv by (simp_all add: program_inv_def)
  have rep: "is_reporter t" using H [unfolded phase_inv_def, rule_format, of t] t by simp
  have "t \<notin> fst ` set (printed P)" using R t by (fastforce simp: printed_inv_def)
  then have new: "printed_inv (go t Returned (P\<lparr>printed := printed P @ [(t, bs)]\<rparr>))"
    using R rep bs by (auto simp: printed_inv_def)
  have "program_inv M (go t Returned P)"
    by (rule go_inv [OF inv]) (use t rep in \<open>auto simp: is_reporter_def\<close>)
  then show ?thesis using new by (simp add: program_inv_def)
qed

text \<open>The body and the four functions in one: what a step does at each place a thread can be.\<close>

definition work :: "machine \<Rightarrow> thread \<Rightarrow> program \<Rightarrow> program outcome" where
  "work M t P =
     (if t = AlphaThread \<and> \<not> sent (sys P) < length (TestStore (alpha (sys P))) then Some (Inr (go t Returned P))
      else bindO (thread_turn (m_world M) t (sys P)) (\<lambda>z.
        Some (Inr (go t (if t = AlphaThread then AtWork else AskEnd) (P\<lparr>sys := z\<rparr>)))))"

lemma worker_step_at:
  assumes "phase_at t (stopped P t) (sent (sys P)) (phase_of P t)"
  shows "worker_step M t P =
     (case phase_of P t of
        Unborn \<Rightarrow> Some (Inr P)
      | AtPin \<Rightarrow> Some (Inr (go t (if pins (m_can_pin M) (core_id t) then AtCall else NotPinned) P))
      | NotPinned \<Rightarrow> Some (Inr P)
      | AtCall \<Rightarrow>
          if function_alive t P then Some (Inr (go t (first_phase M t) P)) else Some (Inl DanglingReference)
      | AskStart \<Rightarrow>
          Some (Inr (go t (if started P t then (if t = AlphaThread then AtWork else AskEnd) else AskStop) P))
      | AskStop \<Rightarrow> Some (Inr (go t (if stopped P t then Returned else AskStart) P))
      | AskEnd \<Rightarrow>
          Some (Inr (go t (if stopped P t then (if t = LoggerThread then Returned else AtReport) else AtWork) P))
      | AtWork \<Rightarrow> work M t P
      | AtReport \<Rightarrow> bindO (Some (reports (samples t (sys P)))) (\<lambda>bs.
          Some (Inr (go t Returned (P\<lparr>printed := printed P @ [(t, bs)]\<rparr>))))
      | Returned \<Rightarrow> Some (Inr P))"
  using assms
  by (cases t; cases "phase_of P t") (simp_all add: worker_step_defs work_def is_reporter_def)

lemma worker_step_idle: "phase_of P t \<in> {Unborn, NotPinned, Returned} \<Longrightarrow> worker_step M t P = Some (Inr P)"
  by (cases t) (auto simp: worker_step_defs)

subsection \<open>The measure\<close>

text \<open>
  How many of its own steps a thread needs at most once both of its flags are set, and what is left
  for the program.  Setting a flag lowers it, and no step raises it.
\<close>

fun phase_rank :: "bool \<Rightarrow> bool \<Rightarrow> phase \<Rightarrow> nat" where
  "phase_rank start stop Unborn = 8"
| "phase_rank start stop AtPin = 8"
| "phase_rank start stop NotPinned = 0"
| "phase_rank start stop AtCall = 7"
| "phase_rank start stop AskStart = (if start then 5 else 6)"
| "phase_rank start stop AskStop = 6"
| "phase_rank start stop AskEnd = (if stop then 3 else 4)"
| "phase_rank start stop AtWork = 4"
| "phase_rank start stop AtReport = 2"
| "phase_rank start stop Returned = 0"

definition thread_rank :: "program \<Rightarrow> thread \<Rightarrow> nat" where
  "thread_rank P t =
     phase_rank (started P t) (stopped P t) (phase_of P t) + (if t = AlphaThread then 99999 - sent (sys P) else 0)"

definition rank :: "program \<Rightarrow> nat" where
  "rank P =
     length (todo P) + thread_rank P EngineThread + thread_rank P GatewayThread + thread_rank P AlphaThread +
     thread_rank P LoggerThread"

lemma rank_le:
  assumes "\<And>t. thread_rank P' t \<le> thread_rank P t"
  shows "rank P' + length (todo P) \<le> rank P + length (todo P')"
  using assms [of EngineThread] assms [of GatewayThread] assms [of AlphaThread] assms [of LoggerThread]
  by (simp add: rank_def)

lemma rank_less:
  assumes "\<And>u. u \<noteq> t \<Longrightarrow> thread_rank P' u = thread_rank P u" and "thread_rank P' t < thread_rank P t" and "todo P' = todo P"
  shows "rank P' < rank P"
  using assms(1) [of EngineThread] assms(1) [of GatewayThread] assms(1) [of AlphaThread] assms(1) [of LoggerThread] assms(2,3)
  by (cases t) (simp_all add: rank_def)

text \<open>What a step of the thread \<open>t\<close> does to the program, and whether it gets the thread closer to its end.\<close>

definition thread_moves :: "machine \<Rightarrow> thread \<Rightarrow> program \<Rightarrow> program \<Rightarrow> bool" where
  "thread_moves M t P P' \<longleftrightarrow>
     program_inv M P' \<and> todo P' = todo P \<and> started P' = started P \<and> stopped P' = stopped P \<and>
     (\<forall>u. u \<noteq> t \<longrightarrow> phase_of P' u = phase_of P u \<and> thread_rank P' u = thread_rank P u) \<and>
     thread_rank P' t \<le> thread_rank P t \<and> (phase_of P t \<in> {NotPinned, Returned} \<longrightarrow> P' = P) \<and>
     (phase_of P' t = AtPin \<longrightarrow> phase_of P t = AtPin) \<and> (phase_of P t = AtPin \<longrightarrow> thread_rank P' t < thread_rank P t) \<and>
     ((t \<noteq> LoggerThread \<longrightarrow> started P t) \<and> stopped P t \<and> phase_of P t \<notin> {Unborn, NotPinned, Returned} \<longrightarrow>
       thread_rank P' t < thread_rank P t)"

lemma go_moves:
  assumes "program_inv M P" and "phase_of P t \<notin> {Unborn, NotPinned, Returned}" and "ph \<notin> {Unborn, AtPin}"
    and "phase_at t (stopped P t) (sent (sys P)) ph"
    and "ph = NotPinned \<longrightarrow> \<not> pins (m_can_pin M) (core_id t)"
    and "phase_rank (started P t) (stopped P t) ph \<le> phase_rank (started P t) (stopped P t) (phase_of P t)"
    and "phase_of P t = AtPin \<Longrightarrow>
      phase_rank (started P t) (stopped P t) ph < phase_rank (started P t) (stopped P t) (phase_of P t)"
    and "t \<noteq> LoggerThread \<longrightarrow> started P t \<Longrightarrow> stopped P t \<Longrightarrow>
      phase_rank (started P t) (stopped P t) ph < phase_rank (started P t) (stopped P t) (phase_of P t)"
  shows "thread_moves M t P (go t ph P)"
  using go_inv [OF assms(1) _ assms(3-5)] assms(2,3,6-8) by (auto simp: thread_moves_def thread_rank_def)

lemma work_moves:
  assumes inv: "program_inv M P" and t: "phase_of P t = AtWork"
  obtains P' where "work M t P = Some (Inr P')" and "thread_moves M t P P'"
proof (cases "t = AlphaThread \<and> \<not> sent (sys P) < length (TestStore (alpha (sys P)))")
  case True
  have S: "system_inv (m_world M) (sys P)" using inv by (simp add: program_inv_def)
  then have len: "length (TestStore (alpha (sys P))) = 99999" "sent (sys P) \<le> 99999"
    by (simp_all add: system_inv_def alpha_inv_def all_orders_length)
  have "thread_moves M t P (go t Returned P)"
    by (rule go_moves [OF inv]) (use t True len in simp_all)
  moreover have "work M t P = Some (Inr (go t Returned P))" using True by (simp add: work_def)
  ultimately show thesis using that by blast
next
  case False
  let ?z = "sys P" and ?ph = "if t = AlphaThread then AtWork else AskEnd"
  have S: "system_inv (m_world M) ?z" using inv by (simp add: program_inv_def)
  have len: "length (TestStore (alpha ?z)) = 99999"
    using S by (simp add: system_inv_def alpha_inv_def all_orders_length)
  obtain z where z: "thread_turn (m_world M) t ?z = Some (Inr z)" "system_inv (m_world M) z"
    "sent z = (if t = AlphaThread then min 99999 (Suc (sent ?z)) else sent ?z)"
    using thread_turn_step [OF S] by blast
  have I: "program_inv M (P\<lparr>sys := z\<rparr>)" by (rule turn_inv [OF inv t z(1,2)]) (use z(3) in simp)
  have "program_inv M (go t ?ph (P\<lparr>sys := z\<rparr>))"
    by (rule go_inv [OF I]) (use t in simp_all)
  then have "thread_moves M t P (go t ?ph (P\<lparr>sys := z\<rparr>))"
    using z(3) False len t by (auto simp: thread_moves_def thread_rank_def)
  moreover have "work M t P = Some (Inr (go t ?ph (P\<lparr>sys := z\<rparr>)))" using False z(1) by (auto simp: work_def)
  ultimately show thesis using that by blast
qed

text \<open>The faults of a thread.\<close>

definition worker_fault :: "thread \<Rightarrow> program \<Rightarrow> fault option" where
  "worker_fault t P =
     (if phase_of P t = AtCall \<and> \<not> function_alive t P then Some DanglingReference
      else if phase_of P t = AtReport \<and> too_few t (sys P) then Some OutOfBounds
      else None)"

lemma worker_step_moves:
  assumes inv: "program_inv M P" and clock: "clock_runs (m_world M)"
  shows "case worker_fault t P of Some e \<Rightarrow> worker_step M t P = Some (Inl e)
    | None \<Rightarrow> \<exists>P'. worker_step M t P = Some (Inr P') \<and> thread_moves M t P P'"
proof -
  have at: "phase_at t (stopped P t) (sent (sys P)) (phase_of P t)"
    using inv by (simp add: program_inv_def phase_inv_def)
  note step = worker_step_at [OF at, of M]
  have stay: "thread_moves M t P P" if "phase_of P t \<in> {Unborn, NotPinned, Returned}"
    using inv that by (auto simp: thread_moves_def)
  show ?thesis
  proof (cases "phase_of P t")
    case AtPin
    have "thread_moves M t P (go t (if pins (m_can_pin M) (core_id t) then AtCall else NotPinned) P)"
      by (rule go_moves [OF inv]) (use AtPin at in auto)
    then show ?thesis by (simp add: step AtPin worker_fault_def)
  next
    case AtCall
    have "thread_moves M t P (go t (first_phase M t) P)"
      by (rule go_moves [OF inv]) (use AtCall at in \<open>auto simp: first_phase_def\<close>)
    then show ?thesis by (simp add: step AtCall worker_fault_def)
  next
    case AskStart
    have "thread_moves M t P (go t (if started P t then (if t = AlphaThread then AtWork else AskEnd) else AskStop) P)"
      by (rule go_moves [OF inv]) (use AskStart at in auto)
    then show ?thesis by (simp add: step AskStart worker_fault_def)
  next
    case AskStop
    have "thread_moves M t P (go t (if stopped P t then Returned else AskStart) P)"
      by (rule go_moves [OF inv]) (use AskStop at in auto)
    then show ?thesis by (simp add: step AskStop worker_fault_def)
  next
    case AskEnd
    have "t = EngineThread \<or> t = GatewayThread \<or> t = LoggerThread" using at AskEnd by (cases t) simp_all
    then have "thread_moves M t P
        (go t (if stopped P t then (if t = LoggerThread then Returned else AtReport) else AtWork) P)"
      by (intro go_moves [OF inv]) (use AskEnd at in \<open>auto simp: is_reporter_def\<close>)
    then show ?thesis by (simp add: step AskEnd worker_fault_def)
  next
    case AtWork
    then show ?thesis using work_moves [OF inv AtWork] by (auto simp: step worker_fault_def)
  next
    case AtReport
    have t: "t \<in> {EngineThread, GatewayThread}" using at AtReport by (simp add: is_reporter_def)
    note R = report_result [OF _ clock t, of "sys P"]
    show ?thesis
    proof (cases "too_few t (sys P)")
      case False
      then obtain bs where bs: "reports (samples t (sys P)) = Inr bs"
        using R inv by (auto simp: program_inv_def)
      let ?P = "go t Returned (P\<lparr>printed := printed P @ [(t, bs)]\<rparr>)"
      have "thread_moves M t P ?P"
        using report_inv [OF inv AtReport bs] AtReport by (simp add: thread_moves_def thread_rank_def)
      then show ?thesis using False bs by (simp add: step AtReport worker_fault_def)
    qed (use R inv AtReport in \<open>simp add: step program_inv_def worker_fault_def\<close>)
  qed (use stay in \<open>auto simp: step worker_fault_def\<close>)
qed

subsection \<open>A step of the program\<close>

text \<open>For whom \<open>main\<close> waits, and what it does with its next statement.\<close>

definition waits_for :: "program \<Rightarrow> thread option" where
  "waits_for P =
     (case todo P of
        Await t # _ \<Rightarrow> if phase_of P t = AtPin then Some t else None
      | Join t # _ \<Rightarrow> if phase_of P t \<in> {Returned, NotPinned} then None else Some t
      | _ \<Rightarrow> None)"

lemma waits_for_Some:
  "waits_for P = Some t \<longleftrightarrow>
     (\<exists>as. todo P = Await t # as \<and> phase_of P t = AtPin \<or>
       todo P = Join t # as \<and> phase_of P t \<noteq> Returned \<and> phase_of P t \<noteq> NotPinned)"
proof (cases "todo P")
  case (Cons a as)
  then show ?thesis by (cases a) (auto simp: waits_for_def)
qed (simp add: waits_for_def)

lemma main_step_cases:
  assumes "main_step M (todo P) P = Some (Inr P')" and flags: "flags_inv M P"
  obtains (waits) "P' = P" and "waits_for P \<noteq> None" | (over) "P' = P" and "todo P = []"
    | (goes) a as where "todo P = a # as" and "todo P' = as" and "\<And>t. thread_rank P' t \<le> thread_rank P t"
      and "waits_for P = None"
proof (cases "todo P")
  case (Cons a as)
  show thesis
  proof (cases a)
    case (Join t)
    show thesis
    proof (cases "phase_of P t \<in> {Returned, NotPinned}")
      case True
      then have "P' = P\<lparr>todo := as\<rparr>" using assms by (auto simp: Cons Join split: if_splits)
      then show thesis using True by (intro goes [OF Cons]) (auto simp: thread_rank_def waits_for_def Cons Join)
    next
      case False
      then have "P' = P" using assms by (simp add: Cons Join split: if_splits)
      then show thesis using waits False by (simp add: waits_for_def Cons Join)
    qed
  next
    case (Await t)
    show thesis
    proof (cases "phase_of P t = AtPin")
      case True
      then have "P' = P" using assms by (simp add: Cons Await)
      then show thesis using waits True by (simp add: waits_for_def Cons Await)
    next
      case False
      then have "P' = P\<lparr>todo := as\<rparr>" using assms by (simp add: Cons Await)
      then show thesis using False by (intro goes [OF Cons]) (simp_all add: thread_rank_def waits_for_def Cons Await)
    qed
  next
    case (Create t)
    have "phase_of P t = Unborn" using flags by (simp add: flags_inv_def flags_at_def Cons Create)
    then show thesis using assms(1)
      by (intro goes [OF Cons]) (auto simp: thread_rank_def waits_for_def Cons Create)
  next
    case (Start t)
    have "phase_rank True e ph \<le> phase_rank s e ph" for s e ph by (cases ph) simp_all
    then show thesis using assms by (intro goes [OF Cons]) (auto simp: thread_rank_def waits_for_def Cons Start)
  next
    case (Stop t)
    have "phase_rank s True ph \<le> phase_rank s e ph" for s e ph by (cases ph) simp_all
    then show thesis using assms by (intro goes [OF Cons]) (auto simp: thread_rank_def waits_for_def Cons Stop)
  qed
qed (use assms over in simp)

definition awaited :: "program \<Rightarrow> actor" where
  "awaited P = (case waits_for P of None \<Rightarrow> Main | Some t \<Rightarrow> Worker t)"

text \<open>The one \<open>main\<close> waits for gets closer to its end; the step of any other leaves it awaited.\<close>

definition step_fair :: "actor \<Rightarrow> program \<Rightarrow> program \<Rightarrow> bool" where
  "step_fair a P P' \<longleftrightarrow>
     rank P' \<le> rank P \<and> (todo P \<noteq> [] \<longrightarrow> (if a = awaited P then rank P' < rank P else todo P' = todo P \<and> awaited P' = awaited P))"

lemma waits_for_active:
  assumes inv: "program_inv M P" and t: "waits_for P = Some t"
  shows "phase_of P t = AtPin \<or>
    (t \<noteq> LoggerThread \<longrightarrow> started P t) \<and> stopped P t \<and> phase_of P t \<notin> {Unborn, NotPinned, Returned}"
proof (cases "phase_of P t = AtPin")
  case False
  with t obtain as where as: "todo P = Join t # as" "phase_of P t \<noteq> Returned" "phase_of P t \<noteq> NotPinned"
    by (metis waits_for_Some)
  have F: "flags_inv M P" using inv by (simp add: program_inv_def)
  then obtain k where "drop k main_script = Join t # as" using as(1) by (auto simp: flags_inv_def)
  note order = script_order [OF this, simplified]
  have "flags_at M (todo P) t (started P t) (stopped P t) (phase_of P t)" using F by (simp add: flags_inv_def)
  with as order show ?thesis by (simp add: flags_at_def)
qed simp

lemma main_step_fair:
  assumes inv: "program_inv M P" and P': "main_step M (todo P) P = Some (Inr P')"
  shows "step_fair Main P P'"
proof -
  have F: "flags_inv M P" using inv by (simp add: program_inv_def)
  show ?thesis
  using P' F
  proof (cases rule: main_step_cases)
    case (goes a as)
    have "rank P' + length (todo P) \<le> rank P + length (todo P')" by (rule rank_le) (rule goes)
    then have "rank P' < rank P" using goes(1,2) by simp
    then show ?thesis by (simp add: step_fair_def awaited_def goes(4))
  qed (auto simp: step_fair_def awaited_def)
qed

lemma moves_inv: "thread_moves M t P P' \<Longrightarrow> program_inv M P'"
  unfolding thread_moves_def by blast

lemma worker_step_fair:
  assumes inv: "program_inv M P" and m: "thread_moves M t P P'"
  shows "step_fair (Worker t) P P'"
proof -
  have todo: "todo P' = todo P"
    and others: "\<And>u. u \<noteq> t \<Longrightarrow> phase_of P' u = phase_of P u \<and> thread_rank P' u = thread_rank P u"
    and low: "thread_rank P' t \<le> thread_rank P t"
    and ended: "phase_of P t \<in> {NotPinned, Returned} \<Longrightarrow> P' = P"
    and pinned: "phase_of P' t = AtPin \<Longrightarrow> phase_of P t = AtPin"
    and lower: "phase_of P t = AtPin \<Longrightarrow> thread_rank P' t < thread_rank P t"
      "(t \<noteq> LoggerThread \<longrightarrow> started P t) \<and> stopped P t \<and> phase_of P t \<notin> {Unborn, NotPinned, Returned} \<Longrightarrow>
        thread_rank P' t < thread_rank P t"
    using m unfolding thread_moves_def by blast+
  have "thread_rank P' u \<le> thread_rank P u" for u using others low by (metis order_refl)
  then have "rank P' \<le> rank P" using rank_le [of P' P] todo by simp
  moreover have "rank P' < rank P" if "waits_for P = Some t"
    using rank_less [of t P' P] others todo lower waits_for_active [OF inv that] by blast
  moreover have "waits_for P' = waits_for P" if other: "waits_for P \<noteq> Some t"
  proof -
    have "waits_for P' = Some u \<longleftrightarrow> waits_for P = Some u" for u
    proof (cases "u = t")
      case True
      show ?thesis using other ended pinned unfolding True by (metis insertCI todo waits_for_Some)
    next
      case False
      then show ?thesis unfolding waits_for_Some todo using others by simp
    qed
    then show ?thesis by (metis option.exhaust)
  qed
  ultimately show ?thesis using todo by (auto simp: step_fair_def awaited_def split: option.splits)
qed

definition program_fault :: "actor \<Rightarrow> program \<Rightarrow> fault option" where
  "program_fault a P =
     (case a of Main \<Rightarrow> if joins_null P then Some NullPointer else None | Worker t \<Rightarrow> worker_fault t P)"

lemma program_step_ok:
  assumes inv: "program_inv M P" and clock: "clock_runs (m_world M)"
  shows "case program_fault a P of Some e \<Rightarrow> program_step M a P = Some (Inl e)
    | None \<Rightarrow> \<exists>P'. program_step M a P = Some (Inr P') \<and> program_inv M P' \<and> step_fair a P P'"
proof (cases a)
  case Main
  then show ?thesis
    using main_step_inv [OF inv] main_step_fair [OF inv] joins_null_fault [of P M]
    by (auto simp: program_fault_def)
next
  case (Worker t)
  show ?thesis
    using worker_step_moves [OF inv clock, of t] worker_step_fair [OF inv, of t]
      moves_inv [of M t P]
    by (auto simp: program_fault_def Worker split: option.splits)
qed

lemma program_over:
  assumes "program_inv M P" and "todo P = []"
  shows "phase_of P t = Returned" and "program_step M a P = Some (Inr P)"
proof -
  show R: "phase_of P t = Returned" for t
    using assms by (simp add: program_inv_def flags_inv_def flags_at_def)
  show "program_step M a P = Some (Inr P)" by (cases a) (simp_all add: assms(2) worker_step_idle R)
qed

subsection \<open>Runs\<close>

text \<open>The program on a machine whose cycle counter never reads 0 is a fair system.\<close>

definition good :: "machine \<Rightarrow> program \<Rightarrow> bool" where
  "good M P \<longleftrightarrow> program_inv M P \<and> clock_runs (m_world M)"

interpretation prog: fair_system "program_step M" "good M" "\<lambda>P. todo P = []" rank awaited program_fault for M
proof
  fix a P
  assume P: "good M P"
  then have pre: "program_inv M P" "clock_runs (m_world M)" by (simp_all add: good_def)
  note S = program_step_ok [OF pre, of a]
  show "program_fault a P = Some e \<Longrightarrow> program_step M a P = Some (Inl e)" for e using S by simp
  show "\<exists>P'. program_step M a P = Some (Inr P') \<and> good M P' \<and> rank P' \<le> rank P \<and>
      (todo P \<noteq> [] \<longrightarrow> (if a = awaited P then rank P' < rank P else todo P' \<noteq> [] \<and> awaited P' = awaited P))"
    if "program_fault a P = None"
    using S pre that by (auto simp: good_def step_fair_def)
  show "todo P = [] \<Longrightarrow> program_step M a P = Some (Inr P)" by (rule program_over(2) [OF pre(1)])
  show "rank P = 0 \<Longrightarrow> todo P = []" by (simp add: rank_def)
qed

lemma program_start_good: "clock_runs (m_world M) \<Longrightarrow> good M (program_start M)"
  using program_start_inv by (simp add: good_def)

lemma program_run_good:
  assumes "clock_runs (m_world M)" and "run_program M as (program_start M) = Some (Inr P)"
  shows "good M P"
  using prog.run_cases [OF program_start_good [OF assms(1)], of as] assms(2)
  by (auto simp: faults_as_said_def)

subsection \<open>The start of a thread in small steps\<close>

text \<open>
  Where the call of \<open>createAndStartThread\<close> for the thread \<open>t\<close> is in the smaller steps of \<open>ThreadStart\<close>.  Each
  step of the program takes it along steps of those, so what \<open>main\<close> and the bodies of the threads do
  to each other here is something they do there.
\<close>

fun body_of :: "phase \<Rightarrow> body_pc" where
  "body_of Unborn = BodyPins"
| "body_of AtPin = BodyPins"
| "body_of NotPinned = BodyDone"
| "body_of AtCall = BodyCalls"
| "body_of Returned = BodyDone"
| "body_of _ = BodyRuns"

definition startup_at :: "bool \<Rightarrow> phase \<Rightarrow> startup" where
  "startup_at waits ph =
     \<lparr>running = (ph \<notin> {Unborn, AtPin, NotPinned}), failed = (ph = NotPinned), body_at = body_of ph,
      creator_at = (if waits then CreatorWaits else CreatorReturned (ph \<noteq> NotPinned))\<rparr>"

definition startup_of :: "program \<Rightarrow> thread \<Rightarrow> startup" where
  "startup_of P t = startup_at (Await t \<in> set (todo P)) (phase_of P t)"

lemma pins_or_fails:
  assumes "startup_reachable c i (startup_at True AtPin)"
  shows "startup_reachable c i (startup_at True (if pins c i then AtCall else NotPinned))"
proof (cases "pins c i")
  case True
  let ?s = "(startup_at True AtPin)\<lparr>body_at := BodyAnnounces\<rparr>"
  have "startup_reachable c i ?s"
    by (rule startup_reachable.step [OF assms pin_works]) (simp_all add: startup_at_def True)
  then have "startup_reachable c i (?s\<lparr>running := True, body_at := BodyCalls\<rparr>)"
    by (rule startup_reachable.step [OF _ announce]) simp
  then show ?thesis using True by (simp add: startup_at_def)
next
  case False
  have "startup_reachable c i ((startup_at True AtPin)\<lparr>failed := True, body_at := BodyDone\<rparr>)"
    by (rule startup_reachable.step [OF assms pin_fails]) (simp_all add: startup_at_def False)
  then show ?thesis using False by (simp add: startup_at_def)
qed

lemma startup_at_runs:
  "body_of ph = BodyRuns \<Longrightarrow> startup_at w ph = (startup_at w AtCall)\<lparr>body_at := BodyRuns\<rparr>"
  "startup_at w Returned = (startup_at w AtCall)\<lparr>body_at := BodyDone\<rparr>"
  by (cases ph; simp add: startup_at_def) (simp add: startup_at_def)

lemma calls_function:
  assumes "startup_reachable c i (startup_at w AtCall)" and "body_of ph = BodyRuns \<or> ph = Returned"
  shows "startup_reachable c i (startup_at w ph)"
proof -
  let ?s = "(startup_at w AtCall)\<lparr>body_at := BodyRuns\<rparr>"
  have runs: "startup_reachable c i ?s"
    by (rule startup_reachable.step [OF assms(1) call]) (simp add: startup_at_def)
  then have "startup_reachable c i (?s\<lparr>body_at := BodyDone\<rparr>)"
    by (rule startup_reachable.step [OF _ func_returns]) simp
  with runs show ?thesis using assms(2) by (elim disjE) (simp_all add: startup_at_runs)
qed

lemma runs_function:
  assumes "startup_reachable c i (startup_at w ph)" and "body_of ph = BodyRuns" and "body_of ph' = BodyRuns \<or> ph' = Returned"
  shows "startup_reachable c i (startup_at w ph')"
proof -
  note runs = assms(1) [unfolded startup_at_runs(1) [OF assms(2)]]
  then have "startup_reachable c i ((startup_at w AtCall)\<lparr>body_at := BodyRuns, body_at := BodyDone\<rparr>)"
    by (rule startup_reachable.step [OF _ func_returns]) simp
  with runs show ?thesis using assms(3) by (elim disjE) (simp_all add: startup_at_runs)
qed

lemma creator_goes_on:
  assumes "startup_reachable c i (startup_at True ph)" and "ph \<notin> {Unborn, AtPin}"
  shows "startup_reachable c i (startup_at False ph)"
proof (cases "ph = NotPinned")
  case True
  let ?s = "(startup_at True ph)\<lparr>creator_at := CreatorJoins\<rparr>"
  have "startup_reachable c i ?s"
    by (rule startup_reachable.step [OF assms(1) sees_failed]) (simp_all add: startup_at_def True)
  then have "startup_reachable c i (?s\<lparr>creator_at := CreatorReturned False\<rparr>)"
    by (rule startup_reachable.step [OF _ joined]) (simp_all add: startup_at_def True)
  then show ?thesis using True by (simp add: startup_at_def)
next
  case False
  have "startup_reachable c i ((startup_at True ph)\<lparr>creator_at := CreatorReturned True\<rparr>)"
    by (rule startup_reachable.step [OF assms(1) sees_running]) (use assms(2) False in \<open>simp_all add: startup_at_def\<close>)
  then show ?thesis using False by (simp add: startup_at_def)
qed

lemma function_goes_on:
  assumes "worker_step M t P = Some (Inr P')" and "body_of (phase_of P t) = BodyRuns"
  shows "body_of (phase_of P' t) = BodyRuns \<or> phase_of P' t = Returned"
  using assms
  by (cases t; cases "phase_of P t") (auto simp: worker_step_defs bindO_eq_Some_Inr split: if_splits)

lemma worker_step_startup:
  assumes inv: "program_inv M P" and run: "worker_step M u P = Some (Inr P')" and m: "thread_moves M u P P'"
    and r: "startup_reachable (m_can_pin M) (core_id t) (startup_of P t)"
  shows "startup_reachable (m_can_pin M) (core_id t) (startup_of P' t)"
proof (cases "u = t")
  case False
  then have "startup_of P' t = startup_of P t" using m unfolding thread_moves_def startup_of_def by metis
  then show ?thesis using r by simp
next
  case True
  have todo: "todo P' = todo P" using m unfolding thread_moves_def by blast
  have W: "Await t \<in> set (todo P)" if "phase_of P t = AtPin"
    using inv that by (simp add: program_inv_def flags_inv_def flags_at_def)
  show ?thesis
  proof (cases "body_of (phase_of P t) = BodyRuns")
    case runs: True
    show ?thesis
      using runs_function [OF r [unfolded startup_of_def] runs] function_goes_on [OF run [unfolded True] runs]
      by (simp add: startup_of_def todo)
  next
    case False
    then show ?thesis
      using r run True W todo pins_or_fails [of "m_can_pin M" "core_id t"] calls_function worker_step_idle [of P t M]
      by (cases "phase_of P t") (auto simp: startup_of_def worker_step_def first_phase_def split: if_splits)
  qed
qed

lemma main_step_startup:
  assumes inv: "program_inv M P" and run: "main_step M (todo P) P = Some (Inr P')"
    and r: "startup_reachable (m_can_pin M) (core_id t) (startup_of P t)"
  shows "startup_reachable (m_can_pin M) (core_id t) (startup_of P' t)"
proof (cases "todo P")
  case (Cons a as)
  have F: "flags_inv M P" using inv by (simp add: program_inv_def)
  then obtain k where k: "todo P = drop k main_script" by (auto simp: flags_inv_def)
  note order = script_order [OF trans [OF k [symmetric] Cons]] and new = script_suffix(2) [OF k Cons]
  have flags: "phase_of P u = Unborn \<longleftrightarrow> Create u \<in> set (a # as)" for u
    using F Cons by (simp add: flags_inv_def flags_at_def)
  show ?thesis
  proof (cases a)
    case (Create u)
    then have P': "P' = (go u AtPin P)\<lparr>todo := as\<rparr>" using run Cons by simp
    show ?thesis
      using r order flags [of u] unfolding P' startup_of_def by (cases "u = t") (simp_all add: Cons Create startup_at_def)
  next
    case (Await u)
    show ?thesis
    proof (cases "phase_of P u = AtPin")
      case False
      then have P': "P' = P\<lparr>todo := as\<rparr>" using run by (simp add: Cons Await)
      have "phase_of P u \<notin> {Unborn, AtPin}" using False flags [of u] order by (simp add: Await)
      then show ?thesis
        using r new creator_goes_on unfolding P' startup_of_def by (cases "u = t") (simp_all add: Cons Await)
    qed (use run r Cons Await in simp)
  qed (use run r Cons in \<open>auto simp: startup_of_def split: if_splits\<close>)
qed (use run r in simp)

theorem program_starts_threads:
  assumes "clock_runs (m_world M)" and "run_program M as (program_start M) = Some (Inr P)"
  shows "startup_reachable (m_can_pin M) (core_id t) (startup_of P t)"
proof -
  let ?I = "\<lambda>P. good M P \<and> startup_reachable (m_can_pin M) (core_id t) (startup_of P t)"
  have "?I P'" if I: "?I P" and run: "program_step M a P = Some (Inr P')" for a P P'
  proof
    have pre: "program_inv M P" "clock_runs (m_world M)" using I by (simp_all add: good_def)
    show "good M P'"
      using program_step_ok [OF pre, of a] run pre(2) by (auto simp: good_def split: option.splits)
    show "startup_reachable (m_can_pin M) (core_id t) (startup_of P' t)"
    proof (cases a)
      case Main
      then show ?thesis using main_step_startup [OF pre(1), of P' t] I run by simp
    next
      case (Worker u)
      then have run': "worker_step M u P = Some (Inr P')" using run by simp
      then have "thread_moves M u P P'"
        using worker_step_moves [OF pre, of u] by (auto split: option.splits)
      then show ?thesis using worker_step_startup [OF pre(1) run'] I by blast
    qed
  qed
  moreover have "startup_of (program_start M) t = startup_new"
    by (cases t) (simp_all add: startup_of_def startup_at_def startup_new_def program_start_def main_script_def)
  then have "?I (program_start M)" using program_start_good [OF assms(1)] startup_reachable.start by simp
  ultimately show ?thesis using run_steps_inv [of ?I, OF _ _ assms(2)] by blast
qed

end
