(* ===== verification/ProgramProps.thy ===== *)
theory ProgramProps
  imports ProgramProofs
begin

text \<open>
  What the program promises from its start to its end (\<open>main.cpp\<close>), whatever the order in which
  \<open>main\<close> and the four threads get their turns, and what its shutdown can lose.
\<close>

lemma start_rank: "rank (program_start M) \<le> 100050"
  by (simp add: rank_def thread_rank_def program_start_def main_script_def)

text \<open>
  The three faults of the program, each with the step that has it: \<open>main\<close> joins a thread that could not
  be pinned, for which it has a null pointer; a thread calls the lambda it got when the statement of
  \<open>main\<close> that made the thread has ended and the lambda with it; the engine reports when it has
  handled fewer than two requests, or the gateway when it has forwarded none, and reads past the end
  of an empty vector.
\<close>

definition known_fault :: "machine \<Rightarrow> actor \<Rightarrow> program \<Rightarrow> fault \<Rightarrow> bool" where
  "known_fault M a P e \<longleftrightarrow>
     e = NullPointer \<and> a = Main \<and> (\<exists>t as. todo P = Join t # as \<and> \<not> pins (m_can_pin M) (core_id t)) \<or>
     e = DanglingReference \<and> (\<exists>t. a = Worker t \<and> phase_of P t = AtCall \<and> Await t \<notin> set (todo P)) \<or>
     e = OutOfBounds \<and> (\<exists>t. a = Worker t \<and> phase_of P t = AtReport \<and>
       (t = EngineThread \<and> length (tickToTrade (engine (sys P))) < 2 \<or>
        t = GatewayThread \<and> length (published (gw_LobOrderQueue (gateway (sys P)))) = 0))"

lemma program_fault_known:
  assumes "good M P" and "program_fault a P = Some e"
  shows "known_fault M a P e"
proof (cases a)
  case Main
  have flags: "flags_at M (todo P) t (started P t) (stopped P t) (phase_of P t)" for t
    using assms(1) by (simp add: good_def program_inv_def flags_inv_def)
  obtain t as where "e = NullPointer" "todo P = Join t # as" "phase_of P t = NotPinned"
    using assms(2) Main by (auto simp: program_fault_def joins_null_def split: if_splits)
  moreover from this(3) have "\<not> pins (m_can_pin M) (core_id t)" using flags [of t] by (simp add: flags_at_def)
  ultimately show ?thesis using Main by (simp add: known_fault_def)
next
  case (Worker t)
  have "gateway_inv (m_world M) (sys P)" using assms(1) by (simp add: good_def program_inv_def system_inv_def)
  then have "length (published (gw_LobOrderQueue (gateway (sys P)))) = forwarded_count (sys P)"
    by (simp add: gateway_inv_def)
  then show ?thesis
    using assms(2)
    by (auto simp: Worker program_fault_def worker_fault_def function_alive_def known_fault_def too_few_def handled_def
        split: if_splits)
qed

lemma faults_known:
  assumes "faults_as_said (program_step M) (good M) program_fault as (program_start M)"
  shows "\<exists>e bs a cs P. run_program M as (program_start M) = Some (Inl e) \<and> as = bs @ a # cs \<and>
    run_program M bs (program_start M) = Some (Inr P) \<and> known_fault M a P e"
  using assms program_fault_known unfolding faults_as_said_def by metis

text \<open>
  C21. On every machine whose cycle counter never reads 0, and in every order of steps, the program
  does not hang and gets through with books that are not crossed, or it ends in one of its three
  faults (\<open>known_fault\<close>): \<open>join\<close> on the null pointer of a thread that could not be pinned to its core, the call
  of a lambda whose lifetime has ended, or a report without enough samples.
\<close>
theorem program_runs:
  assumes "clock_runs (m_world M)"
  shows "(\<exists>P. run_program M as (program_start M) = Some (Inr P) \<and> uncrossed (engine (sys P))) \<or>
    (\<exists>e bs a cs P. run_program M as (program_start M) = Some (Inl e) \<and> as = bs @ a # cs \<and>
      run_program M bs (program_start M) = Some (Inr P) \<and> known_fault M a P e)"
proof -
  have "uncrossed (engine (sys P))" if "good M P" for P
    using that me_invD(7) unfolding good_def program_inv_def system_inv_def engine_inv_def by blast
  then show ?thesis using prog.run_cases [OF program_start_good [OF assms], of as] faults_known [of M as] by blast
qed

definition demo_machine :: machine where
  "demo_machine = \<lparr>m_world = demo_world\<lparr>w_engine := demo_hw\<lparr>tsc := (\<lambda>_. 1)\<rparr>\<rparr>, m_can_pin = (\<lambda>_. True), m_log_opens = True\<rparr>"

lemma demo_machine_ok: "clock_runs (m_world demo_machine)" "\<forall>t. pins (m_can_pin demo_machine) (core_id t)"
  by (simp_all add: demo_machine_def pins_def clock_runs_def demo_world_def demo_hw_def)

theorem program_runs_witness:
  "run_program demo_machine (replicate 12 Main @ [Worker EngineThread, Worker GatewayThread]) (program_start demo_machine) \<noteq> None"
  using program_runs [OF demo_machine_ok(1), of "replicate 12 Main @ [Worker EngineThread, Worker GatewayThread]"] by auto

text \<open>
  C4. The program ends.  On every machine whose cycle counter never reads 0, and after any beginning,
  100050 fair rounds, each with a step of \<open>main\<close> and of each thread, in any order and among any number
  of others, bring \<open>main\<close> to its last line with all threads returned, unless one of the three faults
  (\<open>known_fault\<close>) ended it on the way: a thread that could not be pinned was joined, a dead lambda called,
  or a report made without enough samples.
\<close>
theorem program_ends:
  assumes "clock_runs (m_world M)" and "\<forall>bs \<in> set rounds. UNIV \<subseteq> set bs" and "100050 \<le> length rounds"
  shows "(\<exists>P. run_program M (as @ concat rounds) (program_start M) = Some (Inr P) \<and> todo P = [] \<and>
      (\<forall>t. phase_of P t = Returned)) \<or>
    (\<exists>e bs a cs P. run_program M (as @ concat rounds) (program_start M) = Some (Inl e) \<and> as @ concat rounds = bs @ a # cs \<and>
      run_program M bs (program_start M) = Some (Inr P) \<and> known_fault M a P e)"
proof -
  have fair: "\<forall>bs \<in> set rounds. \<forall>P. good M P \<and> todo P \<noteq> [] \<longrightarrow> awaited P \<in> set bs" using assms(2) by blast
  have "rank (program_start M) \<le> length rounds" using start_rank [of M] assms(3) by simp
  from prog.fair_end [OF program_start_good [OF assms(1)] fair this, of as] show ?thesis
    using program_over(1) faults_known [of M "as @ concat rounds"] unfolding good_def by blast
qed

lemma UNIV_actor: "UNIV = {Main, Worker EngineThread, Worker GatewayThread, Worker AlphaThread, Worker LoggerThread}"
proof -
  have "a \<in> {Main, Worker EngineThread, Worker GatewayThread, Worker AlphaThread, Worker LoggerThread}" for a
  proof (cases a)
    case (Worker t)
    then show ?thesis by (cases t) simp_all
  qed simp
  then show ?thesis by blast
qed

theorem program_ends_witness:
  "run_program demo_machine (concat (replicate 100050
      [Main, Worker EngineThread, Worker GatewayThread, Worker AlphaThread, Worker LoggerThread]))
    (program_start demo_machine) \<noteq> None"
proof -
  have "\<forall>bs \<in> set (replicate 100050 [Main, Worker EngineThread, Worker GatewayThread, Worker AlphaThread,
      Worker LoggerThread]). UNIV \<subseteq> set bs"
    by (simp add: UNIV_actor)
  from program_ends [OF demo_machine_ok(1) this, of "[]"] show ?thesis by auto
qed

subsection \<open>The order in which the threads look at their flags\<close>

text \<open>Each thread is pinned and calls its function before \<open>createAndStartThread\<close> returns.\<close>

definition make_threads :: "actor list" where
  "make_threads =
     concat (map (\<lambda>t. [Main, Worker t, Worker t, Main]) [EngineThread, GatewayThread, AlphaThread, LoggerThread])"

text \<open>Each of the three looks at its start flag too early and at its stop flag right after that.\<close>

definition race_to_exit :: "actor list" where
  "race_to_exit =
     make_threads @ [Worker EngineThread, Worker GatewayThread, Worker AlphaThread] @ replicate 6 Main @
     [Worker EngineThread, Worker GatewayThread, Worker AlphaThread] @ replicate 4 Main @ [Worker LoggerThread, Main]"

lemma pinned_cores:
  assumes "\<forall>t. pins (m_can_pin M) (core_id t)"
  shows "pins (m_can_pin M) 1" and "pins (m_can_pin M) 2" and "pins (m_can_pin M) 3" and "pins (m_can_pin M) 4"
  using assms [rule_format, of EngineThread] assms [rule_format, of GatewayThread]
    assms [rule_format, of AlphaThread] assms [rule_format, of LoggerThread] by simp_all

lemma race_run:
  assumes "\<forall>t. pins (m_can_pin M) (core_id t)"
  shows "\<exists>P. run_program M race_to_exit (program_start M) = Some (Inr P) \<and> todo P = [] \<and>
    sys P = system_start (m_world M) \<and> printed P = []"
proof -
  show ?thesis
    using pinned_cores [OF assms]
    by (simp add: race_to_exit_def numeral_eq_Suc make_threads_def program_start_def main_script_def worker_step_defs
      first_phase_def function_alive_def)
qed

lemma race_fault:
  assumes "\<not> pins (m_can_pin M) (core_id t)"
  shows "run_program M race_to_exit (program_start M) = Some (Inl NullPointer)"
  using assms
  by (cases t; cases "pins (m_can_pin M) 1"; cases "pins (m_can_pin M) 2"; cases "pins (m_can_pin M) 3")
    (simp_all add: race_to_exit_def numeral_eq_Suc make_threads_def program_start_def main_script_def worker_step_defs
      first_phase_def function_alive_def)

text \<open>A thread that cannot be pinned never gets further, and \<open>main\<close> does not get past the statement that joins it.\<close>

definition unpinned :: "machine \<Rightarrow> thread \<Rightarrow> program \<Rightarrow> bool" where
  "unpinned M t P \<longleftrightarrow> phase_of P t \<in> {Unborn, AtPin, NotPinned} \<and> Join t \<in> set (todo P)"

lemma unpinned_start: "unpinned M t (program_start M)"
  by (cases t) (simp_all add: unpinned_def program_start_def main_script_def)

lemma unpinned_step:
  assumes "\<not> pins (m_can_pin M) (core_id t)" and "unpinned M t P" and "program_step M a P = Some (Inr P')"
  shows "unpinned M t P'"
proof (cases a)
  case Main
  show ?thesis
  proof (cases "todo P")
    case (Cons x xs)
    then show ?thesis using assms Main by (cases x) (auto simp: unpinned_def split: if_splits)
  qed (use assms in \<open>simp add: unpinned_def\<close>)
next
  case (Worker u)
  then show ?thesis using assms
    by (cases u; cases "phase_of P u") (auto simp: unpinned_def worker_step_defs bindO_eq_Some_Inr split: if_splits)
qed

text \<open>
  C14. What holds when the program has returned (on a machine whose cycle counter never reads 0): every
  thread has; the generator has published all of
  its orders, or none because it never saw its start flag; the books are the market of the requests
  the engine has handled; the log file is the text of an interleaving of the beginnings of both logs
  that the logger has read; and each report printed, at most one for a thread, is that of all samples
  its thread has taken.
\<close>
theorem program_at_exit:
  assumes "clock_runs (m_world M)" and "run_program M as (program_start M) = Some (Inr P)" and "todo P = []"
  shows "(\<forall>t. phase_of P t = Returned) \<and>
    published (AlphaOrderQueue (alpha (sys P))) \<in> {[], map (alpha_order (w_alpha (m_world M))) [1..<order_num]} \<and>
    market_of (engine (sys P)) = fold (m_request max_price_tick)
      (take (length (tickToTrade (engine (sys P)))) (published (gw_LobOrderQueue (gateway (sys P))))) empty_market \<and>
    (\<exists>ms gs ws. published (matchLog (engine (sys P))) = ms @ contents (matching_engine_queue (logger (sys P))) \<and>
       published (gw_Logger (gateway (sys P))) = gs @ contents (order_gateway_queue (logger (sys P))) \<and>
       ws \<in> shuffles ms gs \<and> file_text (logger (sys P)) = concat (map render ws)) \<and>
    distinct (map fst (printed P)) \<and>
    (\<forall>t bs. (t, bs) \<in> set (printed P) \<longrightarrow> map showBenchmark (samples t (sys P)) = map Inr bs)"
proof -
  have inv: "program_inv M P" using program_run_good [OF assms(1,2)] by (simp add: good_def)
  have S: "system_inv (m_world M) (sys P)" and H: "phase_inv P" and R: "printed_inv P"
    using inv by (simp_all add: program_inv_def)
  have ret: "\<forall>t. phase_of P t = Returned" using program_over(1) [OF inv assms(3)] by blast
  have "sent (sys P) = 0 \<or> sent (sys P) = 99999" using H [unfolded phase_inv_def, rule_format, of AlphaThread] ret by simp
  moreover have "published (AlphaOrderQueue (alpha (sys P))) = take (sent (sys P)) (all_orders (w_alpha (m_world M)))"
    using S by (simp add: system_inv_def alpha_inv_def)
  ultimately have gen: "published (AlphaOrderQueue (alpha (sys P))) \<in>
      {[], map (alpha_order (w_alpha (m_world M))) [1..<order_num]}"
    unfolding all_orders_def [symmetric] by auto
  have books: "market_of (engine (sys P)) = fold (m_request max_price_tick)
      (take (length (tickToTrade (engine (sys P)))) (published (gw_LobOrderQueue (gateway (sys P))))) empty_market"
    using S by (simp add: system_inv_def engine_inv_def market_after_def handled_def)
  have L: "log_inv (sys P)" using S by (simp add: system_inv_def)
  note logs = log_inv_file [OF L]
  have "distinct (map fst (printed P))" "\<forall>t bs. (t, bs) \<in> set (printed P) \<longrightarrow> reports (samples t (sys P)) = Inr bs"
    using R by (simp_all add: printed_inv_def)
  with ret gen books logs reports_values show ?thesis by blast
qed

theorem program_at_exit_witness:
  "\<exists>P. run_program demo_machine (race_to_exit) (program_start demo_machine) = Some (Inr P) \<and>
    published (AlphaOrderQueue (alpha (sys P))) \<in> {[], map (alpha_order (w_alpha demo_world)) [1..<order_num]}"
proof -
  obtain P where P: "run_program demo_machine race_to_exit (program_start demo_machine) = Some (Inr P)" "todo P = []"
    using race_run [OF demo_machine_ok(2)] by blast
  from program_at_exit [OF demo_machine_ok(1) P] P(1) show ?thesis by (simp add: demo_machine_def)
qed

text \<open>
  C39. A thread can miss its start, on every machine that can pin all threads to their cores: it looks at the start flag just before \<open>main\<close> sets it, and at the
  stop flag, in the same turn of its waiting loop, just after \<open>main\<close> set that one.  When all three
  threads are that late the program returns as if it had run, with nothing sent, handled, logged
  or printed.
\<close>
theorem program_start_missed:
  assumes "\<forall>t. pins (m_can_pin M) (core_id t)"
  shows "\<exists>as P. run_program M as (program_start M) = Some (Inr P) \<and> todo P = [] \<and>
    sys P = system_start (m_world M) \<and> printed P = []"
  using race_run [OF assms] by blast

theorem program_start_missed_witness:
  "\<exists>as P. run_program demo_machine as (program_start demo_machine) = Some (Inr P) \<and> todo P = [] \<and> printed P = []"
  using program_start_missed [OF demo_machine_ok(2)] by blast

text \<open>
  A thread that cannot be pinned to its core (the machine has fewer than five) ends the program:
  \<open>createAndStartThread\<close> gives \<open>nullptr\<close>, \<open>main\<close> never looks at it, starts and stops the others and calls
  \<open>join\<close> on it, so that no order of steps brings \<open>main\<close> to its end and one of them faults there.
\<close>
theorem program_needs_all_cores:
  assumes "\<not> pins (m_can_pin M) (core_id t)"
  shows "(\<forall>as P. run_program M as (program_start M) = Some (Inr P) \<longrightarrow> todo P \<noteq> []) \<and>
    (\<exists>as. run_program M as (program_start M) = Some (Inl NullPointer))"
proof
  show "\<forall>as P. run_program M as (program_start M) = Some (Inr P) \<longrightarrow> todo P \<noteq> []"
  proof (intro allI impI)
    fix as P
    assume "run_program M as (program_start M) = Some (Inr P)"
    from run_steps_inv [where I = "unpinned M t", OF unpinned_step [OF assms] unpinned_start this] show "todo P \<noteq> []" by (auto simp: unpinned_def)
  qed
  show "\<exists>as. run_program M as (program_start M) = Some (Inl NullPointer)"
    using race_fault [OF assms] by blast
qed

theorem program_needs_all_cores_witness:
  "\<exists>as. run_program (demo_machine\<lparr>m_can_pin := (\<lambda>c. c < 4)\<rparr>) as
    (program_start (demo_machine\<lparr>m_can_pin := (\<lambda>c. c < 4)\<rparr>)) = Some (Inl NullPointer)"
  using program_needs_all_cores [of "demo_machine\<lparr>m_can_pin := (\<lambda>c. c < 4)\<rparr>" LoggerThread]
  by (simp add: pins_def)

text \<open>
  The other two faults happen, too, on a machine that can pin the threads: the engine is pinned, \<open>main\<close>
  sees its flag and goes on, and only then the engine calls the lambda it was made with; and the
  engine is stopped before it has handled anything.
\<close>
theorem program_function_outlived:
  assumes "pins (m_can_pin M) 1"
  shows "run_program M [Main, Worker EngineThread, Main, Worker EngineThread] (program_start M) = Some (Inl DanglingReference)"
  using assms by (simp add: program_start_def main_script_def worker_step_def function_alive_def)

theorem program_report_without_samples:
  assumes "\<forall>t. pins (m_can_pin M) (core_id t)"
  shows "run_program M (make_threads @ replicate 3 Main @ [Worker EngineThread] @ replicate 3 Main @
      [Worker EngineThread, Worker EngineThread]) (program_start M) = Some (Inl OutOfBounds)"
proof -
  have "reports (samples EngineThread (system_start (m_world M))) = Inl OutOfBounds"
    by (simp add: system_start_def ME_new_def)
  moreover have "first_phase M EngineThread = AskStart" "first_phase M GatewayThread = AskStart"
    "first_phase M AlphaThread = AskStart" "first_phase M LoggerThread \<noteq> AtPin"
    by (simp_all add: first_phase_def)
  ultimately show ?thesis
    using pinned_cores [OF assms]
    by (simp add: numeral_eq_Suc make_threads_def program_start_def main_script_def worker_step_defs function_alive_def
        del: samples.simps)
qed

subsection \<open>What a shutdown loses\<close>

lemma file_kept:
  assumes "thread_turn W t z = Some (Inr z')" and "t \<noteq> LoggerThread"
  shows "file_text (logger z') = file_text (logger z)"
  using assms
  by (cases t)
    (auto simp: alpha_turn_def gateway_thread_turn_def engine_turn_def bindO_eq_Some_Inr split: if_splits prod.splits)

lemma go_stays: "phase_of P t = ph \<Longrightarrow> go t ph P = P"
  by (auto simp: go_def)

lemma alpha_burst:
  assumes "system_inv (m_world M) (sys P)" and "phase_of P AlphaThread = AtWork" and "sent (sys P) + k \<le> 99999"
  shows "\<exists>z. run_program M (replicate k (Worker AlphaThread)) P = Some (Inr (P\<lparr>sys := z\<rparr>)) \<and> system_inv (m_world M) z \<and>
    sent z = sent (sys P) + k \<and> forwarded_count z = forwarded_count (sys P) \<and> handled z = handled (sys P) \<and>
    file_text (logger z) = file_text (logger (sys P))"
  using assms
proof (induction k arbitrary: P)
  case 0
  then show ?case by (intro exI [of _ "sys P"]) simp
next
  case (Suc k)
  have len: "length (TestStore (alpha (sys P))) = 99999" using Suc.prems(1) by (simp add: system_inv_def alpha_inv_def)
  obtain z where z: "thread_turn (m_world M) AlphaThread (sys P) = Some (Inr z)" "system_inv (m_world M) z"
    "sent z = Suc (sent (sys P))" "forwarded_count z = forwarded_count (sys P)" "handled z = handled (sys P)"
    using thread_turn_step [OF Suc.prems(1), of AlphaThread] Suc.prems(3) by auto
  have same: "go AlphaThread AtWork (P\<lparr>sys := z\<rparr>) = P\<lparr>sys := z\<rparr>"
    using Suc.prems(2) by (intro go_stays) simp
  have "worker_step M AlphaThread P = Some (Inr (P\<lparr>sys := z\<rparr>))"
    using Suc.prems(2,3) len z(1) same by (simp add: worker_step_defs)
  moreover have "file_text (logger z) = file_text (logger (sys P))"
    by (rule file_kept [OF z(1)]) simp
  moreover obtain z' where "run_program M (replicate k (Worker AlphaThread)) (P\<lparr>sys := z\<rparr>) = Some (Inr (P\<lparr>sys := z'\<rparr>))"
    "system_inv (m_world M) z'" "sent z' = sent z + k" "forwarded_count z' = forwarded_count z" "handled z' = handled z"
    "file_text (logger z') = file_text (logger z)"
    using Suc.IH [of "P\<lparr>sys := z\<rparr>"] Suc.prems z by auto
  ultimately show ?case using z by (intro exI [of _ z']) simp
qed

lemma one_turn:
  assumes "system_inv (m_world M) (sys P)" and "phase_of P t = AskEnd" and "\<not> stopped P t" and "t = GatewayThread \<or> t = EngineThread"
  obtains z where "run_program M [Worker t, Worker t] P = Some (Inr (P\<lparr>sys := z\<rparr>))" and "system_inv (m_world M) z"
    and "sent z = sent (sys P)"
    and "forwarded_count z = (if t = GatewayThread then min (sent (sys P)) (Suc (forwarded_count (sys P))) else forwarded_count (sys P))"
    and "handled z = (if t = EngineThread then min (forwarded_count (sys P)) (Suc (handled (sys P))) else handled (sys P))"
    and "file_text (logger z) = file_text (logger (sys P))"
proof -
  have t: "t \<noteq> AlphaThread" "t \<noteq> LoggerThread" using assms(4) by auto
  obtain z where z: "thread_turn (m_world M) t (sys P) = Some (Inr z)" "system_inv (m_world M) z"
    "sent z = sent (sys P)"
    "forwarded_count z = (if t = GatewayThread then min (sent (sys P)) (Suc (forwarded_count (sys P))) else forwarded_count (sys P))"
    "handled z = (if t = EngineThread then min (forwarded_count (sys P)) (Suc (handled (sys P))) else handled (sys P))"
    using thread_turn_step [OF assms(1), of t] t by auto
  have "go t AskEnd ((go t AtWork P)\<lparr>sys := z\<rparr>) = P\<lparr>sys := z\<rparr>"
    using assms(2) by (auto simp: go_def fun_eq_iff)
  then have "run_program M [Worker t, Worker t] P = Some (Inr (P\<lparr>sys := z\<rparr>))"
    using assms(2,3,4) z(1) by (elim disjE) (simp_all add: worker_step_defs)
  with z file_kept [OF z(1)] t that show thesis by blast
qed

text \<open>Where all threads are when \<open>main\<close> has set the three start flags.\<close>

definition all_working :: "machine \<Rightarrow> program" where
  "all_working M =
     \<lparr>todo = drop 11 main_script, started = (\<lambda>t. t \<noteq> LoggerThread), stopped = (\<lambda>_. False),
      phase_of = (\<lambda>t. if t = AlphaThread then AtWork else if t = LoggerThread then first_phase M t else AskEnd),
      sys = system_start (m_world M), printed = []\<rparr>"

lemma all_threads: "(\<forall>t. Q t) \<longleftrightarrow> Q EngineThread \<and> Q GatewayThread \<and> Q AlphaThread \<and> Q LoggerThread"
  by (metis thread.exhaust)

lemma all_working_run:
  assumes "\<forall>t. pins (m_can_pin M) (core_id t)"
  shows "run_program M (make_threads @ replicate 3 Main @ [Worker EngineThread, Worker GatewayThread, Worker AlphaThread]) (program_start M) =
    Some (Inr (all_working M))"
proof -
  note pinned_cores [OF assms]
  moreover have "first_phase M EngineThread = AskStart" "first_phase M GatewayThread = AskStart"
    "first_phase M AlphaThread = AskStart" "first_phase M LoggerThread \<noteq> AtPin"
    by (simp_all add: first_phase_def)
  ultimately show ?thesis
    by (simp add: numeral_eq_Suc make_threads_def program_start_def main_script_def worker_step_defs function_alive_def
          all_working_def go_def fun_eq_iff all_threads)
qed

text \<open>From there to the end: \<open>main\<close> stops the threads while orders wait in every queue.\<close>

definition to_exit :: "actor list" where
  "to_exit =
     replicate 3 Main @ [Worker AlphaThread, Worker EngineThread, Worker GatewayThread, Worker EngineThread,
       Worker GatewayThread] @ replicate 4 Main @ [Worker LoggerThread, Main]"

lemma to_exit_run:
  assumes "\<not> sent z < length (TestStore (alpha z))" and "reports (samples EngineThread z) = Inr es"
    and "reports (samples GatewayThread z) = Inr gs"
  shows "\<exists>P. run_program M to_exit ((all_working M)\<lparr>sys := z\<rparr>) = Some (Inr P) \<and> todo P = [] \<and> sys P = z"
  using assms
  by (simp add: to_exit_def all_working_def numeral_eq_Suc main_script_def worker_step_defs first_phase_def
      del: samples.simps)

lemma all_sent_two_handled:
  obtains bs z where "run_program M bs (all_working M) = Some (Inr ((all_working M)\<lparr>sys := z\<rparr>))"
    and "system_inv (m_world M) z" and "sent z = 99999" and "forwarded_count z = 2" and "handled z = 2"
    and "file_text (logger z) = []"
proof -
  let ?P = "all_working M"
  note start = system_start_inv [of "m_world M"] system_start_counts [of "m_world M"]
  have P: "sys ?P = system_start (m_world M)" "phase_of ?P AlphaThread = AtWork" "phase_of ?P EngineThread = AskEnd"
    "phase_of ?P GatewayThread = AskEnd" "\<not> stopped ?P t" for t
    by (simp_all add: all_working_def)
  obtain z1 where z1: "run_program M (replicate 99999 (Worker AlphaThread)) ?P = Some (Inr (?P\<lparr>sys := z1\<rparr>))"
    "system_inv (m_world M) z1" "sent z1 = 99999" "forwarded_count z1 = 0" "handled z1 = 0"
    "file_text (logger z1) = file_text (logger (system_start (m_world M)))"
    using alpha_burst [of M ?P 99999] start P(1,2) by auto
  obtain z2 where z2: "run_program M [Worker GatewayThread, Worker GatewayThread] (?P\<lparr>sys := z1\<rparr>) = Some (Inr (?P\<lparr>sys := z2\<rparr>))"
    "system_inv (m_world M) z2" "sent z2 = 99999" "forwarded_count z2 = 1" "handled z2 = 0"
    "file_text (logger z2) = file_text (logger z1)"
    by (rule one_turn [of M "?P\<lparr>sys := z1\<rparr>" GatewayThread]) (use z1 P in auto)
  obtain z3 where z3: "run_program M [Worker GatewayThread, Worker GatewayThread] (?P\<lparr>sys := z2\<rparr>) = Some (Inr (?P\<lparr>sys := z3\<rparr>))"
    "system_inv (m_world M) z3" "sent z3 = 99999" "forwarded_count z3 = 2" "handled z3 = 0"
    "file_text (logger z3) = file_text (logger z2)"
    by (rule one_turn [of M "?P\<lparr>sys := z2\<rparr>" GatewayThread]) (use z2 P in auto)
  obtain z4 where z4: "run_program M [Worker EngineThread, Worker EngineThread] (?P\<lparr>sys := z3\<rparr>) = Some (Inr (?P\<lparr>sys := z4\<rparr>))"
    "system_inv (m_world M) z4" "sent z4 = 99999" "forwarded_count z4 = 2" "handled z4 = 1"
    "file_text (logger z4) = file_text (logger z3)"
    by (rule one_turn [of M "?P\<lparr>sys := z3\<rparr>" EngineThread]) (use z3 P in auto)
  obtain z where z: "run_program M [Worker EngineThread, Worker EngineThread] (?P\<lparr>sys := z4\<rparr>) = Some (Inr (?P\<lparr>sys := z\<rparr>))"
    "system_inv (m_world M) z" "sent z = 99999" "forwarded_count z = 2" "handled z = 2"
    "file_text (logger z) = file_text (logger z4)"
    by (rule one_turn [of M "?P\<lparr>sys := z4\<rparr>" EngineThread]) (use z4 P in auto)
  let ?two = "\<lambda>t. [Worker t, Worker t]"
  have "run_program M (replicate 99999 (Worker AlphaThread) @ ?two GatewayThread @ ?two GatewayThread @ ?two EngineThread @
      ?two EngineThread) ?P = Some (Inr (?P\<lparr>sys := z\<rparr>))"
    unfolding run_steps_append [OF z1(1)] run_steps_append [OF z2(1)] run_steps_append [OF z3(1)] run_steps_append [OF z4(1)]
    by (rule z(1))
  moreover have "file_text (logger z) = []" using z z1 z2 z3 z4 by (simp add: system_start_def)
  ultimately show thesis using z(2-5) that by blast
qed

text \<open>
  C24. A shutdown loses what is on its way: on every machine that can pin all threads to their cores and
  whose cycle counter never reads 0 there is an order of steps in which the generator sends all
  of its 99999 orders, the gateway forwards two, the engine handles these, and \<open>main\<close>, which stops all
  three at the same time and the logger before it has read anything, returns with 99997 orders
  unread and an empty log file.
\<close>
theorem program_shutdown_loses:
  assumes "clock_runs (m_world M)" and "\<forall>t. pins (m_can_pin M) (core_id t)"
  shows "\<exists>as P. run_program M as (program_start M) = Some (Inr P) \<and> todo P = [] \<and>
    length (published (AlphaOrderQueue (alpha (sys P)))) = 99999 \<and>
    length (published (gw_LobOrderQueue (gateway (sys P)))) = 2 \<and> length (tickToTrade (engine (sys P))) = 2 \<and>
    length (contents (gw_SniperOrderQueue (gateway (sys P)))) = 99997 \<and> file_text (logger (sys P)) = []"
proof -
  obtain bs z where z: "run_program M bs (all_working M) = Some (Inr ((all_working M)\<lparr>sys := z\<rparr>))"
    "system_inv (m_world M) z" "sent z = 99999" "forwarded_count z = 2" "handled z = 2" "file_text (logger z) = []"
    by (rule all_sent_two_handled)
  have "\<not> too_few EngineThread z" "\<not> too_few GatewayThread z" using z(4,5) by (simp_all add: too_few_def)
  then obtain es gs where "reports (samples EngineThread z) = Inr es" "reports (samples GatewayThread z) = Inr gs"
    using report_result [OF z(2) assms(1), of EngineThread] report_result [OF z(2) assms(1), of GatewayThread] by auto
  moreover have inv: "alpha_inv (m_world M) z" "gateway_inv (m_world M) z" using z(2) by (simp_all add: system_inv_def)
  ultimately obtain P' where P': "run_program M to_exit ((all_working M)\<lparr>sys := z\<rparr>) = Some (Inr P')" "todo P' = []" "sys P' = z"
    using to_exit_run [of z es gs M] z(3) by (auto simp: alpha_inv_def)
  have "run_program M ((make_threads @ replicate 3 Main @ [Worker EngineThread, Worker GatewayThread, Worker AlphaThread]) @ bs @ to_exit)
      (program_start M) = Some (Inr P')"
    unfolding run_steps_append [OF all_working_run [OF assms(2)]] run_steps_append [OF z(1)] by (rule P'(1))
  moreover have "length (published (AlphaOrderQueue (alpha z))) = 99999"
    "length (published (gw_LobOrderQueue (gateway z))) = 2" "length (contents (gw_SniperOrderQueue (gateway z))) = 99997"
    using inv z(3,4) by (simp_all add: alpha_inv_def gateway_inv_def)
  ultimately show ?thesis using P'(2,3) z(5,6) unfolding handled_def by blast
qed

theorem program_shutdown_loses_witness:
  "\<exists>as P. run_program demo_machine as (program_start demo_machine) = Some (Inr P) \<and> todo P = [] \<and>
    file_text (logger (sys P)) = []"
  using program_shutdown_loses [OF demo_machine_ok] by blast

end
