(* ===== verification/LoggerExample.thy ===== *)
theory LoggerExample
  imports LoggerProps AlphaProofs Fairness Spsc
begin

text \<open>
  \<open>ExamplesAndTesting/lock_free_queue/lfq_logger.cpp\<close>: a producer thread that logs ten user orders
  under the ids 0 to 9, and the logger of \<open>header/logger.h\<close> that reads them in a thread of its own,
  together with an empty second queue.  A step is one attempt of the producer to get a slot, followed
  by the writes and the publication when it got one, or one turn of the logger.  The clock is a
  parameter; the field \<open>timestamp\<close> is not written, so it keeps what the slot held.
\<close>

definition SIZE :: nat where
  "SIZE = 10"

definition example_order :: "(nat \<Rightarrow> u64) \<Rightarrow> nat \<Rightarrow> UserOrder" where
  "example_order clock cnt =
     \<lparr>uo_arrived_cycle_count = clock cnt, uo_order_id = word_of_nat cnt, uo_trader_id = 0, uo_order_type = CHR ''b'',
      uo_req_type = CHR ''r'', uo_price = f64_to_f32 (f64_mul (f64_of_nat (cnt * 100)) tenth), uo_quantity = 10,
      uo_out_cycle_count = clock cnt\<rparr>"

record example =
  cnt :: nat
  ex_logger :: Async_Logger

datatype example_actor = Producer | LoggerLoop

definition example_start :: example where
  "example_start =
     \<lparr>cnt = 0, ex_logger = \<lparr>matching_engine_queue = LFQueue_new SIZE LogElement_init,
        order_gateway_queue = LFQueue_new (SIZE * 5) LogElement_init, file_text = []\<rparr>\<rparr>"

definition producer :: "(nat \<Rightarrow> u64) \<Rightarrow> example \<Rightarrow> example outcome" where
  "producer clock s =
     (let q = order_gateway_queue (ex_logger s)
      in if cnt s < SIZE
         then case getNextToWriteTo q of
             None \<Rightarrow> Some (Inr s)
           | Some i \<Rightarrow>
               let e = (read_slot i q)\<lparr>log_id := word_of_nat (cnt s), log_data := VUserOrder (example_order clock (cnt s))\<rparr>
               in bindO (Some (updateWriteIndex (write_slot i e q))) (\<lambda>q'.
                 Some (Inr (s\<lparr>cnt := Suc (cnt s), ex_logger := (ex_logger s)\<lparr>order_gateway_queue := q'\<rparr>\<rparr>)))
         else Some (Inr s))"

fun example_step :: "(nat \<Rightarrow> u64) \<Rightarrow> example_actor \<Rightarrow> example \<Rightarrow> example outcome" where
  "example_step clock Producer s = producer clock s"
| "example_step clock LoggerLoop s =
     bindO (Some (logger_turn (ex_logger s))) (\<lambda>a. Some (Inr (s\<lparr>ex_logger := a\<rparr>)))"

text \<open>\<open>printVal\<close>, whose call is commented out: while nobody else uses the queue.\<close>

function printVal_from :: "nat \<Rightarrow> LogElement LFQueue \<Rightarrow> (nat \<times> u64) list" where
  "printVal_from i q =
     (if i < lfq_size q
      then (case getNextToRead q of None \<Rightarrow> [] | Some j \<Rightarrow> [(i, log_id (read_slot j q))]) @ printVal_from (Suc i) q
      else [])"
  by pat_completeness auto
termination by (relation "measure (\<lambda>(i, q). lfq_size q - i)") auto

declare printVal_from.simps [simp del]

definition printVal :: "LogElement LFQueue \<Rightarrow> (nat \<times> u64) list" where
  "printVal q = printVal_from 0 q"

text \<open>It never moves the read index: it prints the id of the first element once for each element.\<close>

lemma printVal_from_front:
  assumes "getNextToRead q = Some j"
  shows "printVal_from i q = map (\<lambda>k. (k, log_id (read_slot j q))) [i..<lfq_size q]"
proof (induction "lfq_size q - i" arbitrary: i)
  case (Suc n)
  have "printVal_from (Suc i) q = map (\<lambda>k. (k, log_id (read_slot j q))) [Suc i..<lfq_size q]"
    by (rule Suc(1)) (use Suc(2) in simp)
  moreover have "i < lfq_size q" using Suc(2) by simp
  ultimately show ?case by (subst printVal_from.simps) (simp add: assms upt_conv_Cons)
qed (subst printVal_from.simps, simp)

theorem printVal_repeats_front:
  assumes "lfq_inv q"
  shows "printVal q = map (\<lambda>k. (k, log_id (hd (contents q)))) [0..<length (contents q)]"
proof (cases "getNextToRead q")
  case None
  then have "lfq_size q = 0" using empty_iff_contents [OF assms] length_contents [of q] by simp
  then show ?thesis by (simp add: printVal_def printVal_from.simps)
next
  case (Some j)
  then obtain q' where "updateReadIndex q = Inr q'" using get_then_update(2) by blast
  from release_contents(2) [OF assms Some this] show ?thesis
    unfolding printVal_def printVal_from_front [OF Some] by (metis length_contents list.sel(1))
qed

subsection \<open>What the producer logs\<close>

definition is_example :: "LogElement \<Rightarrow> nat \<Rightarrow> bool" where
  "is_example e j \<longleftrightarrow> log_id e = word_of_nat j \<and> (\<exists>clock. log_data e = VUserOrder (example_order clock j))"

lemma example_price_printable:
  assumes "j \<le> 1"
  shows "printable (uo_price (example_order clock j))"
proof -
  have "j = 0 \<or> j = 1" using assms by linarith
  then show ?thesis
  proof
    assume j: "j = 0"
    have "f32_decode (f64_to_f32 (f64_mul (f64_of_nat 0) tenth)) = FFin False 0 (- 149)"
      by (simp add: f64_eval f32_eval f32_decode_def)
    then have "printable (f64_to_f32 (f64_mul (f64_of_nat 0) tenth))"
      by (intro printable_price) (simp_all add: f32_nonneg_def f32_units_def scaled_def)
    then show ?thesis by (simp add: example_order_def j)
  next
    assume j: "j = 1"
    have "f32_decode (f64_to_f32 (f64_mul (f64_of_nat 100) tenth)) = FFin False 10485760 (- 20)"
      by (simp add: f64_eval f32_eval f32_decode_def tenth_def)
    then have "printable (f64_to_f32 (f64_mul (f64_of_nat 100) tenth))"
      by (intro printable_price) (simp_all add: f32_nonneg_def f32_units_def scaled_def)
    then show ?thesis by (simp add: example_order_def j)
  qed
qed

lemma example_prints:
  assumes "is_example e j" and "j \<le> 1"
  shows "prints e"
proof -
  obtain clock where e: "log_id e = word_of_nat j" "log_data e = VUserOrder (example_order clock j)"
    using assms(1) by (auto simp: is_example_def)
  obtain t where t: "write_UserOrder (example_order clock j) = Inr t"
    using payloads_ok(1) [OF example_price_printable [OF assms(2)]] by blast
  have "\<exists>t. write_payload (log_id e) (log_data e) = Inr t"
    using assms(2) e t by (cases "j = 0") (auto simp: write_payload_def get_UserOrder_def le_Suc_eq)
  then have "\<exists>t. write_element e = Inr t"
    unfolding write_element_def by (intro lines_ok) (use line_u64_ok in auto)
  then show ?thesis by (auto simp: prints_def render_def)
qed

lemma example_third_fails:
  assumes "is_example e 2"
  shows "write_element e = Inl BadVariant"
  using assms by (intro wrong_payload) (auto simp: is_example_def log_typed_def log_id_defs)

subsection \<open>Runs\<close>

text \<open>What waits in the queue is numbered consecutively up to the producer's counter.\<close>

definition numbered :: "nat \<Rightarrow> nat \<Rightarrow> LogElement list \<Rightarrow> bool" where
  "numbered d c es \<longleftrightarrow> d \<le> 2 \<and> d \<le> c \<and> list_all2 is_example es [d..<c]"

lemma numbered_add: "numbered d c es \<Longrightarrow> is_example e c \<Longrightarrow> numbered d (Suc c) (es @ [e])"
  by (auto simp: numbered_def intro!: list_all2_appendI)

lemma numbered_length: "numbered d c es \<Longrightarrow> length es = c - d"
  unfolding numbered_def by (metis length_upt list_all2_lengthD)

lemma numbered_mem:
  assumes "numbered d c es" and "e \<in> set es"
  obtains j where "is_example e j" and "j < c"
  using assms unfolding numbered_def by (auto simp: in_set_conv_nth list_all2_conv_all_nth)

lemma numbered_split:
  assumes "numbered d c es" and "3 \<le> c"
  obtains xs x rest where "es = xs @ x # rest" and "numbered d 2 xs" and "is_example x 2"
proof -
  obtain k where "c = 2 + k" using assms(2) by (metis le_Suc_ex numeral_2_eq_2 numeral_3_eq_3 Suc_leD)
  then have "[d..<c] = [d..<2] @ [2..<c]" using assms(1) upt_add_eq_append [of d 2 k] by (simp only: numbered_def)
  also have "[2..<c] = 2 # [3..<c]" using assms(2) by (subst upt_rec) (simp add: numeral_3_eq_3 numeral_2_eq_2)
  finally show thesis using assms(1) that by (auto simp: numbered_def list_all2_append2 list_all2_Cons2)
qed

definition example_inv :: "nat \<Rightarrow> example \<Rightarrow> bool" where
  "example_inv n s \<longleftrightarrow>
     lfq_inv (matching_engine_queue (ex_logger s)) \<and> contents (matching_engine_queue (ex_logger s)) = [] \<and>
     lfq_inv (order_gateway_queue (ex_logger s)) \<and> length (store (order_gateway_queue (ex_logger s))) = 50 \<and>
     cnt s = min SIZE n \<and>
     (\<exists>d. numbered d (cnt s) (contents (order_gateway_queue (ex_logger s))))"

lemma example_start_inv: "example_inv 0 example_start"
  by (simp add: example_inv_def example_start_def LFQueue_new_inv LFQueue_new_contents SIZE_def numbered_def)
    (simp add: LFQueue_new_def)

lemma producer_inv:
  assumes inv: "example_inv n s"
  obtains s' where "producer clock s = Some (Inr s')" and "example_inv (Suc n) s'"
proof (cases "cnt s < SIZE")
  case False
  then have "producer clock s = Some (Inr s)" "example_inv (Suc n) s"
    using inv by (auto simp: producer_def example_inv_def)
  then show thesis by (rule that)
next
  case True
  let ?q = "order_gateway_queue (ex_logger s)"
  note I = inv [unfolded example_inv_def]
  have q: "lfq_inv ?q" "length (store ?q) = 50" using I by simp_all
  obtain d where d: "numbered d (cnt s) (contents ?q)" using I by blast
  have "lfq_size ?q = cnt s - d" using numbered_length [OF d] by simp
  then have "lfq_size ?q + 1 \<noteq> length (store ?q)" using True q(2) by (simp add: SIZE_def)
  then have "getNextToWriteTo ?q \<noteq> None" using full_iff_size [OF q(1)] by simp
  then obtain i where i: "getNextToWriteTo ?q = Some i" by blast
  let ?e = "(read_slot i ?q)\<lparr>log_id := word_of_nat (cnt s), log_data := VUserOrder (example_order clock (cnt s))\<rparr>"
  obtain q' where q': "updateWriteIndex (write_slot i ?e ?q) = Inr q'"
    using updateWriteIndex_after_get(2) [OF i] by blast
  note P = publish_contents [OF q(1) i q']
  let ?s = "s\<lparr>cnt := Suc (cnt s), ex_logger := (ex_logger s)\<lparr>order_gateway_queue := q'\<rparr>\<rparr>"
  have "producer clock s = Some (Inr ?s)" using True i q' by (simp add: producer_def)
  moreover have "numbered d (Suc (cnt s)) (contents q')"
    unfolding P(2) by (rule numbered_add [OF d]) (auto simp: is_example_def)
  then have "example_inv (Suc n) ?s"
    using I P(1,3) q(2) True by (auto simp: example_inv_def)
  ultimately show thesis by (rule that)
qed

lemma logger_empty_batch:
  assumes "lfq_inv q" and "contents q = []"
  shows "drainBatch q f LIMIT = Inr (False, q, f)"
proof -
  have "getNextToRead q = None" using empty_iff_contents [OF assms(1)] assms(2) by simp
  then have "drain_loop (Suc 99) q [] = Inr (q, [])" by (simp only: drain_loop.simps) simp
  then show ?thesis by (simp add: drainBatch_def LIMIT_def)
qed

lemma logger_loop_inv:
  assumes inv: "example_inv n s"
  shows "if 3 \<le> n then example_step clock LoggerLoop s = Some (Inl BadVariant)
    else \<exists>s'. example_step clock LoggerLoop s = Some (Inr s') \<and> example_inv n s'"
proof -
  let ?a = "ex_logger s"
  let ?q = "order_gateway_queue ?a"
  note I = inv [unfolded example_inv_def]
  have first: "drainBatch (matching_engine_queue ?a) (file_text ?a) LIMIT =
      Inr (False, matching_engine_queue ?a, file_text ?a)"
    by (rule logger_empty_batch) (use I in simp_all)
  obtain d where d: "numbered d (cnt s) (contents ?q)" using I by blast
  have c: "cnt s = min SIZE n" and q: "lfq_inv ?q" using I by simp_all
  show ?thesis
  proof (cases "3 \<le> n")
    case True
    then have "3 \<le> cnt s" using c by (simp add: SIZE_def)
    then obtain xs x rest where split: "contents ?q = xs @ x # rest" "numbered d 2 xs" "is_example x 2"
      by (rule numbered_split [OF d])
    have "prints e" if e: "e \<in> set xs" for e
    proof -
      obtain j where "is_example e j" "j < 2" by (rule numbered_mem [OF split(2) e])
      then show "prints e" by (intro example_prints [of e j]) linarith+
    qed
    moreover have "length xs \<le> 2" using numbered_length [OF split(2)] by simp
    ultimately have "drain_loop LIMIT ?q [] = Inl BadVariant"
      by (intro drain_loop_fault [OF q split(1) _ example_third_fails [OF split(3)]]) (simp_all add: LIMIT_def BUFFER_def)
    then show ?thesis using first True by (simp add: logger_turn_def drainBatch_def)
  next
    case False
    then have n: "cnt s = n" "n \<le> 2" using c by (simp_all add: SIZE_def)
    have "prints e" if e: "e \<in> set (contents ?q)" for e
    proof -
      obtain j where "is_example e j" "j < cnt s" by (rule numbered_mem [OF d e])
      then show "prints e" using n by (intro example_prints [of e j]) linarith+
    qed
    then obtain q' where q': "drainBatch ?q (file_text ?a) LIMIT =
        Inr (contents ?q \<noteq> [], q', file_text ?a @ concat (map render (take LIMIT (contents ?q))))"
      "lfq_inv q'" "contents q' = drop LIMIT (contents ?q)" "length (store q') = length (store ?q)"
      using drainBatch_correct [OF q] by metis
    have "length (contents ?q) \<le> 2" using numbered_length [OF d] n by simp
    then have "contents q' = []" using q'(3) by (simp add: LIMIT_def)
    then have "numbered n (cnt s) (contents q')" using n by (simp add: numbered_def)
    then have "example_inv n (s\<lparr>ex_logger := ?a\<lparr>order_gateway_queue := q',
        file_text := file_text ?a @ concat (map render (take LIMIT (contents ?q)))\<rparr>\<rparr>)"
      using I q'(2,4) by (auto simp: example_inv_def)
    then show ?thesis using first q'(1) False by (simp add: logger_turn_def)
  qed
qed

text \<open>A turn of the logger after three elements of the producer.\<close>

definition late :: "nat \<Rightarrow> example_actor list \<Rightarrow> bool" where
  "late n as \<longleftrightarrow> (\<exists>ps rest. as = ps @ LoggerLoop # rest \<and> 3 \<le> n + count_list ps Producer)"

lemma late_Cons:
  "late n (x # as) \<longleftrightarrow> x = LoggerLoop \<and> 3 \<le> n \<or> (\<exists>ps rest. as = ps @ LoggerLoop # rest \<and> 3 \<le> n + count_list (x # ps) Producer)"
  (is "_ \<longleftrightarrow> ?now \<or> ?later")
proof
  assume "late n (x # as)"
  then obtain ps rest where "x # as = ps @ LoggerLoop # rest" "3 \<le> n + count_list ps Producer" by (auto simp: late_def)
  then show "?now \<or> ?later" by (cases ps) auto
next
  assume "?now \<or> ?later"
  then show "late n (x # as)"
  proof
    assume ?now
    then show ?thesis unfolding late_def by (intro exI [of _ "[]"] exI [of _ as]) simp
  next
    assume ?later
    then obtain ps rest where "as = ps @ LoggerLoop # rest" "3 \<le> n + count_list (x # ps) Producer" by blast
    then show ?thesis unfolding late_def by (intro exI [of _ "x # ps"] exI [of _ rest]) simp
  qed
qed

lemma late_simps:
  "\<not> late n []" "late n (Producer # as) \<longleftrightarrow> late (Suc n) as" "late n (LoggerLoop # as) \<longleftrightarrow> 3 \<le> n \<or> late n as"
  unfolding late_Cons by (simp_all add: late_def)

lemma example_run:
  assumes "example_inv n s"
  shows "if late n as then run_steps (example_step clock) as s = Some (Inl BadVariant)
    else \<exists>s'. run_steps (example_step clock) as s = Some (Inr s')"
  using assms
proof (induction as arbitrary: n s)
  case (Cons a as)
  show ?case
  proof (cases a)
    case Producer
    obtain s' where "producer clock s = Some (Inr s')" "example_inv (Suc n) s'"
      by (rule producer_inv [OF Cons.prems])
    with Cons.IH show ?thesis by (simp add: Producer late_simps)
  next
    case LoggerLoop
    show ?thesis
      using logger_loop_inv [OF Cons.prems, of clock] Cons.IH by (auto simp: LoggerLoop late_simps split: if_splits)
  qed
qed (simp add: late_simps)

text \<open>
  The example ends itself: in every order of steps, from the first turn of the logger that comes
  after three elements of the producer, the third of which carries the id of a message to the engine
  and the payload of a user order, the program is terminated; in every order without such a turn it
  gets through.
\<close>
theorem example_terminates_itself:
  "run_steps (example_step clock) as example_start \<in>
     (if \<exists>ps rest. as = ps @ LoggerLoop # rest \<and> 3 \<le> count_list ps Producer then {Some (Inl BadVariant)}
      else range (\<lambda>s. Some (Inr s)))"
proof -
  note R = example_run [OF example_start_inv, of as clock, unfolded late_def add_0]
  show ?thesis
  proof (cases "\<exists>ps rest. as = ps @ LoggerLoop # rest \<and> 3 \<le> count_list ps Producer")
    case True
    then show ?thesis using R unfolding if_P [OF True] by simp
  next
    case False
    then show ?thesis using R unfolding if_not_P [OF False] by auto
  qed
qed

end
