(* ===== verification/RingExample.thy ===== *)
theory RingExample
  imports Spsc Fairness
begin

text \<open>
  \<open>ExamplesAndTesting/lock_free_queue/LFQ_Implementation_example.cpp\<close>: a producer thread that sends
  numbered elements through an \<open>LFQueue\<close> and a consumer thread that prints them.  Unlike the threads
  of the engine the consumer reads its slot only after it has released it (\<open>updateReadIndex\<close> in line
  81, the output in line 88).  A step is one access of a thread to the queue, with the statements up to
  its next access; the number of elements and of slots are parameters, the source's numbers are
  \<open>ELEMENTS\<close> and \<open>SLOTS\<close>.  Each thread's output is the list of its lines, an element and what
  \<open>lfq.size()\<close> returned: one of its two indices is the thread's own, so it is one access as well.  The
  samples of the time, which nothing reads in the threads, are left out, and so is \<open>yield\<close>.
\<close>

definition ELEMENTS :: nat where
  "ELEMENTS = 1000000"

definition SLOTS :: nat where
  "SLOTS = 5000000"

record mystruct =
  el_val :: u64
  el_val1 :: u64
  el_val2 :: u64

definition mystruct_init :: mystruct where
  "mystruct_init = \<lparr>el_val = 0, el_val1 = 0, el_val2 = 0\<rparr>"

definition mystruct_of :: "u64 \<Rightarrow> mystruct" where
  "mystruct_of cnt = \<lparr>el_val = cnt, el_val1 = cnt + 1, el_val2 = cnt + 2\<rparr>"

text \<open>Where a thread is in its loop, with its local variables: the element, and the pointer to a slot.\<close>

datatype producer_at = PLoop | PStore mystruct nat | PPublish mystruct | PPrint mystruct | PDone

datatype consumer_at = CLoop | CRelease nat | CPrint nat | CDone

record ring_example =
  ex_ring :: "mystruct LFQueue"
  p_cnt :: nat
  p_at :: producer_at
  p_out :: "(mystruct \<times> nat) list"
  c_cnt :: nat
  c_at :: consumer_at
  c_out :: "(mystruct \<times> nat) list"

datatype ring_thread = ProducerThread | ConsumerThread

definition ring_start :: "nat \<Rightarrow> ring_example" where
  "ring_start slots = \<lparr>ex_ring = LFQueue_new slots mystruct_init, p_cnt = 0, p_at = PLoop, p_out = [],
     c_cnt = 0, c_at = CLoop, c_out = []\<rparr>"

definition producer_step :: "nat \<Rightarrow> ring_example \<Rightarrow> ring_example outcome" where
  "producer_step elements s =
     (case p_at s of
        PLoop \<Rightarrow> Some (Inr
          (if p_cnt s < elements
           then case getNextToWriteTo (ex_ring s) of
               None \<Rightarrow> s
             | Some i \<Rightarrow> s\<lparr>p_at := PStore (mystruct_of (word_of_nat (p_cnt s))) i\<rparr>
           else s\<lparr>p_at := PDone\<rparr>))
      | PStore d i \<Rightarrow> Some (Inr (s\<lparr>ex_ring := write_slot i d (ex_ring s), p_at := PPublish d\<rparr>))
      | PPublish d \<Rightarrow> bindO (Some (updateWriteIndex (ex_ring s))) (\<lambda>q.
          Some (Inr (s\<lparr>ex_ring := q, p_cnt := Suc (p_cnt s), p_at := PPrint d\<rparr>)))
      | PPrint d \<Rightarrow> Some (Inr (s\<lparr>p_out := p_out s @ [(d, lfq_size (ex_ring s))], p_at := PLoop\<rparr>))
      | PDone \<Rightarrow> Some (Inr s))"

definition consumer_step :: "nat \<Rightarrow> ring_example \<Rightarrow> ring_example outcome" where
  "consumer_step elements s =
     (case c_at s of
        CLoop \<Rightarrow> Some (Inr
          (if c_cnt s < elements
           then case getNextToRead (ex_ring s) of None \<Rightarrow> s | Some j \<Rightarrow> s\<lparr>c_at := CRelease j\<rparr>
           else s\<lparr>c_at := CDone\<rparr>))
      | CRelease j \<Rightarrow> bindO (Some (updateReadIndex (ex_ring s))) (\<lambda>q.
          Some (Inr (s\<lparr>ex_ring := q, c_cnt := Suc (c_cnt s), c_at := CPrint j\<rparr>)))
      | CPrint j \<Rightarrow> Some (Inr (s\<lparr>c_out := c_out s @ [(read_slot j (ex_ring s), lfq_size (ex_ring s))], c_at := CLoop\<rparr>))
      | CDone \<Rightarrow> Some (Inr s))"

fun ring_example_step :: "nat \<Rightarrow> ring_thread \<Rightarrow> ring_example \<Rightarrow> ring_example outcome" where
  "ring_example_step elements ProducerThread s = producer_step elements s"
| "ring_example_step elements ConsumerThread s = consumer_step elements s"

subsection \<open>The invariant\<close>

text \<open>The element number \<open>k\<close>.  What was printed, if the elements before the \<open>k\<close>-th were.\<close>

abbreviation nth_element :: "nat \<Rightarrow> mystruct" where
  "nth_element k \<equiv> mystruct_of (word_of_nat k)"

definition printed_upto :: "nat \<Rightarrow> nat \<Rightarrow> (mystruct \<times> nat) list \<Rightarrow> bool" where
  "printed_upto slots k out \<longleftrightarrow> map fst out = map nth_element [0..<k] \<and> (\<forall>l \<in> set out. snd l < slots)"

lemma printed_upto_add: "printed_upto slots k out \<Longrightarrow> n < slots \<Longrightarrow> printed_upto slots (Suc k) (out @ [(nth_element k, n)])"
  by (simp add: printed_upto_def)

definition p_inv :: "nat \<Rightarrow> nat \<Rightarrow> ring_example \<Rightarrow> bool" where
  "p_inv slots elements s \<longleftrightarrow>
     (case p_at s of
        PLoop \<Rightarrow> p_cnt s \<le> elements \<and> printed_upto slots (p_cnt s) (p_out s)
      | PStore d i \<Rightarrow> p_cnt s < elements \<and> printed_upto slots (p_cnt s) (p_out s) \<and> d = nth_element (p_cnt s) \<and>
          getNextToWriteTo (ex_ring s) = Some i
      | PPublish d \<Rightarrow> p_cnt s < elements \<and> printed_upto slots (p_cnt s) (p_out s) \<and> d = nth_element (p_cnt s) \<and>
          getNextToWriteTo (ex_ring s) \<noteq> None \<and> read_slot (next_write_index (ex_ring s)) (ex_ring s) = d
      | PPrint d \<Rightarrow> p_cnt s \<le> elements \<and> 0 < p_cnt s \<and> printed_upto slots (p_cnt s - 1) (p_out s) \<and>
          d = nth_element (p_cnt s - 1)
      | PDone \<Rightarrow> p_cnt s = elements \<and> printed_upto slots (p_cnt s) (p_out s))"

text \<open>The slot that was released and is still to be read lies just before the read index.\<close>

definition c_inv :: "nat \<Rightarrow> nat \<Rightarrow> ring_example \<Rightarrow> bool" where
  "c_inv slots elements s \<longleftrightarrow>
     (case c_at s of
        CLoop \<Rightarrow> c_cnt s \<le> elements \<and> printed_upto slots (c_cnt s) (c_out s)
      | CRelease j \<Rightarrow> c_cnt s < elements \<and> printed_upto slots (c_cnt s) (c_out s) \<and> getNextToRead (ex_ring s) = Some j
      | CPrint j \<Rightarrow> c_cnt s \<le> elements \<and> 0 < c_cnt s \<and> printed_upto slots (c_cnt s - 1) (c_out s) \<and>
          next_read_index (ex_ring s) = (j + 1) mod slots \<and> read_slot j (ex_ring s) = nth_element (c_cnt s - 1)
      | CDone \<Rightarrow> c_cnt s = elements \<and> printed_upto slots (c_cnt s) (c_out s))"

definition ring_inv :: "nat \<Rightarrow> nat \<Rightarrow> ring_example \<Rightarrow> bool" where
  "ring_inv slots elements s \<longleftrightarrow>
     lfq_inv (ex_ring s) \<and> length (store (ex_ring s)) = slots \<and> c_cnt s \<le> p_cnt s \<and>
     contents (ex_ring s) = map nth_element [c_cnt s..<p_cnt s] \<and>
     p_inv slots elements s \<and> c_inv slots elements s"

text \<open>The producer never writes the slot that the consumer has released and still reads.\<close>

lemma released_slot_kept:
  assumes "getNextToWriteTo q = Some i" and "next_read_index q = (j + 1) mod length (store q)"
  shows "i \<noteq> j"
  using assms by (auto simp: getNextToWriteTo_def split: if_splits)


text \<open>How much a thread has still to do; a step lowers it, or it is a turn of a waiting loop.\<close>

fun producer_rank :: "nat \<Rightarrow> producer_at \<Rightarrow> nat" where
  "producer_rank k PLoop = 4 * k + 1"
| "producer_rank k (PStore d i) = 4 * k"
| "producer_rank k (PPublish d) = 4 * k - 1"
| "producer_rank k (PPrint d) = 4 * k + 2"
| "producer_rank k PDone = 0"

fun consumer_rank :: "nat \<Rightarrow> consumer_at \<Rightarrow> nat" where
  "consumer_rank k CLoop = 3 * k + 1"
| "consumer_rank k (CRelease j) = 3 * k"
| "consumer_rank k (CPrint j) = 3 * k + 2"
| "consumer_rank k CDone = 0"

definition ring_rank :: "nat \<Rightarrow> ring_example \<Rightarrow> nat" where
  "ring_rank elements s = producer_rank (elements - p_cnt s) (p_at s) + consumer_rank (elements - c_cnt s) (c_at s)"

text \<open>The slots the consumer and the producer wait for.\<close>

definition consumer_waits :: "nat \<Rightarrow> ring_example \<Rightarrow> bool" where
  "consumer_waits elements s \<longleftrightarrow> c_at s = CLoop \<and> c_cnt s < elements \<and> getNextToRead (ex_ring s) = None"

definition producer_waits :: "nat \<Rightarrow> ring_example \<Rightarrow> bool" where
  "producer_waits elements s \<longleftrightarrow> p_at s = PLoop \<and> p_cnt s < elements \<and> getNextToWriteTo (ex_ring s) = None"

text \<open>What the other thread may rely on, and what a step has done for the end of the run.\<close>

definition producer_moved :: "nat \<Rightarrow> nat \<Rightarrow> ring_example \<Rightarrow> ring_example \<Rightarrow> bool" where
  "producer_moved slots elements s s' \<longleftrightarrow>
     producer_step elements s = Some (Inr s') \<and> ring_inv slots elements s' \<and> c_at s' = c_at s \<and> c_cnt s' = c_cnt s \<and>
     (getNextToRead (ex_ring s) = None \<or> getNextToRead (ex_ring s') = getNextToRead (ex_ring s)) \<and>
     (if p_at s = PDone \<or> producer_waits elements s then s' = s else ring_rank elements s' < ring_rank elements s)"

definition consumer_moved :: "nat \<Rightarrow> nat \<Rightarrow> ring_example \<Rightarrow> ring_example \<Rightarrow> bool" where
  "consumer_moved slots elements s s' \<longleftrightarrow>
     consumer_step elements s = Some (Inr s') \<and> ring_inv slots elements s' \<and>
     (if c_at s = CDone \<or> consumer_waits elements s then s' = s else ring_rank elements s' < ring_rank elements s)"

lemmas producer_defs = producer_moved_def producer_step_def ring_inv_def p_inv_def producer_waits_def ring_rank_def
lemmas consumer_defs = consumer_moved_def consumer_step_def ring_inv_def c_inv_def consumer_waits_def ring_rank_def

lemma ring_invD:
  assumes "ring_inv slots elements s"
  shows "lfq_inv (ex_ring s)" and "lfq_size (ex_ring s) < slots" and "length (store (ex_ring s)) = slots"
    and "p_inv slots elements s" and "c_inv slots elements s"
  using assms lfq_size_less [of "ex_ring s"] by (auto simp: ring_inv_def)

lemma producer_stores:
  assumes inv: "ring_inv slots elements s" and p: "p_at s = PStore d i"
  shows "producer_moved slots elements s (s\<lparr>ex_ring := write_slot i d (ex_ring s), p_at := PPublish d\<rparr>)"
proof -
  note I = ring_invD [OF inv]
  have w: "getNextToWriteTo (ex_ring s) = Some i" using I(4) p by (simp add: p_inv_def)
  have i: "i = next_write_index (ex_ring s)" by (rule updateWriteIndex_after_get(1) [OF w])
  have "c_inv slots elements (s\<lparr>ex_ring := write_slot i d (ex_ring s), p_at := PPublish d\<rparr>)"
    using I(3,5) released_slot_kept [OF w]
    by (auto simp: c_inv_def read_slot_def write_slot_def getNextToRead_def split: consumer_at.splits)
  then show ?thesis
    using inv p w write_slot_contents [OF I(1) w] read_slot_write_slot(1) [OF I(1) w]
    by (auto simp: producer_defs i write_slot_def lfq_inv_def getNextToRead_def getNextToWriteTo_def)
qed

lemma producer_publishes:
  assumes inv: "ring_inv slots elements s" and p: "p_at s = PPublish d"
  shows "\<exists>q'. producer_moved slots elements s (s\<lparr>ex_ring := q', p_cnt := Suc (p_cnt s), p_at := PPrint d\<rparr>)"
proof -
  note I = ring_invD [OF inv]
  obtain i where w: "getNextToWriteTo (ex_ring s) = Some i" and d: "read_slot i (ex_ring s) = d"
    using I(4) p updateWriteIndex_after_get(1) by (fastforce simp: p_inv_def)
  obtain q' where up: "updateWriteIndex (ex_ring s) = Inr q'" using get_then_update(1) [OF w] by blast
  have same: "next_read_index q' = next_read_index (ex_ring s)" "store q' = store (ex_ring s)"
    using up by (auto simp: updateWriteIndex_def split: if_splits)
  have "c_inv slots elements (s\<lparr>ex_ring := q', p_cnt := Suc (p_cnt s), p_at := PPrint d\<rparr>)"
    using I(5) same read_after_publish [OF _ up] by (auto simp: c_inv_def read_slot_def split: consumer_at.splits)
  moreover have "getNextToRead (ex_ring s) = None \<or> getNextToRead q' = getNextToRead (ex_ring s)"
    using read_after_publish(1) [OF _ up] by (cases "getNextToRead (ex_ring s)") auto
  ultimately show ?thesis
    by (intro exI [of _ q']) (use inv p up publish_staged [OF I(1) w d up] in \<open>auto simp: producer_defs\<close>)
qed

lemma producer_moves:
  assumes inv: "ring_inv slots elements s"
  shows "\<exists>s'. producer_moved slots elements s s'"
proof (cases "p_at s")
  case PLoop
  let ?s = "if p_cnt s < elements
       then case getNextToWriteTo (ex_ring s) of None \<Rightarrow> s | Some i \<Rightarrow> s\<lparr>p_at := PStore (nth_element (p_cnt s)) i\<rparr>
       else s\<lparr>p_at := PDone\<rparr>"
  show ?thesis
    by (rule exI [of _ ?s]) (use inv PLoop in \<open>auto simp: producer_defs c_inv_def split: option.splits consumer_at.splits\<close>)
next
  case (PPrint d)
  have "printed_upto slots (p_cnt s) (p_out s @ [(d, lfq_size (ex_ring s))])"
    using ring_invD(4) [OF inv] PPrint printed_upto_add [OF _ ring_invD(2) [OF inv], of "p_cnt s - 1"]
    by (auto simp: p_inv_def)
  then show ?thesis
    by (intro exI [of _ "s\<lparr>p_out := p_out s @ [(d, lfq_size (ex_ring s))], p_at := PLoop\<rparr>"])
      (use inv PPrint in \<open>auto simp: producer_defs c_inv_def split: consumer_at.splits\<close>)
next
  case PDone
  then show ?thesis by (intro exI [of _ s]) (use inv in \<open>simp add: producer_moved_def producer_step_def\<close>)
qed (use producer_stores [OF inv] producer_publishes [OF inv] in blast)+

lemma consumer_releases:
  assumes inv: "ring_inv slots elements s" and c: "c_at s = CRelease j"
  shows "\<exists>q'. consumer_moved slots elements s (s\<lparr>ex_ring := q', c_cnt := Suc (c_cnt s), c_at := CPrint j\<rparr>)"
proof -
  note I = ring_invD [OF inv]
  have r: "getNextToRead (ex_ring s) = Some j" using I(5) c by (simp add: c_inv_def)
  obtain q' where up: "updateReadIndex (ex_ring s) = Inr q'" using get_then_update(2) [OF r] by blast
  note R = release_contents [OF I(1) r up]
  have next': "next_read_index q' = (j + 1) mod slots"
    using updateReadIndex_after_get [OF r] up I(3) by auto
  have S: "contents (ex_ring s) = map nth_element [c_cnt s..<p_cnt s]" using inv by (simp add: ring_inv_def)
  have e: "[c_cnt s..<p_cnt s] = c_cnt s # [Suc (c_cnt s)..<p_cnt s] \<and> c_cnt s < p_cnt s"
    using R(2) S by (cases "c_cnt s < p_cnt s") (auto simp: upt_rec)
  then have front: "read_slot j (ex_ring s) = nth_element (c_cnt s)" "contents q' = map nth_element [Suc (c_cnt s)..<p_cnt s]"
    using R(2) S by auto
  have "p_inv slots elements (s\<lparr>ex_ring := q', c_cnt := Suc (c_cnt s), c_at := CPrint j\<rparr>)"
    using I(4) write_after_release [OF I(1) _ up] R(3,4)
    by (auto simp: p_inv_def read_slot_def split: producer_at.splits)
  then show ?thesis
    by (intro exI [of _ q']) (use inv c R(1,3) front e up next' in \<open>auto simp: consumer_defs read_slot_def\<close>)
qed

lemma consumer_moves:
  assumes inv: "ring_inv slots elements s"
  shows "\<exists>s'. consumer_moved slots elements s s'"
proof (cases "c_at s")
  case CLoop
  let ?s = "if c_cnt s < elements
       then case getNextToRead (ex_ring s) of None \<Rightarrow> s | Some j \<Rightarrow> s\<lparr>c_at := CRelease j\<rparr>
       else s\<lparr>c_at := CDone\<rparr>"
  show ?thesis
    by (rule exI [of _ ?s]) (use inv CLoop in \<open>auto simp: consumer_defs p_inv_def split: option.splits producer_at.splits\<close>)
next
  case (CPrint j)
  have "printed_upto slots (c_cnt s) (c_out s @ [(read_slot j (ex_ring s), lfq_size (ex_ring s))])"
    using ring_invD(5) [OF inv] CPrint printed_upto_add [OF _ ring_invD(2) [OF inv], of "c_cnt s - 1"]
    by (auto simp: c_inv_def)
  then show ?thesis
    by (intro exI [of _ "s\<lparr>c_out := c_out s @ [(read_slot j (ex_ring s), lfq_size (ex_ring s))], c_at := CLoop\<rparr>"])
      (use inv CPrint in \<open>auto simp: consumer_defs p_inv_def split: producer_at.splits\<close>)
next
  case CDone
  then show ?thesis by (intro exI [of _ s]) (use inv in \<open>simp add: consumer_moved_def consumer_step_def\<close>)
qed (use consumer_releases [OF inv] in blast)

subsection \<open>Runs\<close>

definition ring_over :: "ring_example \<Rightarrow> bool" where
  "ring_over s \<longleftrightarrow> p_at s = PDone \<and> c_at s = CDone"

definition ring_awaited :: "nat \<Rightarrow> ring_example \<Rightarrow> ring_thread" where
  "ring_awaited elements s =
     (if c_at s = CDone \<or> consumer_waits elements s then ProducerThread else ConsumerThread)"

text \<open>A ring of two slots is never empty and full at once, so the two threads never wait for each other.\<close>

lemma not_both_wait:
  assumes inv: "ring_inv slots elements s" and "2 \<le> slots" and "ring_awaited elements s = ProducerThread" and "\<not> ring_over s"
  shows "p_at s \<noteq> PDone" and "\<not> producer_waits elements s"
proof -
  note I = inv [unfolded ring_inv_def]
  have "contents (ex_ring s) = []" if "consumer_waits elements s"
    using that I empty_iff_contents [of "ex_ring s"] by (auto simp: consumer_waits_def)
  then have "c_cnt s = p_cnt s \<and> lfq_size (ex_ring s) = 0" if "consumer_waits elements s"
    using that I length_contents [of "ex_ring s"] by auto
  then have "c_cnt s = p_cnt s \<and> \<not> producer_waits elements s" if "consumer_waits elements s"
    using that I assms(2) full_iff_size [of "ex_ring s"] by (auto simp: producer_waits_def)
  moreover have "c_cnt s = elements" if "c_at s = CDone" using that I by (simp add: c_inv_def)
  moreover have "p_cnt s = elements" if "p_at s = PDone" using that I by (simp add: p_inv_def)
  ultimately show "p_at s \<noteq> PDone" and "\<not> producer_waits elements s"
    using assms(3,4) I
    by (auto simp: ring_awaited_def ring_over_def consumer_waits_def producer_waits_def split: if_splits)
qed

interpretation ring_run: fair_system "ring_example_step elements" "\<lambda>s. 2 \<le> slots \<and> ring_inv slots elements s" ring_over
  "ring_rank elements" "ring_awaited elements" "\<lambda>_ _. None" for elements slots
proof
  fix a s
  assume inv: "2 \<le> slots \<and> ring_inv slots elements s"
  show "\<exists>s'. ring_example_step elements a s = Some (Inr s') \<and> (2 \<le> slots \<and> ring_inv slots elements s') \<and>
    ring_rank elements s' \<le> ring_rank elements s \<and>
    (\<not> ring_over s \<longrightarrow> (if a = ring_awaited elements s then ring_rank elements s' < ring_rank elements s
      else \<not> ring_over s' \<and> ring_awaited elements s' = ring_awaited elements s))"
  proof (cases a)
    case ProducerThread
    obtain s' where s': "producer_step elements s = Some (Inr s')" "ring_inv slots elements s'" "c_at s' = c_at s" "c_cnt s' = c_cnt s"
      "getNextToRead (ex_ring s) = None \<or> getNextToRead (ex_ring s') = getNextToRead (ex_ring s)"
      "if p_at s = PDone \<or> producer_waits elements s then s' = s else ring_rank elements s' < ring_rank elements s"
      using producer_moves [of slots elements s] inv unfolding producer_moved_def by blast
    have "ring_rank elements s' < ring_rank elements s" if "ring_awaited elements s = ProducerThread" "\<not> ring_over s"
      using not_both_wait [OF _ _ that] inv s'(6) by auto
    moreover have "\<not> ring_over s' \<and> ring_awaited elements s' = ConsumerThread" if "ring_awaited elements s \<noteq> ProducerThread"
      using that s'(3-5) by (auto simp: ring_awaited_def ring_over_def consumer_waits_def split: if_splits)
    ultimately show ?thesis
      using inv s'(1,2,6) ProducerThread by (cases "ring_awaited elements s") (auto split: if_splits)
  next
    case ConsumerThread
    obtain s' where s': "consumer_step elements s = Some (Inr s')" "ring_inv slots elements s'"
      "if c_at s = CDone \<or> consumer_waits elements s then s' = s else ring_rank elements s' < ring_rank elements s"
      using consumer_moves [of slots elements s] inv unfolding consumer_moved_def by blast
    show ?thesis
      using inv s' ConsumerThread by (auto simp: ring_awaited_def split: if_splits)
  qed
next
  show "ring_example_step elements a s = Some (Inr s)" if "2 \<le> slots \<and> ring_inv slots elements s" "ring_over s" for a s
    using that by (cases a) (simp_all add: ring_over_def producer_step_def consumer_step_def)
  show "ring_over s" if "2 \<le> slots \<and> ring_inv slots elements s" "ring_rank elements s = 0" for s
    using that by (cases "p_at s"; cases "c_at s")
      (auto simp: ring_over_def ring_rank_def ring_inv_def p_inv_def c_inv_def)
qed simp

lemma ring_start_inv: "0 < slots \<Longrightarrow> ring_inv slots elements (ring_start slots)"
  by (simp add: ring_inv_def ring_start_def p_inv_def c_inv_def printed_upto_def LFQueue_new_inv LFQueue_new_contents)
    (simp add: LFQueue_new_def)

lemma ring_printed:
  assumes "ring_inv slots elements s"
  shows "\<exists>k \<le> elements. map fst (c_out s) = map nth_element [0..<k]"
    and "\<forall>l \<in> set (c_out s) \<union> set (p_out s). snd l < slots"
    and "ring_over s \<Longrightarrow> map fst (c_out s) = map nth_element [0..<elements]"
    and "p_at s = PStore d i \<Longrightarrow> c_at s = CRelease j \<or> c_at s = CPrint j \<Longrightarrow> i \<noteq> j"
proof -
  note I = assms [unfolded ring_inv_def]
  let ?c = "case c_at s of CPrint _ \<Rightarrow> c_cnt s - 1 | _ \<Rightarrow> c_cnt s" and ?p = "case p_at s of PPrint _ \<Rightarrow> p_cnt s - 1 | _ \<Rightarrow> p_cnt s"
  have c: "?c \<le> elements \<and> printed_upto slots ?c (c_out s)" using I by (cases "c_at s") (auto simp: c_inv_def)
  have p: "?p \<le> elements \<and> printed_upto slots ?p (p_out s)" using I by (cases "p_at s") (auto simp: p_inv_def)
  show "\<exists>k \<le> elements. map fst (c_out s) = map nth_element [0..<k]"
    using c unfolding printed_upto_def by blast
  show "\<forall>l \<in> set (c_out s) \<union> set (p_out s). snd l < slots" using c p unfolding printed_upto_def by blast
  show "map fst (c_out s) = map nth_element [0..<elements]" if "ring_over s"
    using that I by (simp add: ring_over_def c_inv_def printed_upto_def)
  show "i \<noteq> j" if "p_at s = PStore d i" "c_at s = CRelease j \<or> c_at s = CPrint j"
    using that I released_slot_kept [of "ex_ring s" i j] slots_differ(1) [of "ex_ring s" i j]
    by (auto simp: p_inv_def c_inv_def)
qed

text \<open>
  C35. The consumer reads its slot after it has released it, and is right all the same, since the ring
  keeps the slot before the read index free: in every order of steps, with at least two slots, no
  assertion fails, the consumer has printed the elements 0, 1, 2, ... in their order, and the producer
  is never at a write into the slot that the consumer holds or still reads; and after any beginning
  \<open>7 n + 2\<close> fair rounds bring both threads to their ends, with all \<open>n\<close> elements printed.
\<close>
theorem ring_example_delivers:
  assumes "2 \<le> slots"
  shows "\<exists>s. run_steps (ring_example_step elements) as (ring_start slots) = Some (Inr s) \<and>
    (\<exists>k \<le> elements. map fst (c_out s) = map (\<lambda>k. mystruct_of (word_of_nat k)) [0..<k]) \<and>
    (\<forall>d i j. p_at s = PStore d i \<and> (c_at s = CRelease j \<or> c_at s = CPrint j) \<longrightarrow> i \<noteq> j) \<and>
    (\<forall>rounds. (\<forall>bs \<in> set rounds. {ProducerThread, ConsumerThread} \<subseteq> set bs) \<and> 7 * elements + 2 \<le> length rounds \<longrightarrow>
      (\<exists>s'. run_steps (ring_example_step elements) (as @ concat rounds) (ring_start slots) = Some (Inr s') \<and>
        p_at s' = PDone \<and> c_at s' = CDone \<and>
        map fst (c_out s') = map (\<lambda>k. mystruct_of (word_of_nat k)) [0..<elements]))"
proof -
  let ?run = "run_steps (ring_example_step elements)" and ?s = "ring_start slots"
  have inv: "2 \<le> slots \<and> ring_inv slots elements ?s" using assms ring_start_inv [of slots] by simp
  obtain s where s: "?run as ?s = Some (Inr s)" "ring_inv slots elements s"
    using ring_run.run_cases [OF inv, of as] by auto
  have "\<exists>s'. ?run (as @ concat rounds) ?s = Some (Inr s') \<and> p_at s' = PDone \<and> c_at s' = CDone \<and>
      map fst (c_out s') = map (\<lambda>k. mystruct_of (word_of_nat k)) [0..<elements]"
    if fair: "\<forall>bs \<in> set rounds. {ProducerThread, ConsumerThread} \<subseteq> set bs" and len: "7 * elements + 2 \<le> length rounds" for rounds
  proof -
    have F: "\<forall>bs \<in> set rounds. \<forall>s. (2 \<le> slots \<and> ring_inv slots elements s) \<and> \<not> ring_over s \<longrightarrow> ring_awaited elements s \<in> set bs"
      using fair by (auto simp: ring_awaited_def)
    have "ring_rank elements ?s \<le> length rounds" using len by (simp add: ring_rank_def ring_start_def)
    from ring_run.fair_end [OF inv F this, of as] ring_printed(3) show ?thesis
      unfolding ring_over_def faults_as_said_none by blast
  qed
  with s ring_printed(1,4) [OF s(2)] show ?thesis by blast
qed

text \<open>With the source's numbers.\<close>

theorem ring_example_delivers_witness:
  "(\<exists>s. run_steps (ring_example_step ELEMENTS) (concat (replicate 7000002 [ConsumerThread, ProducerThread])) (ring_start SLOTS) =
      Some (Inr s) \<and> map fst (c_out s) = map (\<lambda>k. mystruct_of (word_of_nat k)) [0..<ELEMENTS])"
proof -
  have "2 \<le> SLOTS" by (simp add: SLOTS_def)
  moreover have "(\<forall>bs \<in> set (replicate 7000002 [ConsumerThread, ProducerThread]). {ProducerThread, ConsumerThread} \<subseteq> set bs) \<and>
    7 * ELEMENTS + 2 \<le> length (replicate 7000002 [ConsumerThread, ProducerThread])"
    by (simp add: ELEMENTS_def)
  ultimately show ?thesis using ring_example_delivers [of SLOTS ELEMENTS "[]"] unfolding append_Nil by blast
qed

text \<open>With one slot the ring is full from the start, and nothing is ever sent.\<close>

lemma ring_of_one_slot: "run_steps (ring_example_step (Suc elements)) as (ring_start 1) = Some (Inr (ring_start 1))"
proof (induction as)
  case (Cons a as)
  have "ring_example_step (Suc elements) a (ring_start 1) = Some (Inr (ring_start 1))"
    by (cases a) (simp_all add: producer_step_def consumer_step_def ring_start_def LFQueue_new_def
        getNextToWriteTo_def getNextToRead_def)
  with Cons show ?case by simp
qed simp

end
