(* ===== verification/ThreadExample.thy ===== *)
theory ThreadExample
  imports ThreadStart
begin

text \<open>
  \<open>ExamplesAndTesting/thread/example.cpp\<close>: \<open>main\<close> starts two threads, one that is not pinned and one
  on core 1, and joins both.  The states of the two calls of \<open>createAndStartThread\<close> are those of
  \<open>ThreadStart\<close>; the second call begins when the first has returned.  What \<open>main\<close> writes and the two
  \<open>delete\<close>s are not modelled; a \<open>join\<close> on \<open>nullptr\<close> is \<open>MainFaulted\<close>.  The arguments of the function are
  temporaries of the statements of \<open>main\<close>: a thread is taken to call the function with the values it
  was made with, although it can be late for that (\<open>thread_function_outlived\<close>).
\<close>

datatype dummy_line = Called int int bool | SleepingTwoSeconds | Finished

definition dummyFunction :: "int \<Rightarrow> int \<Rightarrow> bool \<Rightarrow> dummy_line list" where
  "dummyFunction a b sleep = Called a b sleep # (if sleep then [SleepingTwoSeconds] else []) @ [Finished]"

datatype example_main = MainStarts1 | MainStarts2 | MainJoins1 | MainJoins2 | MainEnded | MainFaulted

record thread_example =
  main_at :: example_main
  start1 :: startup
  start2 :: startup
  lines1 :: "dummy_line list"
  lines2 :: "dummy_line list"

definition thread_example_start :: thread_example where
  "thread_example_start =
     \<lparr>main_at = MainStarts1, start1 = startup_new, start2 = startup_new, lines1 = [], lines2 = []\<rparr>"

text \<open>The output of the function appears when it returns.\<close>

definition returned_lines :: "startup \<Rightarrow> startup \<Rightarrow> dummy_line list \<Rightarrow> dummy_line list" where
  "returned_lines u v ls = (if body_at u = BodyRuns \<and> body_at v = BodyDone then ls else [])"

inductive thread_example_step :: "(int \<Rightarrow> bool) \<Rightarrow> thread_example \<Rightarrow> thread_example \<Rightarrow> bool" for can_pin where
  first_start: "startup_step can_pin (- 1) (start1 s) u \<Longrightarrow>
    thread_example_step can_pin s (s\<lparr>start1 := u, lines1 := lines1 s @ returned_lines (start1 s) u (dummyFunction 12 10 False)\<rparr>)"
| second_start: "main_at s \<noteq> MainStarts1 \<Longrightarrow> startup_step can_pin 1 (start2 s) u \<Longrightarrow>
    thread_example_step can_pin s (s\<lparr>start2 := u, lines2 := lines2 s @ returned_lines (start2 s) u (dummyFunction 5 15 True)\<rparr>)"
| first_returned: "main_at s = MainStarts1 \<Longrightarrow> creator_at (start1 s) = CreatorReturned b \<Longrightarrow>
    thread_example_step can_pin s (s\<lparr>main_at := MainStarts2\<rparr>)"
| second_returned: "main_at s = MainStarts2 \<Longrightarrow> creator_at (start2 s) = CreatorReturned b \<Longrightarrow>
    thread_example_step can_pin s (s\<lparr>main_at := MainJoins1\<rparr>)"
| join_first: "main_at s = MainJoins1 \<Longrightarrow> creator_at (start1 s) = CreatorReturned True \<Longrightarrow> body_at (start1 s) = BodyDone \<Longrightarrow>
    thread_example_step can_pin s (s\<lparr>main_at := MainJoins2\<rparr>)"
| join_second: "main_at s = MainJoins2 \<Longrightarrow> creator_at (start2 s) = CreatorReturned True \<Longrightarrow> body_at (start2 s) = BodyDone \<Longrightarrow>
    thread_example_step can_pin s (s\<lparr>main_at := MainEnded\<rparr>)"
| join_null: "main_at s = MainJoins1 \<and> creator_at (start1 s) = CreatorReturned False \<or>
      main_at s = MainJoins2 \<and> creator_at (start2 s) = CreatorReturned False \<Longrightarrow>
    thread_example_step can_pin s (s\<lparr>main_at := MainFaulted\<rparr>)"

inductive thread_example_reachable :: "(int \<Rightarrow> bool) \<Rightarrow> thread_example \<Rightarrow> bool" for can_pin where
  start: "thread_example_reachable can_pin thread_example_start"
| step: "thread_example_reachable can_pin s \<Longrightarrow> thread_example_step can_pin s t \<Longrightarrow> thread_example_reachable can_pin t"

subsection \<open>The invariant\<close>

text \<open>A thread that has run its function has written the function's lines, once.\<close>

definition lines_inv :: "(int \<Rightarrow> bool) \<Rightarrow> int \<Rightarrow> startup \<Rightarrow> dummy_line list \<Rightarrow> dummy_line list \<Rightarrow> bool" where
  "lines_inv can_pin core_id u out ls \<longleftrightarrow>
     startup_inv can_pin core_id u \<and> out = (if body_at u = BodyDone \<and> pins can_pin core_id then ls else [])"

definition thread_example_inv :: "(int \<Rightarrow> bool) \<Rightarrow> thread_example \<Rightarrow> bool" where
  "thread_example_inv can_pin s \<longleftrightarrow>
     lines_inv can_pin (- 1) (start1 s) (lines1 s) (dummyFunction 12 10 False) \<and>
     lines_inv can_pin 1 (start2 s) (lines2 s) (dummyFunction 5 15 True) \<and>
     (main_at s \<noteq> MainStarts1 \<longrightarrow> creator_at (start1 s) = CreatorReturned True) \<and>
     (main_at s \<notin> {MainStarts1, MainStarts2} \<longrightarrow> creator_at (start2 s) = CreatorReturned (can_pin 1)) \<and>
     (main_at s \<in> {MainJoins2, MainEnded, MainFaulted} \<longrightarrow> body_at (start1 s) = BodyDone) \<and>
     (main_at s = MainEnded \<longrightarrow> body_at (start2 s) = BodyDone \<and> can_pin 1) \<and>
     (main_at s = MainFaulted \<longrightarrow> \<not> can_pin 1)"

lemma returned_is_final:
  "startup_step can_pin core_id u v \<Longrightarrow> creator_at u = CreatorReturned b \<Longrightarrow> creator_at v = CreatorReturned b"
  "startup_step can_pin core_id u v \<Longrightarrow> body_at u = BodyDone \<Longrightarrow> body_at v = BodyDone"
  by (erule startup_stepE; simp)+

lemma returned_pins: "startup_inv can_pin core_id u \<Longrightarrow> creator_at u = CreatorReturned b \<Longrightarrow> b = pins can_pin core_id"
  by (cases b) (auto simp: startup_inv_def)

lemma lines_inv_step:
  assumes "startup_step can_pin core_id u v" and "lines_inv can_pin core_id u out ls"
  shows "lines_inv can_pin core_id v (out @ returned_lines u v ls) ls"
proof -
  have inv: "startup_inv can_pin core_id u" "startup_inv can_pin core_id v"
    using assms startup_step_inv by (auto simp: lines_inv_def)
  have "body_at v = BodyDone \<Longrightarrow> pins can_pin core_id \<Longrightarrow> body_at u \<in> {BodyRuns, BodyDone}"
    using assms(1) by (erule_tac startup_stepE) auto
  moreover have "body_at u = BodyRuns \<Longrightarrow> pins can_pin core_id" using inv(1) by (simp add: startup_inv_def)
  ultimately show ?thesis
    using assms returned_is_final(2) [OF assms(1)] inv(2) by (auto simp: lines_inv_def returned_lines_def)
qed

lemma thread_example_step_inv:
  "thread_example_step can_pin s t \<Longrightarrow> thread_example_inv can_pin s \<Longrightarrow> thread_example_inv can_pin t"
proof (induction rule: thread_example_step.induct)
  case (first_start s u)
  note lines_inv_step [OF first_start(1), of _ "dummyFunction 12 10 False"] returned_is_final [OF first_start(1)]
  then show ?case using first_start(2) by (simp add: thread_example_inv_def)
next
  case (second_start s u)
  note lines_inv_step [OF second_start(2), of _ "dummyFunction 5 15 True"] returned_is_final [OF second_start(2)]
  then show ?case using second_start(3) by (simp add: thread_example_inv_def)
next
  case (first_returned s b)
  then show ?case using returned_pins [of can_pin "- 1" "start1 s" b] by (simp add: thread_example_inv_def lines_inv_def pins_def)
next
  case (second_returned s b)
  then show ?case using returned_pins [of can_pin 1 "start2 s" b] by (simp add: thread_example_inv_def lines_inv_def pins_def)
next
  case (join_null s)
  then show ?case by (auto simp: thread_example_inv_def)
qed (simp_all add: thread_example_inv_def)

lemma thread_example_reachable_inv: "thread_example_reachable can_pin s \<Longrightarrow> thread_example_inv can_pin s"
proof (induction rule: thread_example_reachable.induct)
  case start
  then show ?case
    by (simp add: thread_example_inv_def thread_example_start_def lines_inv_def startup_inv_def startup_new_def)
next
  case (step s t)
  then show ?case using thread_example_step_inv by blast
qed

subsection \<open>Every run ends\<close>

lemma startup_goes_on:
  assumes "startup_inv can_pin core_id u"
  shows "(\<exists>v. startup_step can_pin core_id u v \<and> v \<noteq> u) \<or> (\<exists>b. creator_at u = CreatorReturned b) \<and> body_at u = BodyDone"
  using body_moves [of u can_pin core_id] creator_moves [OF assms] unfolding moves_def by blast

lemma first_goes_on:
  assumes "startup_step can_pin (- 1) (start1 s) u" and "u \<noteq> start1 s"
  shows "\<exists>t. thread_example_step can_pin s t \<and> t \<noteq> s"
proof -
  let ?t = "s\<lparr>start1 := u, lines1 := lines1 s @ returned_lines (start1 s) u (dummyFunction 12 10 False)\<rparr>"
  have "start1 ?t \<noteq> start1 s" using assms(2) by simp
  then show ?thesis using first_start [of can_pin s u] assms(1) by fastforce
qed

lemma second_goes_on:
  assumes "main_at s \<noteq> MainStarts1" and "startup_step can_pin 1 (start2 s) u" and "u \<noteq> start2 s"
  shows "\<exists>t. thread_example_step can_pin s t \<and> t \<noteq> s"
proof -
  let ?t = "s\<lparr>start2 := u, lines2 := lines2 s @ returned_lines (start2 s) u (dummyFunction 5 15 True)\<rparr>"
  have "start2 ?t \<noteq> start2 s" using assms(3) by simp
  then show ?thesis using second_start [of s can_pin u] assms(1,2) by fastforce
qed

lemma main_goes_on:
  assumes "thread_example_step can_pin s (s\<lparr>main_at := m\<rparr>)" and "main_at s \<noteq> m"
  shows "\<exists>t. thread_example_step can_pin s t \<and> t \<noteq> s"
proof -
  have "main_at (s\<lparr>main_at := m\<rparr>) \<noteq> main_at s" using assms(2) by simp
  then show ?thesis using assms(1) by fastforce
qed

lemma thread_example_goes_on:
  assumes inv: "thread_example_inv can_pin s" and "main_at s \<notin> {MainEnded, MainFaulted}"
  shows "\<exists>t. thread_example_step can_pin s t \<and> t \<noteq> s"
proof -
  note I = inv [unfolded thread_example_inv_def lines_inv_def]
  have 1: "(\<exists>u. startup_step can_pin (- 1) (start1 s) u \<and> u \<noteq> start1 s) \<or>
      (\<exists>b. creator_at (start1 s) = CreatorReturned b) \<and> body_at (start1 s) = BodyDone"
    using I by (intro startup_goes_on) simp
  have 2: "(\<exists>u. startup_step can_pin 1 (start2 s) u \<and> u \<noteq> start2 s) \<or>
      (\<exists>b. creator_at (start2 s) = CreatorReturned b) \<and> body_at (start2 s) = BodyDone"
    using I by (intro startup_goes_on) simp
  show ?thesis
  proof (cases "main_at s")
    case MainStarts1
    then show ?thesis using 1 first_goes_on main_goes_on [OF first_returned] by auto
  next
    case MainStarts2
    then show ?thesis using 2 second_goes_on main_goes_on [OF second_returned] by auto
  next
    case MainJoins1
    then show ?thesis using 1 I first_goes_on main_goes_on [OF join_first] by auto
  next
    case MainJoins2
    then show ?thesis
      using 2 I second_goes_on main_goes_on [OF join_second] main_goes_on [OF join_null]
      by (cases "can_pin 1") auto
  qed (use assms(2) in simp_all)
qed

text \<open>
  The example ends with the lines of both functions when core 1 can be pinned, and calls \<open>join\<close> on a
  null pointer when it cannot: the first never happens without the core nor the second with it, and in
  every other state some thread can take a step that changes it.
\<close>
theorem thread_example_ends_iff_pinned:
  assumes "thread_example_reachable can_pin s"
  shows "(main_at s = MainEnded \<longrightarrow>
      can_pin 1 \<and> lines1 s = dummyFunction 12 10 False \<and> lines2 s = dummyFunction 5 15 True) \<and>
    (main_at s = MainFaulted \<longrightarrow> \<not> can_pin 1 \<and> lines1 s = dummyFunction 12 10 False \<and> lines2 s = []) \<and>
    (main_at s \<in> {MainEnded, MainFaulted} \<or> (\<exists>t. thread_example_step can_pin s t \<and> t \<noteq> s))"
  using thread_example_reachable_inv [OF assms] thread_example_goes_on [of can_pin s]
  by (auto simp: thread_example_inv_def lines_inv_def pins_def)

end
