(* ===== verification/ClockRate.thy ===== *)
theory ClockRate
  imports Bench "HOL-Library.Signed_Division"
begin

text \<open>
  \<open>bench.h\<close>: \<open>get_cycle_per_ns\<close>, which reads the clock and the cycle counter, spins for 50
  milliseconds, reads them again and divides; and \<open>convert\<close>, the function in \<open>showBenchmark\<close> that would
  use the quotient and is never called.  \<open>ExamplesAndTesting/test.cpp\<close> holds an earlier version that
  spins for 200 milliseconds and subtracts the other way round.

  The readings are parameters: \<open>clock i\<close> is the \<open>i\<close>-th value of \<open>high_resolution_clock::now()\<close> in
  nanoseconds (\<open>clock 0\<close> is \<open>stTime\<close>), \<open>tsc i\<close> the value of \<open>now_cycle()\<close> right after it.  A \<open>double\<close>
  with a sign is a pair of the sign and a \<open>f64\<close>; \<open>None\<close> is a quotient that is not finite.
\<close>

text \<open>
  The quotient of two doubles.  The integer quotient has at least 67 bits, and the last bit tells
  whether there is a remainder, so the one rounding that follows is that of the exact quotient.
\<close>

definition f64_div :: "f64 \<Rightarrow> f64 \<Rightarrow> f64 option" where
  "f64_div a b =
     (if fst b = 0 then None
      else let n = fst a * 2 ^ 120
        in Some (f64_round (2 * (n div fst b) + (if n mod fst b = 0 then 0 else 1)) (snd a - snd b - 121)))"

definition signed_div :: "bool \<times> f64 \<Rightarrow> bool \<times> f64 \<Rightarrow> (bool \<times> f64) option" where
  "signed_div a b = map_option (Pair (fst a \<noteq> fst b)) (f64_div (snd a) (snd b))"

definition f64_of_int :: "int \<Rightarrow> bool \<times> f64" where
  "f64_of_int i = (i < 0, f64_of_nat (nat \<bar>i\<bar>))"

text \<open>\<open>duration_cast<milliseconds>(t).count()\<close> for a duration in nanoseconds.\<close>

definition millis :: "int \<Rightarrow> int" where
  "millis t = t sdiv 1000000"

partial_function (option) spin_until :: "int \<Rightarrow> (nat \<Rightarrow> int) \<Rightarrow> nat \<Rightarrow> nat option" where
  "spin_until ms clock i = (if millis (clock i - clock 0) < ms then spin_until ms clock (Suc i) else Some i)"

text \<open>Not returning is the outer \<open>None\<close>.\<close>

definition get_cycle_per_ns :: "(nat \<Rightarrow> int) \<Rightarrow> (nat \<Rightarrow> u64) \<Rightarrow> (bool \<times> f64) option option" where
  "get_cycle_per_ns clock tsc =
     map_option (\<lambda>i.
       let cycles = tsc i - tsc 0;
           timePassed = f64_of_int (clock 0 - clock (Suc i))
       in signed_div (False, f64_of_nat (unat cycles)) timePassed) (spin_until 50 clock 1)"

definition test_get_cycle_per_ns :: "(nat \<Rightarrow> int) \<Rightarrow> (nat \<Rightarrow> u64) \<Rightarrow> (bool \<times> f64) option option" where
  "test_get_cycle_per_ns clock tsc =
     map_option (\<lambda>i.
       let cycles = tsc i - tsc 0;
           timePassed = f64_of_int (clock (Suc i) - clock 0)
       in signed_div (False, f64_of_nat (unat cycles)) timePassed) (spin_until 200 clock 1)"

text \<open>
  The conversion of a \<open>double\<close> to \<open>uint64_t\<close> is undefined when the value without its fraction does
  not fit; a negative value above \<open>-1\<close> gives 0.
\<close>

definition f64_to_u64 :: "bool \<times> f64 \<Rightarrow> u64 result" where
  "f64_to_u64 x =
     (let n = f64_to_size (snd x)
      in if fst x \<and> n \<noteq> 0 \<or> 2 ^ 64 \<le> n then Inl BadCast else Inr (word_of_nat n))"

definition convert :: "bool \<times> f64 \<Rightarrow> u64 \<Rightarrow> u64 result" where
  "convert cpns cycleCount =
     (case signed_div (False, f64_of_nat (unat cycleCount)) cpns of
        None \<Rightarrow> Inl BadCast
      | Some x \<Rightarrow> f64_to_u64 x)"

subsection \<open>The waiting loop\<close>

lemma millis_less:
  assumes "0 < ms"
  shows "millis t < ms \<longleftrightarrow> t < ms * 1000000"
proof (cases "0 < t")
  case True
  then have "millis t = t div 1000000" by (simp add: millis_def signed_divide_int_def)
  moreover have "t = 1000000 * (t div 1000000) + t mod 1000000" "0 \<le> t mod 1000000" "t mod 1000000 < 1000000" by simp_all
  then have "t div 1000000 < ms \<longleftrightarrow> t < ms * 1000000" by linarith
  ultimately show ?thesis by simp
next
  case False
  then have "0 \<le> - t div 1000000" by (simp add: pos_imp_zdiv_nonneg_iff)
  then have "millis t \<le> 0" by (simp add: millis_def signed_divide_int_def sgn_if)
  then show ?thesis using False assms by linarith
qed

text \<open>It returns as soon as the clock shows that the time has passed, and not before.\<close>

lemma spin_until_first:
  assumes "i \<le> n" and "\<forall>j. i \<le> j \<and> j < n \<longrightarrow> millis (clock j - clock 0) < ms" and "\<not> millis (clock n - clock 0) < ms"
  shows "spin_until ms clock i = Some n"
  using assms
proof (induction "n - i" arbitrary: i)
  case 0
  then show ?case by (simp add: spin_until.simps)
next
  case (Suc k)
  then have "i < n" by linarith
  with Suc have "spin_until ms clock (Suc i) = Some n" by simp
  moreover have "millis (clock i - clock 0) < ms" using Suc.prems(2) \<open>i < n\<close> by blast
  ultimately show ?case by (subst spin_until.simps) simp
qed

lemma spin_until_Some:
  assumes "spin_until ms clock i = Some n"
  shows "i \<le> n \<and> \<not> millis (clock n - clock 0) < ms"
  by (rule spin_until.raw_induct [where P = "\<lambda>ms clock i n. i \<le> n \<and> \<not> millis (clock n - clock 0) < ms", OF _ assms])
    (fastforce split: if_splits)

lemma spin_until_returns:
  assumes "0 < ms"
  shows "spin_until ms clock 1 = None \<longleftrightarrow> (\<forall>i \<ge> 1. clock i - clock 0 < ms * 1000000)"
proof
  assume none: "spin_until ms clock 1 = None"
  show "\<forall>i \<ge> 1. clock i - clock 0 < ms * 1000000"
  proof (rule ccontr)
    let ?P = "\<lambda>i. 1 \<le> i \<and> \<not> millis (clock i - clock 0) < ms"
    assume "\<not> (\<forall>i \<ge> 1. clock i - clock 0 < ms * 1000000)"
    then obtain i where "?P i" using millis_less [OF assms] by auto
    then obtain n where "?P n" "\<forall>j < n. \<not> ?P j" using exists_least_iff [of ?P] by blast
    then have "spin_until ms clock 1 = Some n" by (intro spin_until_first) auto
    with none show False by simp
  qed
next
  assume "\<forall>i \<ge> 1. clock i - clock 0 < ms * 1000000"
  then show "spin_until ms clock 1 = None"
    using spin_until_Some [of ms clock 1] millis_less [OF assms] by (cases "spin_until ms clock 1") auto
qed

subsection \<open>The quotient\<close>

lemma f64_round_ge_one:
  assumes "1 \<le> m" and "e < 0 \<Longrightarrow> 2 ^ nat (- e) \<le> m"
  shows "1 \<le> f64_to_size (f64_round m e)"
proof -
  define q where "q = round_exp 53 (- 1074) m e"
  have r: "f64_round m e = (round_mant m e q, q)" using assms(1) by (simp add: f64_round_def q_def Let_def)
  show ?thesis
  proof (cases "q \<le> e")
    case True
    have "2 ^ nat (- q) \<le> m * 2 ^ nat (e - q)" if "q < 0"
    proof (cases "0 \<le> e")
      case True
      then have "(2::nat) ^ nat (- q) \<le> 2 ^ nat (e - q)" by (intro power_increasing) simp_all
      also have "\<dots> \<le> m * 2 ^ nat (e - q)" using assms(1) by simp
      finally show ?thesis .
    next
      case False
      then have "nat (- q) = nat (- e) + nat (e - q)" using \<open>q \<le> e\<close> by simp
      then show ?thesis using assms(2) False by (simp add: power_add)
    qed
    then show ?thesis
      using True assms(1) unfolding r f64_to_size_def trunc_val_def round_mant_def
      by (cases "q < 0") (simp_all add: div_greater_zero_iff Suc_le_eq)
  next
    case False
    define k where "k = nat (q - e)"
    have k: "q = e + int k" "0 < k" using False by (simp_all add: k_def)
    have mant: "round_mant m e q = rne_shift m k" using False by (simp add: round_mant_def k_def)
    show ?thesis
    proof (cases "q \<le> 0")
      case True
      have "nat (- e) = nat (- q) + k" using True k by simp
      moreover have "e < 0" using True k by simp
      ultimately have "2 ^ (nat (- q) + k) \<le> m" using assms(2) by simp
      then have "2 ^ nat (- q) \<le> rne_shift m k" by (rule rne_shift_lower)
      then show ?thesis
        using True unfolding r f64_to_size_def trunc_val_def mant
        by (cases "q < 0") (simp_all add: div_greater_zero_iff Suc_le_eq)
    next
      case q0: False
      then have "q = e + int (floorlog 2 m) - 53" by (auto simp: q_def round_exp_def max_def split: if_splits)
      then have fl: "floorlog 2 m = 53 + k" using k by simp
      have "0 < m" using assms(1) by simp
      from floorlog_bounds2(2) [OF this] have "2 ^ (52 + k) \<le> m" unfolding fl by simp
      then have "2 ^ 52 \<le> rne_shift m k" by (rule rne_shift_lower)
      then have "0 < rne_shift m k" by (rule order_less_le_trans [rotated]) simp
      then show ?thesis using q0 unfolding r f64_to_size_def trunc_val_def mant by simp
    qed
  qed
qed

lemma f64_div_ge_one:
  assumes "f64_div a b = Some x" and "0 < fst a" and "fst b * 2 ^ nat (snd b - snd a) \<le> fst a * 2 ^ nat (snd a - snd b)"
  shows "1 \<le> f64_to_size x"
proof -
  let ?n = "fst a * 2 ^ 120" and ?d = "snd a - snd b"
  let ?m = "2 * (?n div fst b) + (if ?n mod fst b = 0 then 0 else 1)"
  have b: "0 < fst b" and x: "x = f64_round ?m (?d - 121)" using assms(1) by (auto simp: f64_div_def Let_def split: if_splits)
  have "?n div fst b \<noteq> 0 \<or> ?n mod fst b \<noteq> 0" using b assms(2) by (metis div_mult_mod_eq add_0 mult_0 mult_eq_0_iff neq0_conv power_not_zero zero_neq_numeral)
  then have one: "1 \<le> ?m" by auto
  have "2 ^ nat (121 - ?d) \<le> ?m" if "?d < 121"
  proof -
    define j where "j = nat (120 - ?d)"
    have "fst b * 2 ^ j \<le> ?n"
    proof (cases "0 \<le> ?d")
      case True
      have "fst b * 2 ^ j \<le> fst a * 2 ^ nat ?d * 2 ^ j" using assms(3) True by (intro mult_right_mono) simp_all
      also have "\<dots> = ?n" using True that by (simp add: j_def flip: power_add nat_add_distrib)
      finally show ?thesis .
    next
      case False
      then have "fst b * 2 ^ nat (- ?d) * 2 ^ 120 \<le> ?n" using assms(3) by (intro mult_right_mono) simp_all
      moreover have "j = nat (- ?d) + 120" using False by (simp add: j_def)
      ultimately show ?thesis by (simp add: power_add mult.assoc)
    qed
    then have "2 ^ j \<le> ?n div fst b" using b by (simp add: less_eq_div_iff_mult_less_eq mult.commute)
    moreover have "nat (121 - ?d) = Suc j" using that by (simp add: j_def)
    ultimately show ?thesis by simp
  qed
  then have "2 ^ nat (- (?d - 121)) \<le> ?m" if "?d - 121 < 0" using that by simp
  from f64_round_ge_one [OF one this] show ?thesis unfolding x .
qed

lemma f64_of_nat_exact:
  assumes "0 < n" and "n < 2 ^ 53"
  shows "\<exists>j. f64_of_nat n = (n * 2 ^ j, - int j)"
proof -
  let ?L = "floorlog 2 n"
  have "?L \<le> 53" by (rule floorlog_leI) (use assms(2) in simp_all)
  moreover have "nat (53 - int ?L) = 53 - ?L" by simp
  ultimately have "f64_of_nat n = (n * 2 ^ (53 - ?L), - int (53 - ?L))"
    using assms(1) by (simp add: f64_of_nat_def f64_round_def round_mant_def round_exp_def)
  then show ?thesis by blast
qed

text \<open>
  A conversion with a negative rate is undefined as soon as the number of cycles is as large as the
  rate; \<open>fst q * 2 powr snd q \<le> k\<close> is written with integers.
\<close>

lemma convert_negative:
  assumes "0 < unat k" and "unat k < 2 ^ 53" and le: "fst q * 2 ^ nat (snd q) \<le> unat k * 2 ^ nat (- snd q)"
  shows "convert (True, q) k = Inl BadCast"
proof (cases "f64_div (f64_of_nat (unat k)) q")
  case (Some x)
  obtain j where j: "f64_of_nat (unat k) = (unat k * 2 ^ j, - int j)" using f64_of_nat_exact [OF assms(1,2)] by blast
  have "fst q * 2 ^ nat (snd q + int j) \<le> unat k * 2 ^ j * 2 ^ nat (- int j - snd q)"
  proof (cases "0 \<le> snd q + int j")
    case True
    have "fst q * 2 ^ nat (snd q) * 2 ^ (nat (snd q + int j) - nat (snd q)) \<le>
      unat k * 2 ^ nat (- snd q) * 2 ^ (nat (snd q + int j) - nat (snd q))"
      using le by (rule mult_right_mono) simp
    moreover have "nat (snd q) + (nat (snd q + int j) - nat (snd q)) = nat (snd q + int j)"
      "nat (- snd q) + (nat (snd q + int j) - nat (snd q)) = j" using True by simp_all
    ultimately show ?thesis using True by (simp only: mult.assoc flip: power_add) simp
  next
    case False
    then have "nat (snd q) = 0" "j + nat (- int j - snd q) = nat (- snd q)" by simp_all
    then show ?thesis using False le by (simp add: mult.assoc flip: power_add)
  qed
  then have "1 \<le> f64_to_size x" using f64_div_ge_one [OF Some] assms(1) by (simp add: j)
  then show ?thesis using Some by (simp add: convert_def signed_div_def f64_to_u64_def)
qed (simp add: convert_def signed_div_def)

lemma f64_of_nat_pos:
  assumes "0 < n"
  shows "0 < fst (f64_of_nat n)"
proof -
  have "1 \<le> f64_to_size (f64_of_nat n)" unfolding f64_of_nat_def by (rule f64_round_ge_one) (use assms in simp_all)
  then show ?thesis by (cases "fst (f64_of_nat n) = 0") (simp_all add: f64_to_size_def trunc_val_def split: if_splits)
qed

subsection \<open>The rate\<close>

text \<open>What was measured: a number of cycles and of nanoseconds, after the clock showed the time.\<close>

lemma spin_until_elapsed:
  assumes mono: "\<forall>i. clock i \<le> clock (Suc i)" and "0 < ms" and "spin_until ms clock 1 = Some n"
  shows "ms * 1000000 \<le> clock n - clock 0" and "ms * 1000000 \<le> clock (Suc n) - clock 0"
  using spin_until_Some [OF assms(3)] millis_less [OF assms(2)] mono [rule_format, of n] by auto

lemma signed_div_nanoseconds:
  assumes "0 < \<bar>t\<bar>"
  shows "\<exists>q. signed_div (False, a) (f64_of_int t) = Some (t < 0, q) \<and> f64_div a (f64_of_nat (nat \<bar>t\<bar>)) = Some q"
  using f64_of_nat_pos [of "nat \<bar>t\<bar>"] assms by (simp add: signed_div_def f64_of_int_def f64_div_def Let_def)

text \<open>
  C37. On a clock that never goes back \<open>get_cycle_per_ns\<close> returns exactly when the clock at some time
  shows 50 milliseconds, and what it then returns is the negative of the rate: the cycles of at least 50
  milliseconds, divided by the nanoseconds of the whole measurement, with the sign of their negation.
  Converting with it any number of cycles from that rate up to \<open>2 ^ 53\<close> would be undefined.
\<close>
theorem cycle_rate_is_negative:
  assumes "\<forall>i. clock i \<le> clock (Suc i)"
  shows "(get_cycle_per_ns clock tsc = None \<longleftrightarrow> (\<forall>i \<ge> 1. clock i - clock 0 < 50000000)) \<and>
    (\<forall>r. get_cycle_per_ns clock tsc = Some r \<longrightarrow>
      (\<exists>n q. r = Some (True, q) \<and> 50000000 \<le> clock n - clock 0 \<and>
        f64_div (f64_of_nat (unat (tsc n - tsc 0))) (f64_of_nat (nat (clock (Suc n) - clock 0))) = Some q \<and>
        (\<forall>k. 0 < unat k \<and> unat k < 2 ^ 53 \<and> fst q * 2 ^ nat (snd q) \<le> unat k * 2 ^ nat (- snd q) \<longrightarrow>
          convert (True, q) k = Inl BadCast)))"
proof -
  have "\<exists>n q. r = Some (True, q) \<and> 50000000 \<le> clock n - clock 0 \<and>
      f64_div (f64_of_nat (unat (tsc n - tsc 0))) (f64_of_nat (nat (clock (Suc n) - clock 0))) = Some q"
    if R: "get_cycle_per_ns clock tsc = Some r" for r
  proof -
    obtain n where n: "spin_until 50 clock 1 = Some n" and
      r: "r = signed_div (False, f64_of_nat (unat (tsc n - tsc 0))) (f64_of_int (clock 0 - clock (Suc n)))"
      using R by (auto simp: get_cycle_per_ns_def Let_def)
    note E = spin_until_elapsed [OF assms _ n]
    then have "clock 0 - clock (Suc n) < 0" "\<bar>clock 0 - clock (Suc n)\<bar> = clock (Suc n) - clock 0" by simp_all
    then show ?thesis
      using E signed_div_nanoseconds [of "clock 0 - clock (Suc n)" "f64_of_nat (unat (tsc n - tsc 0))"] r by auto
  qed
  moreover have "get_cycle_per_ns clock tsc = None \<longleftrightarrow> (\<forall>i \<ge> 1. clock i - clock 0 < 50000000)"
    using spin_until_returns [of 50 clock] by (simp add: get_cycle_per_ns_def)
  ultimately show ?thesis using convert_negative by blast
qed

text \<open>Twenty-five readings per 50 milliseconds at 3 cycles per nanosecond; then a clock that stands still.\<close>

theorem cycle_rate_is_negative_witness:
  "(\<exists>q. get_cycle_per_ns (\<lambda>i. int i * 2000000) (\<lambda>i. word_of_nat (i * 6000000)) = Some (Some (True, q))) \<and>
    get_cycle_per_ns (\<lambda>_. 7) (\<lambda>_. 0) = None"
proof -
  let ?clock = "\<lambda>i. int i * 2000000" and ?tsc = "\<lambda>i. word_of_nat (i * 6000000)"
  have "\<forall>i. ?clock i \<le> ?clock (Suc i)" by simp
  note C = cycle_rate_is_negative [OF this, of ?tsc]
  have "\<not> (\<forall>i \<ge> 1. ?clock i - ?clock 0 < 50000000)" by (auto intro!: exI [of _ 25])
  then obtain r where "get_cycle_per_ns ?clock ?tsc = Some r" using C by blast
  then have "\<exists>q. get_cycle_per_ns ?clock ?tsc = Some (Some (True, q))" using C by blast
  moreover have "get_cycle_per_ns (\<lambda>_. 7) (\<lambda>_. 0) = None"
    using cycle_rate_is_negative [of "\<lambda>_. 7" "\<lambda>_. 0"] by simp
  ultimately show ?thesis by blast
qed

text \<open>The earlier version subtracts the other way round and gets the rate itself.\<close>

theorem test_cycle_rate_is_positive:
  assumes "\<forall>i. clock i \<le> clock (Suc i)" and "test_get_cycle_per_ns clock tsc = Some r"
  shows "\<exists>n q. r = Some (False, q) \<and> 200000000 \<le> clock n - clock 0 \<and>
    f64_div (f64_of_nat (unat (tsc n - tsc 0))) (f64_of_nat (nat (clock (Suc n) - clock 0))) = Some q"
proof -
  obtain n where n: "spin_until 200 clock 1 = Some n" and
    r: "r = signed_div (False, f64_of_nat (unat (tsc n - tsc 0))) (f64_of_int (clock (Suc n) - clock 0))"
    using assms(2) by (auto simp: test_get_cycle_per_ns_def Let_def)
  note E = spin_until_elapsed [OF assms(1) _ n]
  then have "\<not> clock (Suc n) - clock 0 < 0" "\<bar>clock (Suc n) - clock 0\<bar> = clock (Suc n) - clock 0" by simp_all
  then show ?thesis
    using E signed_div_nanoseconds [of "clock (Suc n) - clock 0" "f64_of_nat (unat (tsc n - tsc 0))"] r by auto
qed

text \<open>Three cycles in two nanoseconds: the rate and what converting 3000 cycles would give, either way.\<close>

lemma convert_examples:
  "signed_div (False, f64_of_nat 3) (f64_of_int (- 2)) = Some (True, 6755399441055744, - 52)"
  "convert (True, 6755399441055744, - 52) 3000 = Inl BadCast"
  "convert (False, 6755399441055744, - 52) 3000 = Inr 2000"
  by (simp_all add: convert_def signed_div_def f64_of_int_def f64_div_def f64_to_u64_def f64_eval round_exp_def
      round_mant_def rne_shift_def trunc_val_def compute_floorlog Let_def)

end
