(* ===== verification/MemPool.thy ===== *)
theory MemPool
  imports Prelude
begin

text \<open>
  \<open>header/memoryPool.h\<close>, which no file includes and which does not compile.  Four of the names it does
  not declare are misspellings of a member (\<open>ObjectB4lock\<close>, \<open>store\<close>, \<open>stor_\<close>, \<open>is_free_\<close>) and are read as
  it; the other two, \<open>high_water_mark\<close> in \<open>allocate\<close> and \<open>index\<close> in \<open>dealloctate\<close>, could be anything, and
  are arguments of the definitions, a new one at each call.  A pointer to an object is the index of its
  block.  \<open>allocate\<close> gets the object that \<open>T(args...)\<close> constructs.  A failed \<open>ASSERT\<close> ends the process,
  and so does \<open>std::terminate\<close>.
\<close>

record 'a ObjectBlock =
  obj :: 'a
  is_free :: bool

record 'a MemPool =
  blocks :: "'a ObjectBlock list"
  free_index :: "nat list"
  high_ind :: nat
  pool_capacity :: nat
  next_free_index :: nat

datatype pool_error = NoSpaceLeft | BadIndex | PoolAssertion

text \<open>
  The constructor looks at block 0, which an empty pool does not have; its assertion, that the object
  is the first member, holds for the layout of \<open>ObjectBlock\<close>.
\<close>

definition MemPool_new :: "'a \<Rightarrow> nat \<Rightarrow> pool_error + 'a MemPool" where
  "MemPool_new d num_elems =
     (let store = replicate num_elems \<lparr>obj = d, is_free = True\<rparr>
      in if store = [] then Inl BadIndex
         else Inr \<lparr>blocks = store, free_index = replicate num_elems 0, high_ind = 0, pool_capacity = num_elems,
           next_free_index = 0\<rparr>)"

definition allocate_index :: "nat \<Rightarrow> 'a MemPool \<Rightarrow> pool_error + nat \<times> 'a MemPool" where
  "allocate_index high_water_mark p =
     (if free_index p \<noteq> [] then Inr (last (free_index p), p\<lparr>free_index := butlast (free_index p)\<rparr>)
      else if high_water_mark < pool_capacity p then Inr (high_water_mark, p)
      else Inl NoSpaceLeft)"

definition allocate :: "nat \<Rightarrow> 'a \<Rightarrow> 'a MemPool \<Rightarrow> pool_error + nat \<times> 'a MemPool" where
  "allocate high_water_mark x p =
     (case allocate_index high_water_mark p of
        Inl e \<Rightarrow> Inl e
      | Inr (i, p') \<Rightarrow>
          if i < length (blocks p') then Inr (i, p'\<lparr>blocks := (blocks p')[i := \<lparr>obj = x, is_free = False\<rparr>]\<rparr>)
          else Inl BadIndex)"

definition dealloctate :: "int \<Rightarrow> nat \<Rightarrow> 'a MemPool \<Rightarrow> pool_error + 'a MemPool" where
  "dealloctate elem_index index p =
     (if \<not> (elem_index \<ge> 0 \<and> size_of_int elem_index \<noteq> 0) then Inl PoolAssertion
      else let i = size_of_int elem_index
        in if \<not> i < length (blocks p) then Inl BadIndex
           else if is_free (blocks p ! i) then Inl PoolAssertion
           else Inr (p\<lparr>blocks := (blocks p)[i := (blocks p ! i)\<lparr>is_free := True\<rparr>], free_index := free_index p @ [index]\<rparr>))"

text \<open>Several allocations one after the other, with what each finds in \<open>high_water_mark\<close>.\<close>

fun allocates :: "(nat \<times> 'a) list \<Rightarrow> 'a MemPool \<Rightarrow> pool_error + nat list \<times> 'a MemPool" where
  "allocates [] p = Inr ([], p)"
| "allocates ((h, x) # xs) p =
     (case allocate h x p of
        Inl e \<Rightarrow> Inl e
      | Inr (i, p') \<Rightarrow>
          (case allocates xs p' of Inl e \<Rightarrow> Inl e | Inr (js, p'') \<Rightarrow> Inr (i # js, p'')))"

text \<open>A pool whose free list holds \<open>k\<close> times the index 0.\<close>

definition zeros_free :: "nat \<Rightarrow> 'a MemPool \<Rightarrow> bool" where
  "zeros_free k p \<longleftrightarrow> free_index p = replicate k 0 \<and> 0 < length (blocks p)"

lemma allocate_zero:
  assumes "zeros_free (Suc k) p"
  obtains p' where "allocate h x p = Inr (0, p')" and "zeros_free k p'" and "obj (blocks p' ! 0) = x"
    and "length (blocks p') = length (blocks p)" and "pool_capacity p' = pool_capacity p"
proof (rule that)
  let ?p = "p\<lparr>free_index := replicate k 0, blocks := (blocks p)[0 := \<lparr>obj = x, is_free = False\<rparr>]\<rparr>"
  have "free_index p = replicate k 0 @ [0]" using assms by (simp add: zeros_free_def replicate_append_same)
  then have free: "free_index p \<noteq> []" "last (free_index p) = 0" "butlast (free_index p) = replicate k 0"
    by (simp_all only: last_snoc butlast_snoc) simp
  have "0 < length (blocks p)" using assms by (simp add: zeros_free_def)
  then show "allocate h x p = Inr (0, ?p)" by (simp add: allocate_def allocate_index_def free)
  show "zeros_free k ?p" "obj (blocks ?p ! 0) = x" "length (blocks ?p) = length (blocks p)" "pool_capacity ?p = pool_capacity p"
    using assms by (simp_all add: zeros_free_def)
qed

lemma allocates_zero:
  assumes "zeros_free k p" and "length xs \<le> k"
  shows "\<exists>p'. allocates xs p = Inr (replicate (length xs) 0, p') \<and> zeros_free (k - length xs) p' \<and>
    (xs \<noteq> [] \<longrightarrow> obj (blocks p' ! 0) = snd (last xs)) \<and>
    length (blocks p') = length (blocks p) \<and> pool_capacity p' = pool_capacity p"
  using assms
proof (induction xs arbitrary: k p)
  case (Cons hx xs)
  obtain h x where hx: "hx = (h, x)" by (cases hx)
  from Cons.prems(2) obtain j where k: "k = Suc j" by (cases k) auto
  obtain p1 where p1: "allocate h x p = Inr (0, p1)" "zeros_free j p1" "obj (blocks p1 ! 0) = x"
    "length (blocks p1) = length (blocks p)" "pool_capacity p1 = pool_capacity p"
    by (rule allocate_zero [OF Cons.prems(1) [unfolded k]])
  have "length xs \<le> j" using Cons.prems(2) k by simp
  from Cons.IH [OF p1(2) this] obtain p2 where p2: "allocates xs p1 = Inr (replicate (length xs) 0, p2)"
    "zeros_free (j - length xs) p2" "xs \<noteq> [] \<longrightarrow> obj (blocks p2 ! 0) = snd (last xs)"
    "length (blocks p2) = length (blocks p)" "pool_capacity p2 = pool_capacity p"
    unfolding p1(4,5) by blast
  have run: "allocates (hx # xs) p = Inr (replicate (length (hx # xs)) 0, p2)" by (simp add: hx p1(1) p2(1))
  have "obj (blocks p2 ! 0) = snd (last (hx # xs))"
  proof (cases "xs = []")
    case True
    then have "p2 = p1" using p2(1) by simp
    then show ?thesis using True p1(3) by (simp add: hx)
  next
    case False
    then show ?thesis using p2(3) by simp
  qed
  with run p2(2,4,5) show ?case by (intro exI [of _ p2]) (simp add: k)
qed simp

lemma MemPool_new_zeros: "MemPool_new d n = Inr p \<Longrightarrow> zeros_free n p \<and> length (blocks p) = n \<and> pool_capacity p = n"
  by (auto simp: MemPool_new_def zeros_free_def Let_def split: if_splits)

text \<open>
  A new pool gives out the same block again and again: as its free list starts full of zeros
  instead of empty, each of its first \<open>n\<close> allocations returns block 0 and overwrites the object before
  it, whatever \<open>high_water_mark\<close> is; and that block can never be given back, for \<open>dealloctate\<close> asserts
  that its index is not 0.
\<close>
theorem mempool_reuses_live_block:
  assumes "MemPool_new d n = Inr p" and "length xs \<le> n"
  shows "\<exists>p'. allocates xs p = Inr (replicate (length xs) 0, p') \<and>
    (xs \<noteq> [] \<longrightarrow> obj (blocks p' ! 0) = snd (last xs)) \<and>
    (\<forall>index. dealloctate 0 index p' = Inl PoolAssertion)"
proof -
  have "zeros_free n p" using MemPool_new_zeros [OF assms(1)] by blast
  from allocates_zero [OF this assms(2)] obtain p' where "allocates xs p = Inr (replicate (length xs) 0, p')"
    "xs \<noteq> [] \<longrightarrow> obj (blocks p' ! 0) = snd (last xs)"
    by blast
  moreover have "dealloctate 0 index p' = Inl PoolAssertion" for index by (simp add: dealloctate_def size_of_int_def)
  ultimately show ?thesis by blast
qed

theorem mempool_reuses_live_block_witness:
  "\<exists>p p'. MemPool_new (0 :: nat) 2 = Inr p \<and> allocates [(0, 7), (1, 8)] p = Inr ([0, 0], p') \<and> obj (blocks p' ! 0) = 8"
proof -
  obtain p where p: "MemPool_new (0 :: nat) 2 = Inr p" by (simp add: MemPool_new_def Let_def)
  from mempool_reuses_live_block [OF p, of "[(0, 7), (1, 8)]"] p show ?thesis by (auto simp: numeral_eq_Suc)
qed

text \<open>When the free list is used up every allocation gets the block at a mark that nothing raises.\<close>

lemma allocate_at_mark:
  assumes "free_index p = []" and "pool_capacity p = length (blocks p)"
  shows "allocate h x p = (if h < pool_capacity p
    then Inr (h, p\<lparr>blocks := (blocks p)[h := \<lparr>obj = x, is_free = False\<rparr>]\<rparr>) else Inl NoSpaceLeft)"
  using assms by (simp add: allocate_def allocate_index_def)

text \<open>Giving back another block and allocating again works, when the right index was put on the list.\<close>

lemma dealloctate_then_allocate:
  assumes "0 < i" and "i < length (blocks p)" and "length (blocks p) < 2 ^ 64" and "\<not> is_free (blocks p ! i)"
  obtains p1 p2 where "dealloctate (int i) i p = Inr p1" and "is_free (blocks p1 ! i)"
    and "allocate h x p1 = Inr (i, p2)" and "free_index p2 = free_index p"
    and "blocks p2 = (blocks p)[i := \<lparr>obj = x, is_free = False\<rparr>]"
proof -
  have "i < 2 ^ 64" using assms(2,3) by linarith
  then have i: "size_of_int (int i) = i" by (rule size_of_int_nat)
  let ?p1 = "p\<lparr>blocks := (blocks p)[i := (blocks p ! i)\<lparr>is_free := True\<rparr>], free_index := free_index p @ [i]\<rparr>"
  let ?p2 = "?p1\<lparr>free_index := free_index p, blocks := (blocks p)[i := \<lparr>obj = x, is_free = False\<rparr>]\<rparr>"
  show thesis
    by (rule that [of ?p1 ?p2]) (use assms i in \<open>simp_all add: dealloctate_def allocate_def allocate_index_def Let_def\<close>)
qed

text \<open>A pointer from elsewhere passes the first assertion, whatever lies behind the last block.\<close>

lemma dealloctate_foreign:
  assumes "length (blocks p) \<le> i" and "0 < i" and "i < 2 ^ 64"
  shows "dealloctate (int i) index p = Inl BadIndex"
  using assms size_of_int_nat [OF assms(3)] by (simp add: dealloctate_def Let_def)

end
