(* ===== verification/Spec2Isabelle.thy ===== *)
theory Spec2Isabelle
  imports Spsc BookProps BookSearch MatchProps EngineProps GatewayProps LoggerProps AlphaProps Bench ThreadStart
    SystemProps SystemLogProps Prewarm ProgramProps LoggerExample RingExample ThreadExample ClockRate MemPool
begin

text \<open>
  A trading system in C++: a generator of orders, an order gateway, a matching engine with its limit
  order book and an asynchronous logger, each in a thread of its own, connected by lock-free queues
  with one writer and one reader each (all paths are below \<open>src/\<close>).

  The parts and how they interact.  \<open>AlphaServer\<close> (\<open>alpha_tester.cpp\<close>) makes 99999 orders and sends them
  to \<open>OrderGateway\<close> (\<open>order_gateway/order_gateway.cpp\<close>), which gives each a system id, keeps the id of the
  user for it, and forwards it to \<open>MatchingEngine\<close> (\<open>matching/matching.cpp\<close>).  The engine matches it
  against the other side of the book, enters what is left (\<open>header/lob_struct.h\<close>), and sends
  acknowledgements back through the gateway and broadcasts to the generator, which reads neither.
  Engine and gateway put a record of each event into a queue of its own for \<open>Async_Logger\<close>
  (\<open>header/logger.h\<close>), which writes them to a file.  \<open>main.cpp\<close> makes the queues
  (\<open>header/lock_free_queue.h\<close>) and the threads (\<open>header/Thread.h\<close>), warms the cores up
  (\<open>header/prewarmer.h\<close>), starts and stops the threads and joins them; two of them print their
  latencies at the end (\<open>header/bench.h\<close>).

  The theories, in the order of the code.
  \<^item> \<open>Prelude\<close>: machine integers, faults, results (\<open>fault + 'a\<close>) and outcomes (\<open>None\<close> is not returning).
    \<open>Fairness\<close>: runs of several actors and the interface for showing that fair runs end.
  \<^item> \<open>Messages\<close>: the structs and the log variant.  \<open>Float32\<close>, \<open>Float64\<close>: the \<open>float\<close> and \<open>double\<close>
    operations of the source, bit by bit, and \<open>price_index\<close>.
  \<^item> \<open>LFQueue\<close>: the ring buffer method by method, the list it stands for, the interface \<open>bounded_fifo\<close>,
    and an outgoing queue as its writer sees it (\<open>port\<close>).  \<open>Spsc\<close>: writer and reader on one queue.
    \<open>SpinPublish\<close>: the loops that spin until a queue takes their element, as one interface
    (\<open>spin_publisher\<close>), interpreted for the broadcasts of the engine and the orders of the generator.
  \<^item> \<open>LimitBook\<close>: \<open>limitedOrderBook<isBuy>\<close>, with \<open>isBuy\<close> a field; \<open>BookInvariant\<close>, \<open>BookSide\<close> (the
    interface \<open>order_side\<close> with its two interpretations), \<open>BookProps\<close>, \<open>BookSearch\<close>.
  \<^item> \<open>Matching\<close>: the engine.  \<open>MatchSpec\<close>, \<open>MatchingProofs\<close>, \<open>MatchProps\<close>: matching against its
    specification.  \<open>EngineProofs\<close>, \<open>Requests\<close>, \<open>Market\<close>, \<open>EngineProps\<close>: the requests, and the engine
    against the market without its data structures.
  \<^item> \<open>Gateway\<close>, \<open>GatewayProofs\<close>, \<open>GatewayProps\<close>: the gateway.  \<open>Alpha\<close>, \<open>AlphaProofs\<close>, \<open>AlphaProps\<close>: the
    generator.  \<open>Logger\<close>, \<open>LoggerProofs\<close>, \<open>PriceText\<close>, \<open>LoggerProps\<close>: the logger.
  \<^item> \<open>Bench\<close>, \<open>ClockRate\<close>, \<open>ThreadStart\<close>, \<open>Prewarm\<close>: the report, the clock rate, the start of a thread, the
    warm-up.  \<open>MemPool\<close>: \<open>header/memoryPool.h\<close>, which nothing uses.
  \<^item> \<open>LoggerExample\<close>, \<open>RingExample\<close>, \<open>ThreadExample\<close>: the programs \<open>lock_free_queue/lfq_logger.cpp\<close>,
    \<open>lock_free_queue/LFQ_Implementation_example.cpp\<close> and \<open>thread/example.cpp\<close> of \<open>ExamplesAndTesting\<close>;
    \<open>test.cpp\<close> is in \<open>ClockRate\<close>.
  \<^item> \<open>System\<close>, \<open>LogFlow\<close>, \<open>SystemProofs\<close>, \<open>SystemProps\<close>, \<open>SystemLogProps\<close>: the four threads on the queues
    of \<open>main\<close>, every schedule of their turns.  \<open>Program\<close>, \<open>ProgramProofs\<close>, \<open>ProgramProps\<close>: the life of the
    program, from the first line of \<open>main\<close> to the last, every order of steps.

  State and operations.  An object is a record with the source's fields; a method is a definition that
  takes the object and gives it back changed.  A queue that leads out of a component is a \<open>port\<close>: the
  ring together with what was published and what its reader has taken, and at each access its reader
  may have come further by a number that is a parameter (\<open>ack_env\<close> and the like); in \<open>System\<close> these
  are 0 and the reader is the other thread.  Clocks, random numbers, which cores exist and whether the
  log file opens are parameters, too.  Loops that might not end are \<open>partial_function (option)\<close>.

  What the lemmas show.
  \<^item> Queues: the ring is a FIFO list in every interleaving, without a data race, and a reader may still
    read the slot it has just released (\<open>RingExample\<close>).
  \<^item> Book: \<open>lob_inv\<close> ties the lookup table, the counters and the best-price pointer to the live orders;
    every operation keeps it, and the book equals one that has none of these and searches
    (\<open>BookSearch\<close>).
  \<^item> Matching: \<open>aggresiveMatch\<close> is the walk over the levels in price-time priority (\<open>match_walk\<close>), conserves
    quantity, and fails to return in exactly one situation.
  \<^item> Engine: it refines the market (\<open>m_request\<close>), is never crossed, and each request has its effect and
    its messages, errors included.
  \<^item> Gateway: ids are consecutive and lead back; orders are forwarded in order; acknowledgements wait.
  \<^item> Logger: what it writes is the text of what it reads, in order, within its buffers; in the system
    everything logged can be written.
  \<^item> System: an invariant of all threads and queues; no schedule faults or hangs, nothing is lost,
    repeated or overtaken, and each fair schedule gets everything done.
  \<^item> Program: the flags and the script of \<open>main\<close> are an invariant (\<open>flags_inv\<close>), a measure that fair rounds
    lower shows that the program ends; what its end can lose, and the three ways it can fault
    (\<open>known_fault\<close>), each of which happens: a null pointer is joined, a dead lambda is called, a report
    has too few samples.  The start of its threads is a run of \<open>ThreadStart\<close> (\<open>program_starts_threads\<close>).
  \<^item> Parts of their own: the report prints the samples at the floors it means to; the clock rate has the
    wrong sign; a thread is returned exactly when it was pinned; a new memory pool gives out one block.

  Bounds.  A queue of \<open>main\<close> has 200005 slots, of which one stays empty; 99999 orders make at most as
  many requests and at most twice as many broadcasts, so no thread of the system ever waits for a
  reader.  A log element or an acknowledgement that finds its queue full is dropped or waits, as in the
  source; the theorems about the log speak of the elements that were published.  2001 turns of the
  logger at 100 elements each drain a full queue.  The measure of the program starts at 100050: 19
  steps of \<open>main\<close>, 8 for each of four threads that its flags allow to end, and 99999 orders.  A
  run of the generator, the gateway and the engine has no fuel: each \<open>readOrder\<close> is shown to return.

  Not modelled.  \<open>header/memoryPool.h\<close> does not compile (it uses names that it does not declare); the two
  of them that misspell no member are arguments of its definitions, and its code in comments is left out.
  Of the examples, the samples of the time and the ends of two \<open>main\<close>s are left out: one comes after the
  program was terminated, the other does not compile with this \<open>bench.h\<close>.  The readings of the clock and
  of the cycle counter are parameters.  Messages to the terminal, sleeping, the names of threads and the stream buffer of
  the log file have no effect on the state.  Memory orders weaker than sequential consistency are not
  distinguished: the queues and flags use release and acquire on single variables, and a step is one
  access.
\<close>

end
